(* ===== verification/Prelude.thy ===== *)
theory Prelude
  imports Complex_Main "HOL-Library.Word"
begin

text \<open>
  Shared vocabulary of the development: the machine integers of the C++ code, the ways an
  operation can fail, the type of a computation that may also fail to return, little-endian
  byte strings, and the list lemmas that several components use.

  A computation of the code is a value of type \<open>'a run\<close>: \<open>None\<close> when a loop of the code
  never ends, \<open>Some (Inl err)\<close> when an exception leaves the function (or \<open>assert\<close> aborts),
  \<open>Some (Inr x)\<close> when it returns \<open>x\<close>.
\<close>

unbundle bit_operations_syntax

section \<open>Machine integers and results\<close>

lemma unat_lt2p [simp]: "unat (w :: 'a::len word) < 2 ^ LENGTH('a)"
  by (rule unsigned_less)

type_synonym byte = "8 word"
type_synonym u8 = "8 word"
type_synonym i8 = "8 word"
type_synonym u16 = "16 word"
type_synonym u32 = "32 word"
type_synonym i32 = "32 word"
type_synonym u64 = "64 word"

text \<open>
  \<open>Read_failed i\<close> is the \<open>std::runtime_error\<close> of \<open>read_trade_data\<close>;
  \<open>Assert_failed\<close> is an \<open>assert\<close> that does not hold; \<open>Check_error s\<close> is the
  \<open>std::runtime_error\<close> that \<open>helper::check_error\<close> throws with message \<open>s\<close>;
  \<open>Runtime_error s\<close> is a \<open>std::runtime_error\<close> thrown directly;
  \<open>Out_of_bounds\<close> is a read past the end of a vector, undefined behaviour in C++;
  \<open>Length_error\<close>, \<open>Invalid_argument\<close> and \<open>Out_of_range\<close> are the standard library's
  exceptions of these names.
\<close>

datatype cpp_error =
    Read_failed u64
  | Assert_failed
  | Check_error string
  | Runtime_error string
  | Out_of_bounds
  | Length_error
  | Invalid_argument
  | Out_of_range

type_synonym 'a result = "cpp_error + 'a"
type_synonym 'a run = "'a result option"

definition bindE :: "'a result \<Rightarrow> ('a \<Rightarrow> 'b result) \<Rightarrow> 'b result" where
  "bindE r f = (case r of Inl err \<Rightarrow> Inl err | Inr x \<Rightarrow> f x)"

definition bindR :: "'a run \<Rightarrow> ('a \<Rightarrow> 'b run) \<Rightarrow> 'b run" where
  "bindR m f = (case m of
      None \<Rightarrow> None
    | Some (Inl err) \<Rightarrow> Some (Inl err)
    | Some (Inr x) \<Rightarrow> f x)"

lemma bindE_simps [simp]: "bindE (Inl err) f = Inl err" "bindE (Inr x) f = f x"
  by (simp_all add: bindE_def)

lemma bindR_simps [simp]:
  "bindR None f = None" "bindR (Some (Inl err)) f = Some (Inl err)"
  "bindR (Some (Inr x)) f = f x"
  by (simp_all add: bindR_def)

lemma bindE_eq_Inr: "bindE r f = Inr y \<longleftrightarrow> (\<exists>x. r = Inr x \<and> f x = Inr y)"
  by (cases r) simp_all

lemma bindE_eq_Inl: "bindE r f = Inl err \<longleftrightarrow> r = Inl err \<or> (\<exists>x. r = Inr x \<and> f x = Inl err)"
  by (cases r) simp_all

lemma bindR_eq_Inr: "bindR m f = Some (Inr y) \<longleftrightarrow> (\<exists>x. m = Some (Inr x) \<and> f x = Some (Inr y))"
  by (auto simp: bindR_def split: option.splits sum.splits)

lemma bindR_assoc: "bindR (bindR m f) g = bindR m (\<lambda>x. bindR (f x) g)"
  by (auto simp: bindR_def split: option.splits sum.splits)

lemma bindR_return [simp]: "bindR m (\<lambda>x. Some (Inr x)) = m"
  by (auto simp: bindR_def split: option.splits sum.splits)

lemma bindR_not_None:
  assumes "m \<noteq> None" and "\<And>x. f x \<noteq> None"
  shows "bindR m f \<noteq> None"
  using assms(1) assms(2) by (cases m) (auto simp: bindR_def split: sum.splits)

lemma guard_not_None: "(\<not> c \<Longrightarrow> m \<noteq> None) \<Longrightarrow> (if c then Some x else m) \<noteq> None"
  by simp

text \<open>The loop body may fail: a left fold that stops at the first error.\<close>

fun foldE :: "('b \<Rightarrow> 'a \<Rightarrow> 'a result) \<Rightarrow> 'b list \<Rightarrow> 'a \<Rightarrow> 'a result" where
  "foldE f [] acc = Inr acc"
| "foldE f (x # xs) acc = bindE (f x acc) (foldE f xs)"

lemma foldE_append: "foldE f (xs @ ys) acc = bindE (foldE f xs acc) (foldE f ys)"
  by (induction xs arbitrary: acc) (auto simp: bindE_def split: sum.splits)

lemma foldE_total:
  "(\<And>x acc. x \<in> set xs \<Longrightarrow> f x acc = Inr (g x acc)) \<Longrightarrow> foldE f xs acc = Inr (fold g xs acc)"
  by (induction xs arbitrary: acc) auto

lemma unat_of_nat_u64: "k < 2 ^ 64 \<Longrightarrow> unat (of_nat k :: u64) = k"
  by (simp add: unat_of_nat)

lemma unat_max_u64: "unat (w :: u64) = 2 ^ 64 - 1 \<longleftrightarrow> w = - 1"
proof -
  have m: "unat (- 1 :: u64) = 2 ^ 64 - 1"
    by (simp add: unsigned_minus_1_eq_mask mask_eq_exp_minus_1)
  show ?thesis using m by (metis unsigned_word_eqI)
qed

section \<open>Little-endian byte strings\<close>

text \<open>
  The object representation of an unsigned integer on the machines the code runs on (x86-64,
  AArch64): \<open>le_bytes n k\<close> is the low \<open>n\<close> bytes of \<open>k\<close>, least significant first, and
  \<open>le_val\<close> reads a byte string back.
\<close>

fun le_bytes :: "nat \<Rightarrow> nat \<Rightarrow> byte list" where
  "le_bytes 0 k = []"
| "le_bytes (Suc n) k = of_nat (k mod 256) # le_bytes n (k div 256)"

fun le_val :: "byte list \<Rightarrow> nat" where
  "le_val [] = 0"
| "le_val (b # bs) = unat b + 256 * le_val bs"

lemma length_le_bytes [simp]: "length (le_bytes n k) = n"
  by (induction n arbitrary: k) auto

lemma unat_byte_of_nat [simp]: "unat (of_nat (k mod 256) :: byte) = k mod 256"
  by (simp add: unat_of_nat)

lemma le_val_le_bytes: "le_val (le_bytes n k) = k mod 256 ^ n"
  by (induction n arbitrary: k) (simp_all add: mod_mult2_eq)

lemma le_val_bound: "le_val bs < 256 ^ length bs"
proof (induction bs)
  case Nil
  then show ?case by simp
next
  case (Cons b bs)
  have "unat b < 256" using unat_lt2p[of b] by simp
  with Cons show ?case by simp
qed

lemma le_bytes_le_val: "le_bytes (length bs) (le_val bs) = bs"
proof (induction bs)
  case Nil
  then show ?case by simp
next
  case (Cons b bs)
  have b: "unat b < 256" using unat_lt2p[of b] by simp
  then have "(unat b + 256 * le_val bs) div 256 = le_val bs" by simp
  moreover have "(of_nat ((unat b + 256 * le_val bs) mod 256) :: byte) = b"
    using b by simp
  ultimately show ?case using Cons by simp
qed

definition le32 :: "u32 \<Rightarrow> byte list" where
  "le32 w = le_bytes 4 (unat w)"

definition le64 :: "u64 \<Rightarrow> byte list" where
  "le64 w = le_bytes 8 (unat w)"

definition get32 :: "byte list \<Rightarrow> u32" where
  "get32 bs = of_nat (le_val (take 4 bs))"

definition get64 :: "byte list \<Rightarrow> u64" where
  "get64 bs = of_nat (le_val (take 8 bs))"

lemma length_le32 [simp]: "length (le32 w) = 4"
  by (simp add: le32_def)

lemma length_le64 [simp]: "length (le64 w) = 8"
  by (simp add: le64_def)

lemma get32_le32 [simp]: "get32 (le32 w @ bs) = w"
proof -
  have "unat w < 256 ^ 4" using unat_lt2p[of w] by simp
  then show ?thesis by (simp add: get32_def le32_def le_val_le_bytes)
qed

lemma get64_le64 [simp]: "get64 (le64 w @ bs) = w"
proof -
  have "unat w < 256 ^ 8" using unat_lt2p[of w] by simp
  then show ?thesis by (simp add: get64_def le64_def le_val_le_bytes)
qed

lemma get32_le32_Nil [simp]: "get32 (le32 w) = w"
  using get32_le32[of w "[]"] by simp

lemma get64_le64_Nil [simp]: "get64 (le64 w) = w"
  using get64_le64[of w "[]"] by simp

lemma le32_get32: "length bs = 4 \<Longrightarrow> le32 (get32 bs) = bs"
proof -
  assume l: "length bs = 4"
  have "le_val bs < 2 ^ 32" using le_val_bound[of bs] l by simp
  then have "unat (of_nat (le_val bs) :: u32) = le_val bs" by (simp add: unat_of_nat)
  then show ?thesis using l le_bytes_le_val[of bs] by (simp add: get32_def le32_def)
qed

lemma le64_get64: "length bs = 8 \<Longrightarrow> le64 (get64 bs) = bs"
proof -
  assume l: "length bs = 8"
  have "le_val bs < 2 ^ 64" using le_val_bound[of bs] l by simp
  then have "unat (of_nat (le_val bs) :: u64) = le_val bs" by (simp add: unat_of_nat)
  then show ?thesis using l le_bytes_le_val[of bs] by (simp add: get64_def le64_def)
qed

lemma take_le_bytes: "k \<le> n \<Longrightarrow> take k (le_bytes n m) = le_bytes k m"
proof (induction k arbitrary: n m)
  case 0
  then show ?case by simp
next
  case (Suc k)
  then show ?case by (cases n) simp_all
qed

lemma low_half: "of_nat (unat (w :: u64) mod 2 ^ 32) = (ucast w :: u32)"
proof (rule bit_word_eqI)
  fix n assume "n < LENGTH(32)"
  then show "bit (of_nat (unat w mod 2 ^ 32) :: u32) n \<longleftrightarrow> bit (ucast w :: u32) n"
    by (simp only: bit_simps flip: take_bit_eq_mod) simp
qed

lemma get32_le64: "get32 (le64 w @ bs) = ucast w"
  using low_half[of w] by (simp add: get32_def le64_def take_le_bytes le_val_le_bytes)

section \<open>Lists\<close>

lemma length_concat_const:
  "(\<And>x. x \<in> set xs \<Longrightarrow> length (f x) = n) \<Longrightarrow> length (concat (map f xs)) = length xs * n"
  by (induction xs) auto

lemma drop_concat_const:
  assumes "\<And>x. x \<in> set xs \<Longrightarrow> length (f x) = n"
  shows "drop (i * n) (concat (map f xs)) = concat (map f (drop i xs))"
  using assms
proof (induction xs arbitrary: i)
  case Nil
  then show ?case by simp
next
  case (Cons x xs)
  then show ?case by (cases i) auto
qed

lemma take_concat_nth:
  assumes "\<And>x. x \<in> set xs \<Longrightarrow> length (f x) = n" and "i < length xs"
  shows "take n (drop (i * n) (concat (map f xs))) = f (xs ! i)"
proof -
  have "drop i xs = xs ! i # drop (Suc i) xs" using assms(2) by (simp add: Cons_nth_drop_Suc)
  then show ?thesis using assms by (simp add: drop_concat_const[OF assms(1)])
qed

section \<open>Counting the threads at a program point\<close>

definition count_at :: "('a \<Rightarrow> bool) \<Rightarrow> 'a list \<Rightarrow> nat" where
  "count_at P xs = length (filter P xs)"

lemma count_at_update:
  "i < length xs \<Longrightarrow> count_at P (xs[i := y]) + of_bool (P (xs ! i)) = count_at P xs + of_bool (P y)"
proof -
  assume i: "i < length xs"
  have u: "count_at P (xs[i := y]) = count_at P (take i xs) + of_bool (P y) + count_at P (drop (Suc i) xs)" for y
    using i by (simp add: count_at_def upd_conv_take_nth_drop)
  show ?thesis using u[of y] u[of "xs ! i"] by simp
qed

lemma count_at_pos: "i < length xs \<Longrightarrow> P (xs ! i) \<Longrightarrow> 0 < count_at P xs"
  unfolding count_at_def by (metis filter_empty_conv length_greater_0_conv nth_mem)

lemma count_at_posD: "0 < count_at P xs \<Longrightarrow> \<exists>i < length xs. P (xs ! i)"
  unfolding count_at_def by (metis filter_empty_conv in_set_conv_nth length_greater_0_conv)

lemma count_at_0: "count_at P xs = 0 \<longleftrightarrow> (\<forall>x \<in> set xs. \<not> P x)"
  by (simp add: count_at_def filter_empty_conv)

end
