(* ===== verification/Trade_Data.thy ===== *)
theory Trade_Data
  imports Prelude
begin

text \<open>
  The data of \<open>src/utils/query.h\<close>: the query a client sends, a price and a quantity as a
  mantissa with a decimal exponent, a trade record as it lies in the data file, and the
  \<open>Result\<close> of the UDP server. The code sends and stores these structs as raw memory, so the
  theory also computes their layout (offsets and sizes under \<open>#pragma pack(2)\<close> and
  \<open>__attribute__((packed))\<close>) and gives the byte strings they occupy, with their inverses.
\<close>

section \<open>The structs\<close>

record TradeDataQuery =
  query_symbol_id :: u32
  start_time_point :: u64
  end_time_point :: u64
  resolution :: u64
  metrics :: u64

record Price =
  price :: u32
  price_exponent :: i8

record Quantity =
  quantity :: u32
  quantity_exponent :: i8

record TradeData =
  symbol_id :: u32
  created_at :: u64
  trade_id :: u64
  trade_price :: Price
  trade_quantity :: Quantity
  taker_side :: u8

record Result =
  start_time :: u64
  lowest_price :: Price
  highest_price :: Price

section \<open>Layout\<close>

text \<open>
  A member has a size and a natural alignment. Packing \<open>n\<close> caps every alignment at \<open>n\<close>;
  a member starts at the next multiple of its capped alignment, and the size of the struct is
  rounded up to the largest capped alignment.
\<close>

definition align_up :: "nat \<Rightarrow> nat \<Rightarrow> nat" where
  "align_up a off = (off + a - 1) div a * a"

fun member_offsets :: "nat \<Rightarrow> nat \<Rightarrow> (nat \<times> nat) list \<Rightarrow> nat list" where
  "member_offsets pack off [] = []"
| "member_offsets pack off ((sz, al) # ms) =
     (let o1 = align_up (min al pack) off in o1 # member_offsets pack (o1 + sz) ms)"

fun layout_end :: "nat \<Rightarrow> nat \<Rightarrow> (nat \<times> nat) list \<Rightarrow> nat" where
  "layout_end pack off [] = off"
| "layout_end pack off ((sz, al) # ms) = layout_end pack (align_up (min al pack) off + sz) ms"

definition struct_align :: "nat \<Rightarrow> (nat \<times> nat) list \<Rightarrow> nat" where
  "struct_align pack ms = fold (\<lambda>(sz, al) a. max a (min al pack)) ms 1"

definition struct_size :: "nat \<Rightarrow> (nat \<times> nat) list \<Rightarrow> nat" where
  "struct_size pack ms = align_up (struct_align pack ms) (layout_end pack 0 ms)"

text \<open>
  \<open>TradeDataQuery\<close> has the natural layout (alignments of 8 are not capped); \<open>Price\<close> and
  \<open>Quantity\<close> are packed; \<open>TradeData\<close> and, because the pragma is never popped, \<open>Result\<close>
  are under \<open>#pragma pack(2)\<close>.
\<close>

definition TradeDataQuery_members :: "(nat \<times> nat) list" where
  "TradeDataQuery_members = [(4, 4), (8, 8), (8, 8), (8, 8), (8, 8)]"

definition Price_members :: "(nat \<times> nat) list" where
  "Price_members = [(4, 4), (1, 1)]"

definition sizeof_Price :: nat where
  "sizeof_Price = struct_size 1 Price_members"

definition TradeData_members :: "(nat \<times> nat) list" where
  "TradeData_members =
     [(4, 4), (8, 8), (8, 8), (sizeof_Price, 1), (sizeof_Price, 1), (1, 1)]"

definition Result_members :: "(nat \<times> nat) list" where
  "Result_members = [(8, 8), (sizeof_Price, 1), (sizeof_Price, 1)]"

definition sizeof_TradeDataQuery :: nat where
  "sizeof_TradeDataQuery = struct_size 8 TradeDataQuery_members"

definition sizeof_TradeData :: nat where
  "sizeof_TradeData = struct_size 2 TradeData_members"

definition sizeof_Result :: nat where
  "sizeof_Result = struct_size 2 Result_members"

lemma sizeof_Price_eq [simp]: "sizeof_Price = 5"
  by code_simp

lemma sizeof_TradeDataQuery_eq [simp]: "sizeof_TradeDataQuery = 40"
  by code_simp

lemma sizeof_TradeData_eq [simp]: "sizeof_TradeData = 32"
  by code_simp

lemma sizeof_Result_eq [simp]: "sizeof_Result = 18"
  by code_simp

lemma TradeData_offsets: "member_offsets 2 0 TradeData_members = [0, 4, 12, 20, 25, 30]"
  by code_simp

lemma TradeDataQuery_offsets:
  "member_offsets 8 0 TradeDataQuery_members = [0, 8, 16, 24, 32]"
  by code_simp

lemma Result_offsets: "member_offsets 2 0 Result_members = [0, 8, 13]"
  by code_simp

section \<open>Object representations\<close>

definition encode_Price :: "Price \<Rightarrow> byte list" where
  "encode_Price p = le32 (price p) @ [price_exponent p]"

definition decode_Price :: "byte list \<Rightarrow> Price" where
  "decode_Price bs = \<lparr>price = get32 bs, price_exponent = bs ! 4\<rparr>"

definition encode_Quantity :: "Quantity \<Rightarrow> byte list" where
  "encode_Quantity q = le32 (quantity q) @ [quantity_exponent q]"

definition decode_Quantity :: "byte list \<Rightarrow> Quantity" where
  "decode_Quantity bs = \<lparr>quantity = get32 bs, quantity_exponent = bs ! 4\<rparr>"

text \<open>\<open>pad\<close> is the value of the padding byte at offset 31, which C++ leaves unspecified.\<close>

definition encode_TradeData :: "byte \<Rightarrow> TradeData \<Rightarrow> byte list" where
  "encode_TradeData pad t =
     le32 (symbol_id t) @ le64 (created_at t) @ le64 (trade_id t) @
     encode_Price (trade_price t) @ encode_Quantity (trade_quantity t) @ [taker_side t, pad]"

definition decode_TradeData :: "byte list \<Rightarrow> TradeData" where
  "decode_TradeData bs =
     \<lparr>symbol_id = get32 bs, created_at = get64 (drop 4 bs), trade_id = get64 (drop 12 bs),
      trade_price = decode_Price (drop 20 bs), trade_quantity = decode_Quantity (drop 25 bs),
      taker_side = bs ! 30\<rparr>"

text \<open>\<open>pad\<close> are the four padding bytes at offsets 4 to 7.\<close>

definition encode_TradeDataQuery :: "byte list \<Rightarrow> TradeDataQuery \<Rightarrow> byte list" where
  "encode_TradeDataQuery pad q =
     le32 (query_symbol_id q) @ take 4 (pad @ replicate 4 0) @ le64 (start_time_point q) @
     le64 (end_time_point q) @ le64 (resolution q) @ le64 (metrics q)"

definition decode_TradeDataQuery :: "byte list \<Rightarrow> TradeDataQuery" where
  "decode_TradeDataQuery bs =
     \<lparr>query_symbol_id = get32 bs, start_time_point = get64 (drop 8 bs),
      end_time_point = get64 (drop 16 bs), resolution = get64 (drop 24 bs),
      metrics = get64 (drop 32 bs)\<rparr>"

definition encode_Result :: "Result \<Rightarrow> byte list" where
  "encode_Result r =
     le64 (start_time r) @ encode_Price (lowest_price r) @ encode_Price (highest_price r)"

definition decode_Result :: "byte list \<Rightarrow> Result" where
  "decode_Result bs =
     \<lparr>start_time = get64 bs, lowest_price = decode_Price (drop 8 bs),
      highest_price = decode_Price (drop 13 bs)\<rparr>"

lemma length_encode_Price [simp]: "length (encode_Price p) = 5"
  by (simp add: encode_Price_def)

lemma length_encode_Quantity [simp]: "length (encode_Quantity p) = 5"
  by (simp add: encode_Quantity_def)

lemma length_encode_TradeData [simp]: "length (encode_TradeData pad t) = 32"
  by (simp add: encode_TradeData_def)

lemma length_encode_TradeDataQuery [simp]: "length (encode_TradeDataQuery pad q) = 40"
  by (simp add: encode_TradeDataQuery_def)

lemma length_encode_Result [simp]: "length (encode_Result r) = 18"
  by (simp add: encode_Result_def)

lemma decode_encode_Price [simp]: "decode_Price (encode_Price p @ bs) = p"
  by (simp add: decode_Price_def encode_Price_def nth_append)

lemma decode_encode_Quantity [simp]: "decode_Quantity (encode_Quantity p @ bs) = p"
  by (simp add: decode_Quantity_def encode_Quantity_def nth_append)

lemma decode_encode_Price_Nil [simp]: "decode_Price (encode_Price p) = p"
  using decode_encode_Price[of p "[]"] by simp

lemma decode_encode_Quantity_Nil [simp]: "decode_Quantity (encode_Quantity p) = p"
  using decode_encode_Quantity[of p "[]"] by simp

lemma decode_encode_TradeData [simp]: "decode_TradeData (encode_TradeData pad t) = t"
  by (simp add: decode_TradeData_def encode_TradeData_def nth_append)

lemma decode_encode_TradeData_append [simp]: "decode_TradeData (encode_TradeData pad t @ rest) = t"
  by (simp add: decode_TradeData_def encode_TradeData_def nth_append)

lemma decode_encode_TradeDataQuery [simp]:
  "decode_TradeDataQuery (encode_TradeDataQuery pad q) = q"
  by (simp add: decode_TradeDataQuery_def encode_TradeDataQuery_def)

lemma decode_encode_TradeDataQuery_append [simp]:
  "decode_TradeDataQuery (encode_TradeDataQuery pad q @ rest) = q"
  by (simp add: decode_TradeDataQuery_def encode_TradeDataQuery_def)

lemma decode_encode_Result [simp]: "decode_Result (encode_Result r) = r"
  by (simp add: decode_Result_def encode_Result_def)

lemma list_split_5: "length bs = 5 \<Longrightarrow> bs = take 4 bs @ [bs ! 4]"
  using id_take_nth_drop[of 4 bs] by simp

lemma encode_decode_Price: "length bs = 5 \<Longrightarrow> encode_Price (decode_Price bs) = bs"
  using list_split_5[of bs] le32_get32[of "take 4 bs"]
  by (simp add: encode_Price_def decode_Price_def get32_def)

section \<open>A data file as a list of records\<close>

text \<open>
  \<open>trades_of\<close> reads a file's bytes as consecutive records of \<open>sizeof(TradeData)\<close> bytes (an
  incomplete tail is no record); \<open>encode_trades\<close> is the file \<open>process_data\<close> writes.
\<close>

definition trades_of :: "byte list \<Rightarrow> TradeData list" where
  "trades_of bs =
     map (\<lambda>i. decode_TradeData (take sizeof_TradeData (drop (i * sizeof_TradeData) bs)))
       [0..<length bs div sizeof_TradeData]"

definition encode_trades :: "byte \<Rightarrow> TradeData list \<Rightarrow> byte list" where
  "encode_trades pad ts = concat (map (encode_TradeData pad) ts)"

lemma length_encode_trades [simp]: "length (encode_trades pad ts) = length ts * 32"
  unfolding encode_trades_def by (rule length_concat_const) simp

lemma take_drop_encode_trades:
  "i < length ts \<Longrightarrow> take 32 (drop (i * 32) (encode_trades pad ts)) = encode_TradeData pad (ts ! i)"
  unfolding encode_trades_def by (rule take_concat_nth) simp_all

lemma trades_of_encode_trades [simp]: "trades_of (encode_trades pad ts) = ts"
  by (rule nth_equalityI) (simp_all add: trades_of_def take_drop_encode_trades)

lemma length_trades_of [simp]: "length (trades_of bs) = length bs div 32"
  by (simp add: trades_of_def)

lemma trades_of_nth:
  "i < length bs div 32 \<Longrightarrow> trades_of bs ! i = decode_TradeData (take 32 (drop (i * 32) bs))"
  by (simp add: trades_of_def)

end
