(* ===== verification/Query_Engine.thy ===== *)
theory Query_Engine
  imports Trade_Data
begin

text \<open>
  The part of \<open>src/query_engine/query_engine.cc\<close> that reads the data file: the constructor,
  \<open>read_trade_data\<close>, the two binary searches every metric starts with, and \<open>send_raw_data\<close>.

  The engine is the opened file (its bytes, \<open>None\<close> when it could not be opened) and the member
  \<open>trades_size\<close>. A failed read throws; no caller in the server catches the exception, so the
  sticky failbit of the stream is never observed and the stream has no other state: every read
  seeks first.
\<close>

section \<open>The engine and its reads\<close>

record Query_engine =
  data :: "byte list option"
  trades_size :: u64

text \<open>
  \<open>junk\<close> is the value of the member \<open>trades_size\<close> before the constructor body runs; the
  constructor returns without setting it when the file cannot be opened.
\<close>

definition new_Query_engine :: "byte list option \<Rightarrow> u64 \<Rightarrow> Query_engine" where
  "new_Query_engine file junk = (case file of
      None \<Rightarrow> \<lparr>data = None, trades_size = junk\<rparr>
    | Some bs \<Rightarrow> \<lparr>data = Some bs, trades_size = of_nat (length bs div 31)\<rparr>)"

text \<open>The destructor closes the file when it is open.\<close>

definition delete_Query_engine :: "Query_engine \<Rightarrow> Query_engine" where
  "delete_Query_engine e = (if data e \<noteq> None then e\<lparr>data := None\<rparr> else e)"

text \<open>
  The offset \<open>ind * sizeof(TradeData)\<close> is computed in \<open>uint64_t\<close> and converted to the signed
  stream offset; seeking to a negative offset fails, reading past the end fails.
\<close>

definition read_trade_data :: "Query_engine \<Rightarrow> u64 \<Rightarrow> TradeData result" where
  "read_trade_data e ind = (case data e of
      None \<Rightarrow> Inl (Read_failed ind)
    | Some bs \<Rightarrow>
        let off = ind * of_nat sizeof_TradeData
        in if sint off < 0 \<or> length bs < unat off + sizeof_TradeData
           then Inl (Read_failed ind)
           else Inr (decode_TradeData (take sizeof_TradeData (drop (unat off) bs))))"

lemma read_closed: "read_trade_data (delete_Query_engine e) ind = Inl (Read_failed ind)"
  by (simp add: read_trade_data_def delete_Query_engine_def)

definition int_ceil :: "u64 \<Rightarrow> u64 \<Rightarrow> u64" where
  "int_ceil x y = x div y + (if x mod y \<noteq> 0 then 1 else 0)"

section \<open>Binary search\<close>

lemma unat_midpoint:
  assumes "(left :: u64) < right"
  shows "unat (left + drop_bit 1 (right - left)) = unat left + (unat right - unat left) div 2"
proof -
  have lr: "unat left < unat right" using assms by (simp add: word_less_nat_alt)
  have "unat (drop_bit 1 (right - left)) = drop_bit 1 (unat (right - left))"
    by (rule unat_drop_bit_eq)
  also have "\<dots> = (unat right - unat left) div 2"
    using assms by (simp add: drop_bit_eq_div unat_sub less_imp_le)
  finally have d: "unat (drop_bit 1 (right - left)) = (unat right - unat left) div 2" .
  have "unat left + (unat right - unat left) div 2 < 2 ^ 64"
    using lr unat_lt2p[of right] by simp
  then show ?thesis using d by (simp add: unat_word_ariths)
qed

lemma unat_Suc_below: "(i :: u64) < j \<Longrightarrow> unat (i + 1) = Suc (unat i)"
proof -
  assume "i < j"
  then have "unat i + 1 < 2 ^ 64" using unat_lt2p[of j] by (simp add: word_less_nat_alt)
  then show ?thesis by (simp add: unat_word_ariths)
qed

text \<open>
  The loop \<open>while (left < right)\<close> over the reader \<open>rd\<close>, with the threshold \<open>t\<close>; it returns
  the final \<open>left\<close> and \<open>right\<close>.
\<close>

function search_loop ::
  "(u64 \<Rightarrow> TradeData result) \<Rightarrow> u64 \<Rightarrow> u64 \<Rightarrow> u64 \<Rightarrow> (u64 \<times> u64) result" where
  "search_loop rd t left right =
     (if left < right then
        let mid = left + drop_bit 1 (right - left)
        in bindE (rd mid) (\<lambda>trade.
             if created_at trade < t then search_loop rd t (mid + 1) right
             else search_loop rd t left mid)
      else Inr (left, right))"
  by pat_completeness auto
termination
proof (relation "measure (\<lambda>(rd, t, left, right). unat right - unat left)", goal_cases)
  case 1
  show ?case by simp
next
  case (2 rd t left right mid trade)
  have lr: "unat left < unat right" using 2(1) by (simp add: word_less_nat_alt)
  have m: "unat mid = unat left + (unat right - unat left) div 2"
    using unat_midpoint[OF 2(1)] 2(2) by simp
  then have "unat mid < unat right" using lr by arith
  then have "unat (mid + 1) = Suc (unat mid)"
    by (intro unat_Suc_below[of mid right]) (simp add: word_less_nat_alt)
  then show ?case using lr m by simp
next
  case (3 rd t left right mid trade)
  have lr: "unat left < unat right" using 3(1) by (simp add: word_less_nat_alt)
  then show ?case using unat_midpoint[OF 3(1)] 3(2) by simp
qed

declare search_loop.simps [simp del]

lemma search_loop_done: "\<not> left < right \<Longrightarrow> search_loop rd t left right = Inr (left, right)"
  by (simp add: search_loop.simps[of rd t left right])

lemma search_loop_step:
  assumes "left < right" and "mid = left + drop_bit 1 (right - left)"
  shows "search_loop rd t left right = bindE (rd mid) (\<lambda>trade.
    if created_at trade < t then search_loop rd t (mid + 1) right
    else search_loop rd t left mid)"
  unfolding assms(2) using assms(1) by (subst search_loop.simps) (simp only: Let_def if_True)

text \<open>
  The two searches at the head of each metric: the first trade not before \<open>start_t\<close> (never
  beyond the last one), then the first trade not before \<open>end_t\<close>, backed up by one. The result
  is the pair \<open>start_idx\<close>, \<open>end_idx\<close> of the scan.
\<close>

definition search_window :: "Query_engine \<Rightarrow> u64 \<Rightarrow> u64 \<Rightarrow> (u64 \<times> u64) result" where
  "search_window e start_t end_t =
     bindE (search_loop (read_trade_data e) start_t 0 (trades_size e - 1)) (\<lambda>(left, _).
       let start_idx = left
       in bindE (search_loop (read_trade_data e) end_t start_idx (trades_size e)) (\<lambda>(_, right).
            let end_idx = (if right = 0 then 0 else right - 1)
            in Inr (start_idx, end_idx)))"

section \<open>Raw data\<close>

function send_raw_loop ::
  "Query_engine \<Rightarrow> TradeDataQuery \<Rightarrow> u64 \<Rightarrow> TradeData list \<Rightarrow> TradeData list result" where
  "send_raw_loop e query ind trades =
     (if ind < trades_size e then
        bindE (read_trade_data e ind) (\<lambda>trade.
          send_raw_loop e query (ind + 1)
            (if start_time_point query \<le> created_at trade \<and>
                created_at trade < end_time_point query
             then trades @ [trade] else trades))
      else Inr trades)"
  by pat_completeness auto
termination
proof (relation "measure (\<lambda>(e, query, ind, trades). unat (trades_size e) - unat ind)", goal_cases)
  case 1
  show ?case by simp
next
  case (2 e query ind trades x)
  then show ?case using unat_Suc_below[of ind "trades_size e"]
    by (simp add: word_less_nat_alt)
qed

declare send_raw_loop.simps [simp del]

definition send_raw_data :: "Query_engine \<Rightarrow> TradeDataQuery \<Rightarrow> TradeData list result" where
  "send_raw_data e query = send_raw_loop e query 0 []"

section \<open>The engine as a store of records\<close>

text \<open>
  The abstraction: the records of the file, in file order. \<open>readable\<close> bounds the file size so
  that record offsets are representable; \<open>sized\<close> says that the member \<open>trades_size\<close> is the
  number of records.

  \<open>trades_size\<close> may exceed the number of records (the constructor divides by 31). A binary search
  probes the middle of what is left, so an inflated right end does no harm while the answer is far
  enough from the end of the file: \<open>covers t e\<close> says that all searches for times up to \<open>t\<close> are
  safe, either because the count is right or because the answer plus the count stays below twice
  the number of records.
\<close>

definition records :: "Query_engine \<Rightarrow> TradeData list" where
  "records e = (case data e of None \<Rightarrow> [] | Some bs \<Rightarrow> trades_of bs)"

definition readable :: "Query_engine \<Rightarrow> bool" where
  "readable e = (case data e of None \<Rightarrow> False | Some bs \<Rightarrow> length bs < 2 ^ 62)"

definition sized :: "Query_engine \<Rightarrow> bool" where
  "sized e \<longleftrightarrow> readable e \<and> unat (trades_size e) = length (records e)"

definition time_sorted :: "TradeData list \<Rightarrow> bool" where
  "time_sorted ts = sorted (map created_at ts)"

definition lower_bound :: "u64 \<Rightarrow> TradeData list \<Rightarrow> nat" where
  "lower_bound t ts = length (takeWhile (\<lambda>x. created_at x < t) ts)"

definition covers :: "u64 \<Rightarrow> Query_engine \<Rightarrow> bool" where
  "covers t e \<longleftrightarrow> readable e \<and> length (records e) \<le> unat (trades_size e)
     \<and> (unat (trades_size e) = length (records e)
        \<or> lower_bound t (records e) + unat (trades_size e) < 2 * length (records e))"

lemma sized_covers: "sized e \<Longrightarrow> covers t e"
  by (simp add: sized_def covers_def)

lemma lower_bound_le [simp]: "lower_bound t ts \<le> length ts"
  by (simp add: lower_bound_def length_takeWhile_le)

lemma lower_bound_iff:
  assumes "time_sorted ts" and "i < length ts"
  shows "i < lower_bound t ts \<longleftrightarrow> created_at (ts ! i) < t"
proof
  assume "i < lower_bound t ts"
  then show "created_at (ts ! i) < t"
    unfolding lower_bound_def by (metis nth_mem set_takeWhileD takeWhile_nth)
next
  assume lt: "created_at (ts ! i) < t"
  show "i < lower_bound t ts"
  proof (rule ccontr)
    assume "\<not> i < lower_bound t ts"
    then have le: "lower_bound t ts \<le> i" by simp
    then have "lower_bound t ts < length ts" using assms(2) by simp
    then have "\<not> created_at (ts ! lower_bound t ts) < t"
      unfolding lower_bound_def by (rule nth_length_takeWhile)
    moreover have "created_at (ts ! lower_bound t ts) \<le> created_at (ts ! i)"
      using assms le sorted_nth_mono[of "map created_at ts" "lower_bound t ts" i]
      by (simp add: time_sorted_def)
    ultimately show False using lt by simp
  qed
qed

lemma lower_bound_mono: "s \<le> t \<Longrightarrow> lower_bound s ts \<le> lower_bound t ts"
  unfolding lower_bound_def by (induction ts) auto

lemma covers_mono: "covers t e \<Longrightarrow> s \<le> t \<Longrightarrow> covers s e"
  using lower_bound_mono[of s t "records e"] by (auto simp: covers_def)

text \<open>
  The interface the searches and scans rely on: a reader that returns record \<open>i\<close> inside the
  store and fails beyond it (up to the index where the offset computation wraps).
\<close>

locale trade_store =
  fixes read :: "'e \<Rightarrow> u64 \<Rightarrow> TradeData result"
    and recs :: "'e \<Rightarrow> TradeData list"
    and invar :: "'e \<Rightarrow> bool"
  assumes read_in: "invar e \<Longrightarrow> unat i < length (recs e) \<Longrightarrow> read e i = Inr (recs e ! unat i)"
    and read_out: "invar e \<Longrightarrow> length (recs e) \<le> unat i \<Longrightarrow> unat i < 2 ^ 58 \<Longrightarrow>
      read e i = Inl (Read_failed i)"
begin

lemma read_cases:
  assumes "invar e" and "unat i < 2 ^ 58"
  obtains "unat i < length (recs e)" "read e i = Inr (recs e ! unat i)"
  | "length (recs e) \<le> unat i" "read e i = Inl (Read_failed i)"
  using assms read_in read_out by (meson linorder_not_less)

text \<open>
  The boundary a search returns, for any file (sorted or not): the record before it is
  earlier than \<open>t\<close>, the record at it is not.
\<close>

lemma search_boundary:
  assumes "search_loop (read e) t l r = Inr (a, b)"
    and "invar e" and "l \<le> r" and "unat r \<le> 2 ^ 58"
  shows "a = b \<and> l \<le> a \<and> a \<le> r
    \<and> (l < a \<longrightarrow> unat a \<le> length (recs e) \<and> created_at (recs e ! (unat a - 1)) < t)
    \<and> (a < r \<longrightarrow> unat a < length (recs e) \<and> t \<le> created_at (recs e ! unat a))"
  using assms
proof (induction "read e" t l r rule: search_loop.induct)
  case (1 t l r)
  show ?case
  proof (cases "l < r")
    case False
    with "1.prems" show ?thesis by (simp add: search_loop_done)
  next
    case True
    define mid where "mid = l + drop_bit 1 (r - l)"
    have m: "unat mid = unat l + (unat r - unat l) div 2"
      unfolding mid_def by (rule unat_midpoint[OF True])
    have lr: "unat l < unat r" using True by (simp add: word_less_nat_alt)
    have mr: "unat mid < unat r" "unat l \<le> unat mid" using m lr by arith+
    have m1: "unat (mid + 1) = Suc (unat mid)"
      using mr by (intro unat_Suc_below[of mid r]) (simp add: word_less_nat_alt)
    note order = word_less_nat_alt word_le_nat_alt
    have "unat mid < 2 ^ 58" using mr "1.prems"(4) by linarith
    with "1.prems"(2) show ?thesis
    proof (cases rule: read_cases)
      case 2
      with "1.prems"(1) True show ?thesis
        by (simp add: search_loop_step[OF True mid_def])
    next
      case inr: 1
      show ?thesis
      proof (cases "created_at (recs e ! unat mid) < t")
        case lt: True
        have s: "search_loop (read e) t (mid + 1) r = Inr (a, b)"
          using "1.prems"(1) True inr lt
          by (simp add: search_loop_step[OF True mid_def])
        have "mid + 1 \<le> r" using mr m1 by (simp add: order)
        from "1.hyps"(1)[OF True mid_def lt s "1.prems"(2) this "1.prems"(4)]
        have ih: "a = b \<and> mid + 1 \<le> a \<and> a \<le> r
          \<and> (mid + 1 < a \<longrightarrow> unat a \<le> length (recs e) \<and> created_at (recs e ! (unat a - 1)) < t)
          \<and> (a < r \<longrightarrow> unat a < length (recs e) \<and> t \<le> created_at (recs e ! unat a))" .
        have "unat a \<le> length (recs e) \<and> created_at (recs e ! (unat a - 1)) < t"
        proof (cases "mid + 1 = a")
          case True
          then have "unat a = Suc (unat mid)" using m1 by simp
          then show ?thesis using inr lt by simp
        next
          case False
          then show ?thesis using ih by auto
        qed
        moreover have "l \<le> mid + 1" using mr m1 by (simp add: order)
        then have "l \<le> a" using ih by (meson order_trans)
        ultimately show ?thesis using ih by blast
      next
        case ge: False
        have s: "search_loop (read e) t l mid = Inr (a, b)"
          using "1.prems"(1) True inr ge
          by (simp add: search_loop_step[OF True mid_def])
        have lm: "l \<le> mid" and m58: "unat mid \<le> 2 ^ 58"
          using mr "1.prems"(4) by (simp_all add: order)
        from "1.hyps"(2)[OF True mid_def ge s "1.prems"(2) lm m58]
        have ih: "a = b \<and> l \<le> a \<and> a \<le> mid
          \<and> (l < a \<longrightarrow> unat a \<le> length (recs e) \<and> created_at (recs e ! (unat a - 1)) < t)
          \<and> (a < mid \<longrightarrow> unat a < length (recs e) \<and> t \<le> created_at (recs e ! unat a))" .
        have "mid \<le> r" using mr by (simp add: order)
        then have "a \<le> r" using ih by (meson order_trans)
        moreover have "unat a < length (recs e) \<and> t \<le> created_at (recs e ! unat a)"
          using ih inr(1) ge by (cases "a = mid") auto
        ultimately show ?thesis using ih by blast
      qed
    qed
  qed
qed

lemma search_returns:
  assumes "invar e" and "l \<le> r" and "unat r \<le> length (recs e)" and "unat r \<le> 2 ^ 58"
  shows "\<exists>a. search_loop (read e) t l r = Inr (a, a)"
  using assms
proof (induction "read e" t l r rule: search_loop.induct)
  case (1 t l r)
  show ?case
  proof (cases "l < r")
    case False
    with "1.prems"(2) have "l = r" by simp
    then show ?thesis by (simp add: search_loop_done)
  next
    case True
    define mid where "mid = l + drop_bit 1 (r - l)"
    have m: "unat mid = unat l + (unat r - unat l) div 2"
      unfolding mid_def by (rule unat_midpoint[OF True])
    have lr: "unat l < unat r" using True by (simp add: word_less_nat_alt)
    have mr: "unat mid < unat r" "unat l \<le> unat mid" using m lr by arith+
    have m1: "unat (mid + 1) = Suc (unat mid)"
      using mr by (intro unat_Suc_below[of mid r]) (simp add: word_less_nat_alt)
    note order = word_less_nat_alt word_le_nat_alt
    have rd: "read e mid = Inr (recs e ! unat mid)"
      using "1.prems" mr by (intro read_in) auto
    show ?thesis
    proof (cases "created_at (recs e ! unat mid) < t")
      case lt: True
      have "mid + 1 \<le> r" using mr m1 by (simp add: order)
      from "1.hyps"(1)[OF True mid_def lt "1.prems"(1) this "1.prems"(3,4)]
      show ?thesis using True lt rd
        by (simp add: search_loop_step[OF True mid_def])
    next
      case ge: False
      have "l \<le> mid" "unat mid \<le> length (recs e)" "unat mid \<le> 2 ^ 58"
        using mr "1.prems"(3,4) by (simp_all add: order)
      from "1.hyps"(2)[OF True mid_def ge "1.prems"(1) this]
      show ?thesis using True ge rd
        by (simp add: search_loop_step[OF True mid_def])
    qed
  qed
qed

end

section \<open>The engine is such a store\<close>

lemma sizeof_word: "(of_nat sizeof_TradeData :: u64) = 32"
  by simp

lemma unat_offset: "unat (ind :: u64) < 2 ^ 58 \<Longrightarrow> unat (ind * 32) = unat ind * 32"
  by (simp add: unat_word_ariths)

lemma sint_offset:
  assumes "unat (ind :: u64) < 2 ^ 58"
  shows "\<not> sint (ind * 32) < 0"
proof -
  have "unat (ind * 32) < 2 ^ 63" using assms unat_offset[OF assms] by simp
  then have "int (unat (ind * 32)) < int (2 ^ 63)" by (simp only: of_nat_less_iff)
  then have "uint (ind * 32) < 2 ^ 63" by simp
  then have "\<not> bit (uint (ind * 32)) 63" by (simp add: bit_iff_odd)
  then show ?thesis by (simp add: sint_uint not_less)
qed

lemma read_trade_data_eq:
  assumes "readable e" and "unat ind < 2 ^ 58"
  shows "read_trade_data e ind =
    (if unat ind < length (records e) then Inr (records e ! unat ind)
     else Inl (Read_failed ind))"
proof -
  obtain bs where bs: "data e = Some bs" using assms(1) by (cases "data e") (auto simp: readable_def)
  have "length bs < unat ind * 32 + 32 \<longleftrightarrow> \<not> unat ind < length bs div 32" by arith
  then show ?thesis
    using bs assms(2) sint_offset[OF assms(2)]
    by (simp add: read_trade_data_def records_def Let_def unat_offset trades_of_nth)
qed

interpretation engine: trade_store read_trade_data records readable
  by unfold_locales (simp_all add: read_trade_data_eq readable_def records_def split: option.splits)

end
