(* ===== verification/Window.thy ===== *)
theory Window
  imports Query_Engine
begin

text \<open>
  What the two binary searches select. The abstract window of a query interval is the list of
  records with \<open>start_t \<le> created_at < end_t\<close>; \<open>window_read\<close> is what the code scans, which
  agrees with the window whenever the window holds a record and differs from it at the two
  ends of the file.
\<close>

section \<open>Specification of the scanned records\<close>

definition in_window :: "u64 \<Rightarrow> u64 \<Rightarrow> TradeData list \<Rightarrow> TradeData list" where
  "in_window s t ts = filter (\<lambda>x. s \<le> created_at x \<and> created_at x < t) ts"

definition window_read :: "u64 \<Rightarrow> u64 \<Rightarrow> TradeData list \<Rightarrow> TradeData list" where
  "window_read s t ts =
     (if in_window s t ts \<noteq> [] then in_window s t ts
      else if t \<le> created_at (hd ts) then [hd ts]
      else if created_at (last ts) < s then [last ts]
      else [])"

definition scanned :: "TradeData list \<Rightarrow> u64 \<Rightarrow> u64 \<Rightarrow> TradeData list" where
  "scanned ts i j = map ((!) ts) [unat i..<Suc (unat j)]"

lemma filter_upt_interval: "b \<le> n \<Longrightarrow> filter (\<lambda>i. a \<le> i \<and> i < b) [0..<n] = [a..<b]"
  by (rule sorted_distinct_set_unique) (auto simp: sorted_wrt_filter)

lemma filter_by_index: "filter P xs = map ((!) xs) (filter (\<lambda>i. P (xs ! i)) [0..<length xs])"
proof -
  have "filter P (map ((!) xs) [0..<length xs]) = map ((!) xs) (filter (P \<circ> (!) xs) [0..<length xs])"
    by (rule filter_map)
  then show ?thesis by (simp add: map_nth comp_def)
qed

lemma in_window_slice:
  assumes "time_sorted ts"
  shows "in_window s t ts = map ((!) ts) [lower_bound s ts..<lower_bound t ts]"
proof -
  have "filter (\<lambda>i. s \<le> created_at (ts ! i) \<and> created_at (ts ! i) < t) [0..<length ts]
      = filter (\<lambda>i. lower_bound s ts \<le> i \<and> i < lower_bound t ts) [0..<length ts]"
    using lower_bound_iff[OF assms] by (intro filter_cong) (auto simp: not_less[symmetric])
  then show ?thesis
    by (simp add: in_window_def filter_by_index[of _ ts] filter_upt_interval)
qed

lemma in_window_sorted: "time_sorted ts \<Longrightarrow> time_sorted (in_window s t ts)"
  unfolding time_sorted_def in_window_def by (rule sorted_filter)

lemma in_window_empty_iff: "in_window s t ts = [] \<longleftrightarrow>
    (\<forall>x \<in> set ts. \<not> (s \<le> created_at x \<and> created_at x < t))"
  by (simp add: in_window_def filter_empty_conv)

text \<open>
  What the code scans: the window, except that an interval that ends before the file begins (or at the
  time of its first record) selects the first record, and one that begins after its end the last.
\<close>

lemma window_read_cases:
  assumes "time_sorted ts" and "ts \<noteq> []"
  shows "window_read s t ts =
    (if t \<le> created_at (hd ts) then [hd ts]
     else if created_at (last ts) < s then [last ts]
     else in_window s t ts)"
proof -
  have "created_at (hd ts) \<le> created_at x" if "x \<in> set ts" for x
    using assms that by (cases ts) (auto simp: time_sorted_def)
  moreover have "created_at x \<le> created_at (last ts)" if "x \<in> set ts" for x
    using assms that by (cases ts rule: rev_cases) (auto simp: time_sorted_def sorted_append)
  ultimately have "in_window s t ts = []" if "t \<le> created_at (hd ts) \<or> created_at (last ts) < s"
    using that by (fastforce simp: in_window_empty_iff)
  then show ?thesis by (auto simp: window_read_def)
qed

lemma window_read_slice:
  assumes so: "time_sorted ts" and ne: "ts \<noteq> []" and st: "s \<le> t"
    and a: "a = min (length ts - 1) (lower_bound s ts)"
    and b: "b = max a (lower_bound t ts)"
  shows "map ((!) ts) [a..<Suc (b - 1)] = window_read s t ts"
proof -
  have n: "0 < length ts" using ne by simp
  have le: "lower_bound s ts \<le> lower_bound t ts" using st by (rule lower_bound_mono)
  have ht: "t \<le> created_at (hd ts) \<longleftrightarrow> lower_bound t ts = 0"
    using lower_bound_iff[OF so n, of t] by (auto simp: hd_conv_nth[OF ne])
  have "length ts - 1 < lower_bound s ts \<longleftrightarrow> lower_bound s ts = length ts"
    using n lower_bound_le[of s ts] by linarith
  then have la: "created_at (last ts) < s \<longleftrightarrow> lower_bound s ts = length ts"
    using lower_bound_iff[OF so, of "length ts - 1" s] n by (simp add: last_conv_nth[OF ne])
  have ln: "lower_bound t ts \<le> length ts" by simp
  consider "lower_bound s ts < lower_bound t ts"
    | "lower_bound t ts = lower_bound s ts" "lower_bound s ts = length ts"
    | "lower_bound t ts = lower_bound s ts" "lower_bound s ts = 0"
    | "lower_bound t ts = lower_bound s ts" "0 < lower_bound s ts" "lower_bound s ts < length ts"
    using le ln by linarith
  then show ?thesis
  proof cases
    case 1
    then have "a = lower_bound s ts" "Suc (b - 1) = lower_bound t ts"
      unfolding a b using ln by linarith+
    then show ?thesis using 1 by (simp add: window_read_def in_window_slice[OF so])
  next
    case 2
    then have "[a..<Suc (b - 1)] = [length ts - 1]"
      using n upt_conv_Cons[of "length ts - 1" "length ts"] by (simp add: a b)
    then show ?thesis using 2 n ht la
      by (simp add: window_read_def in_window_slice[OF so] last_conv_nth[OF ne])
  next
    case 3
    then have "[a..<Suc (b - 1)] = [0]" by (simp add: a b)
    then show ?thesis using 3 ht
      by (simp add: window_read_def in_window_slice[OF so] hd_conv_nth[OF ne])
  next
    case 4
    then have "[a..<Suc (b - 1)] = []" by (simp add: a b)
    then show ?thesis using 4 ht la by (simp add: window_read_def in_window_slice[OF so])
  qed
qed

section \<open>The searches select it\<close>

context trade_store
begin

lemma search_sorted:
  assumes "search_loop (read e) t l r = Inr (a, b)" and "time_sorted (recs e)"
    and "invar e" and "l \<le> r" and "unat r \<le> 2 ^ 58"
  shows "a = b" and "unat a = max (unat l) (min (unat r) (lower_bound t (recs e)))"
proof -
  from search_boundary[OF assms(1,3,4,5)]
  have ab: "a = b" and la: "unat l \<le> unat a" and ar: "unat a \<le> unat r"
    and lo: "unat l < unat a \<Longrightarrow> unat a \<le> length (recs e) \<and> created_at (recs e ! (unat a - 1)) < t"
    and hi: "unat a < unat r \<Longrightarrow> unat a < length (recs e) \<and> t \<le> created_at (recs e ! unat a)"
    by (auto simp: word_less_nat_alt word_le_nat_alt)
  have "unat a \<le> lower_bound t (recs e)" if "unat l < unat a"
  proof -
    have "unat a - 1 < lower_bound t (recs e)"
      using lo[OF that] that by (subst lower_bound_iff[OF assms(2)]) auto
    then show ?thesis by simp
  qed
  moreover have "lower_bound t (recs e) \<le> unat a" if "unat a < unat r"
  proof -
    have "\<not> unat a < lower_bound t (recs e)"
      using hi[OF that] that by (subst lower_bound_iff[OF assms(2)]) auto
    then show ?thesis by simp
  qed
  ultimately show "unat a = max (unat l) (min (unat r) (lower_bound t (recs e)))"
    using la ar by linarith
  show "a = b" by (rule ab)
qed

text \<open>
  A search whose right end may lie beyond the records still returns when the answer and the
  left end are at most \<open>m\<close> with \<open>m + r < 2 n\<close>: every probe is at most \<open>(m + r) div 2 < n\<close>.
\<close>

lemma search_returns_within:
  assumes "time_sorted (recs e)" and "invar e" and "l \<le> r" and "unat r \<le> 2 ^ 58"
    and "unat r \<le> length (recs e) \<or>
      unat l \<le> m \<and> lower_bound t (recs e) \<le> m \<and> m + unat r < 2 * length (recs e)"
  shows "\<exists>a. search_loop (read e) t l r = Inr (a, a)"
  using assms
proof (induction "read e" t l r rule: search_loop.induct)
  case (1 t l r)
  show ?case
  proof (cases "unat r \<le> length (recs e)")
    case True
    with "1.prems" show ?thesis by (intro search_returns) auto
  next
    case beyond: False
    then have lm: "unat l \<le> m" "lower_bound t (recs e) \<le> m" "m + unat r < 2 * length (recs e)"
      using "1.prems"(5) by blast+
    show ?thesis
    proof (cases "l < r")
      case False
      with "1.prems"(3) have "l = r" by simp
      then show ?thesis by (simp add: search_loop_done)
    next
      case True
      define mid where "mid = l + drop_bit 1 (r - l)"
      have m: "unat mid = unat l + (unat r - unat l) div 2"
        unfolding mid_def by (rule unat_midpoint[OF True])
      have lr: "unat l < unat r" using True by (simp add: word_less_nat_alt)
      have mr: "unat mid < unat r" "unat l \<le> unat mid" using m lr by arith+
      have mn: "unat mid < length (recs e)" using m lm lr by linarith
      have m1: "unat (mid + 1) = Suc (unat mid)"
        using mr by (intro unat_Suc_below[of mid r]) (simp add: word_less_nat_alt)
      note order = word_less_nat_alt word_le_nat_alt
      have rd: "read e mid = Inr (recs e ! unat mid)" using "1.prems"(2) mn by (rule read_in)
      show ?thesis
      proof (cases "created_at (recs e ! unat mid) < t")
        case lt: True
        then have "unat mid < lower_bound t (recs e)"
          using lower_bound_iff[OF "1.prems"(1) mn] by blast
        then have "unat (mid + 1) \<le> m" using m1 lm(2) by simp
        moreover have "mid + 1 \<le> r" using mr m1 by (simp add: order)
        ultimately show ?thesis
          using "1.hyps"(1)[OF True mid_def lt "1.prems"(1,2)] "1.prems"(4) lm True lt rd
          by (simp add: search_loop_step[OF True mid_def])
      next
        case ge: False
        have "l \<le> mid" "unat mid \<le> 2 ^ 58" using mr "1.prems"(4) by (simp_all add: order)
        with "1.hyps"(2)[OF True mid_def ge "1.prems"(1,2)] mn True ge rd show ?thesis
          by (simp add: search_loop_step[OF True mid_def])
      qed
    qed
  qed
qed

lemma search_sorted_returns:
  assumes "time_sorted (recs e)" and "invar e" and "l \<le> r" and "unat r \<le> 2 ^ 58"
    and "unat r \<le> length (recs e) \<or>
      unat l \<le> m \<and> lower_bound t (recs e) \<le> m \<and> m + unat r < 2 * length (recs e)"
  obtains a where "search_loop (read e) t l r = Inr (a, a)"
    and "unat a = max (unat l) (min (unat r) (lower_bound t (recs e)))"
  using search_returns_within[OF assms] search_sorted[OF _ assms(1-4)] by metis

end

lemma readable_length: "readable e \<Longrightarrow> length (records e) < 2 ^ 57"
  by (auto simp: readable_def records_def split: option.splits)

lemma sized_bounds:
  assumes "sized e"
  shows "readable e" and "unat (trades_size e) = length (records e)"
    and "length (records e) < 2 ^ 58"
  using assms readable_length[of e] by (simp_all add: sized_def)

lemma covers_readable: "covers t e \<Longrightarrow> readable e"
  by (simp add: covers_def)

lemma search_window_correct:
  assumes cov: "covers t e" and so: "time_sorted (records e)" and ne: "records e \<noteq> []"
    and st: "s \<le> t"
  obtains i j where "search_window e s t = Inr (i, j)" and "j \<noteq> - 1"
    and "unat j < length (records e)" and "scanned (records e) i j = window_read s t (records e)"
proof -
  let ?ts = "records e" and ?N = "trades_size e"
  let ?n = "length ?ts" and ?m = "lower_bound t ?ts"
  note rd = covers_readable[OF cov]
  have small: "?n < 2 ^ 57" by (rule readable_length[OF rd])
  have n0: "0 < ?n" using ne by simp
  have le: "lower_bound s ?ts \<le> ?m" using st by (rule lower_bound_mono)
  have size: "?n \<le> unat ?N" and safe: "unat ?N = ?n \<or> ?m + unat ?N < 2 * ?n"
    using cov by (simp_all add: covers_def)
  have N58: "unat ?N \<le> 2 ^ 58" using safe small by auto
  have "0 < unat ?N" using size n0 by linarith
  then have "1 \<le> ?N" by (simp add: word_le_nat_alt)
  then have n1: "unat (?N - 1) = unat ?N - 1" by (simp add: unat_sub)
  have "unat (?N - 1) \<le> 2 ^ 58" "unat (?N - 1) \<le> ?n \<or>
      unat (0::u64) \<le> ?m \<and> lower_bound s ?ts \<le> ?m \<and> ?m + unat (?N - 1) < 2 * ?n"
    using n1 N58 safe le by auto
  then obtain a where a: "search_loop (read_trade_data e) s 0 (?N - 1) = Inr (a, a)"
    and ua: "unat a = max (unat (0::u64)) (min (unat (?N - 1)) (lower_bound s ?ts))"
    using engine.search_sorted_returns[OF so rd, of 0 "?N - 1" ?m s] by auto
  have ua': "unat a = min (?n - 1) (lower_bound s ?ts)"
    using ua n1 safe le size lower_bound_le[of s ?ts] by (simp add: min_def) linarith
  have "a \<le> ?N" "unat ?N \<le> ?n \<or> unat a \<le> ?m \<and> ?m \<le> ?m \<and> ?m + unat ?N < 2 * ?n"
    using ua' size safe le by (auto simp: word_le_nat_alt)
  then obtain b where b: "search_loop (read_trade_data e) t a ?N = Inr (b, b)"
    and ub: "unat b = max (unat a) (min (unat ?N) ?m)"
    using engine.search_sorted_returns[OF so rd _ N58, of a ?m t] by auto
  have ub': "unat b = max (unat a) ?m"
    using ub size lower_bound_le[of t ?ts] by simp
  define j where "j = (if b = 0 then 0 else b - 1)"
  have uj: "unat j = unat b - 1"
  proof (cases "b = 0")
    case False
    then have "1 \<le> b" by (simp add: word_le_nat_alt unat_eq_0 Suc_le_eq word_neq_0_conv word_less_nat_alt)
    then show ?thesis using False by (simp add: j_def unat_sub)
  qed (simp add: j_def)
  have jn: "unat j < ?n"
    using uj ub' ua' lower_bound_le[of t ?ts] n0 by linarith
  have "search_window e s t = Inr (a, j)"
    by (simp add: search_window_def a b j_def Let_def)
  moreover have "j \<noteq> - 1"
  proof
    assume "j = - 1"
    then have "unat j = 2 ^ 64 - 1" by (simp only: unat_max_u64)
    then show False using jn small by simp
  qed
  moreover have "scanned ?ts a j = window_read s t ?ts"
    unfolding scanned_def uj using ua' ub' by (intro window_read_slice[OF so ne st]) auto
  ultimately show ?thesis using that jn by blast
qed

section \<open>A data file given by its records\<close>

definition open_file :: "byte \<Rightarrow> TradeData list \<Rightarrow> Query_engine" where
  "open_file pad ts = new_Query_engine (Some (encode_trades pad ts)) 0"

lemma open_file_simps [simp]:
  "data (open_file pad ts) = Some (encode_trades pad ts)"
  "records (open_file pad ts) = ts"
  by (simp_all add: open_file_def new_Query_engine_def records_def)

lemma readable_open_file: "length ts < 2 ^ 57 \<Longrightarrow> readable (open_file pad ts)"
  by (simp add: readable_def)

lemma div_31: "(n * 32) div 31 = n + n div (31::nat)"
proof -
  have "n * 32 = n + n * 31" by simp
  then show ?thesis by (simp only: div_mult_self1)
qed

lemma trades_size_open_file:
  assumes "length ts < 2 ^ 57"
  shows "unat (trades_size (open_file pad ts)) = length ts + length ts div 31"
proof -
  have "length ts + length ts div 31 < 2 ^ 64" using assms by simp
  from unat_of_nat_u64[OF this] show ?thesis
    by (simp add: open_file_def new_Query_engine_def div_31)
qed

lemma sized_open_file: "length ts < 31 \<Longrightarrow> sized (open_file pad ts)"
  using trades_size_open_file[of ts pad] readable_open_file[of ts pad] by (simp add: sized_def)

text \<open>
  Whatever the size of the file, the searches are safe for every query that ends before the last
  \<open>n div 31\<close> records.
\<close>

lemma covers_open_file:
  assumes "length ts < 2 ^ 57" and "lower_bound t ts + length ts div 31 < length ts"
  shows "covers t (open_file pad ts)"
  using trades_size_open_file[OF assms(1), of pad] readable_open_file[OF assms(1), of pad] assms(2)
  by (simp add: covers_def)

text \<open>A small file, used where a property is applied at a concrete input.\<close>

definition sample_trades :: "TradeData list" where
  "sample_trades =
    [\<lparr>symbol_id = 1, created_at = 10, trade_id = 1, trade_price = \<lparr>price = 100, price_exponent = 0\<rparr>,
      trade_quantity = \<lparr>quantity = 2, quantity_exponent = 0\<rparr>, taker_side = 1\<rparr>,
     \<lparr>symbol_id = 1, created_at = 20, trade_id = 2, trade_price = \<lparr>price = 250, price_exponent = 0\<rparr>,
      trade_quantity = \<lparr>quantity = 3, quantity_exponent = 0\<rparr>, taker_side = 2\<rparr>,
     \<lparr>symbol_id = 1, created_at = 30, trade_id = 3, trade_price = \<lparr>price = 175, price_exponent = 0\<rparr>,
      trade_quantity = \<lparr>quantity = 5, quantity_exponent = 0\<rparr>, taker_side = 1\<rparr>]"

lemma sample_sized: "sized (open_file 0 sample_trades)"
  by (rule sized_open_file) (simp add: sample_trades_def)

lemma sample_covers: "covers t (open_file 0 sample_trades)"
  by (rule sized_covers[OF sample_sized])

lemma sample_sorted: "time_sorted sample_trades"
  by (simp add: sample_trades_def time_sorted_def)

end
