(* ===== verification/Float64.thy ===== *)
theory Float64
  imports Prelude "HOL-Library.Log_Nat"
begin

text \<open>
  The C++ type \<open>double\<close> (IEEE 754 binary64) as the code uses it. Every value the code computes
  in \<open>double\<close> is a sum, product or quotient of nonnegative numbers, so a double is a
  nonnegative rational number and an operation is the exact operation followed by \<open>rnd\<close>,
  rounding to nearest with ties to even: 53 significant bits, subnormals below \<open>2^-1022\<close>.
  \<open>rnd\<close> has no upper limit on the exponent; the magnitudes the code can reach are far below
  the binary64 maximum of about \<open>2^1024\<close> (\<open>rnd_below_pow2\<close> here and the bounds of
  the theory on the metrics), so no infinity and no NaN ever arises.

  \<open>std::pow(10.0, e)\<close> is the power of ten rounded to nearest. It is exact for \<open>0 \<le> e \<le> 22\<close>;
  the standard leaves the last bit to the implementation outside this range.
\<close>

lemma numeral_less_of_nat_iff: "(numeral k :: rat) < of_nat n \<longleftrightarrow> numeral k < n"
  by (metis of_nat_less_iff of_nat_numeral)

section \<open>Rounding to an integer\<close>

definition round_half_even :: "rat \<Rightarrow> int" where
  "round_half_even y =
     (let f = \<lfloor>y\<rfloor>; r = y - of_int f
      in if r < 1/2 then f else if r > 1/2 then f + 1 else if even f then f else f + 1)"

lemma round_half_even_of_int [simp]: "round_half_even (of_int k) = k"
  by (simp add: round_half_even_def)

lemma round_half_even_error: "\<bar>of_int (round_half_even y) - y\<bar> \<le> 1/2"
proof -
  have "of_int \<lfloor>y\<rfloor> \<le> y" "y < of_int \<lfloor>y\<rfloor> + 1" by linarith+
  then show ?thesis by (simp add: round_half_even_def Let_def abs_le_iff)
qed

lemma round_half_even_floor: "\<lfloor>y\<rfloor> \<le> round_half_even y \<and> round_half_even y \<le> \<lfloor>y\<rfloor> + 1"
  by (simp add: round_half_even_def Let_def)

lemma round_half_even_mono:
  assumes "y \<le> z"
  shows "round_half_even y \<le> round_half_even z"
proof (cases "\<lfloor>y\<rfloor> = \<lfloor>z\<rfloor>")
  case True
  with assms show ?thesis by (simp add: round_half_even_def Let_def)
next
  case False
  with assms have "\<lfloor>y\<rfloor> + 1 \<le> \<lfloor>z\<rfloor>" using floor_mono[OF assms] by linarith
  then show ?thesis using round_half_even_floor[of y] round_half_even_floor[of z] by linarith
qed

lemma round_half_even_le: "y \<le> of_int k \<Longrightarrow> round_half_even y \<le> k"
  using round_half_even_mono[of y "of_int k"] by simp

lemma round_half_even_ge: "of_int k \<le> y \<Longrightarrow> k \<le> round_half_even y"
  using round_half_even_mono[of "of_int k" y] by simp

section \<open>The binary exponent\<close>

definition flog2 :: "rat \<Rightarrow> int" where
  "flog2 x = (case quotient_of x of (n, d) \<Rightarrow>
     let e = int (floorlog 2 (nat n)) - int (floorlog 2 (nat d))
     in if 2 powi e \<le> x then e else e - 1)"

lemma floorlog_powi:
  assumes "0 < k"
  shows "2 powi (int (floorlog 2 (nat k)) - 1) \<le> (of_int k :: rat)"
    and "(of_int k :: rat) < 2 powi int (floorlog 2 (nat k))"
proof -
  have b: "2 ^ (floorlog 2 (nat k) - 1) \<le> nat k \<and> nat k < 2 ^ floorlog 2 (nat k)"
    using assms by (intro floorlog_bounds) auto
  have p: "0 < floorlog 2 (nat k)" using assms by (simp add: floorlog_def)
  have "(of_nat (2 ^ (floorlog 2 (nat k) - 1)) :: rat) \<le> of_nat (nat k)"
    using b of_nat_le_iff by blast
  moreover have "int (floorlog 2 (nat k)) - 1 = int (floorlog 2 (nat k) - 1)" using p by simp
  ultimately show "2 powi (int (floorlog 2 (nat k)) - 1) \<le> (of_int k :: rat)"
    using assms by (simp only: power_int_of_nat) simp
  have "(of_nat (nat k) :: rat) < of_nat (2 ^ floorlog 2 (nat k))"
    using b of_nat_less_iff by blast
  then show "(of_int k :: rat) < 2 powi int (floorlog 2 (nat k))"
    using assms by simp
qed

lemma flog2_bounds:
  assumes "0 < x"
  shows "2 powi flog2 x \<le> x" and "x < 2 powi (flog2 x + 1)"
proof -
  obtain n d where q: "quotient_of x = (n, d)" by (cases "quotient_of x")
  have d: "0 < d" using q by (rule quotient_of_denom_pos)
  have x: "x = of_int n / of_int d" using q by (rule quotient_of_div)
  have n: "0 < n" using assms d by (simp add: x zero_less_divide_iff)
  let ?fn = "int (floorlog 2 (nat n))" and ?fd = "int (floorlog 2 (nat d))"
  note bn = floorlog_powi[OF n] and bd = floorlog_powi[OF d]
  have up: "x < 2 powi (?fn - ?fd + 1)"
  proof -
    have "x < 2 powi ?fn / 2 powi (?fd - 1)"
      unfolding x using bn bd n d by (intro frac_less) auto
    also have "\<dots> = 2 powi (?fn - (?fd - 1))" by (simp add: power_int_diff)
    finally show ?thesis by (simp add: algebra_simps)
  qed
  have lo: "2 powi (?fn - ?fd - 1) \<le> x"
  proof -
    have "2 powi (?fn - 1 - ?fd) = (2 powi (?fn - 1) / 2 powi ?fd :: rat)"
      by (simp add: power_int_diff)
    also have "\<dots> \<le> x"
      unfolding x using bn bd n d by (intro frac_le) auto
    finally show ?thesis by (simp add: algebra_simps)
  qed
  show "2 powi flog2 x \<le> x" using lo by (simp add: flog2_def q Let_def)
  show "x < 2 powi (flog2 x + 1)" using up by (simp add: flog2_def q Let_def)
qed

lemma powi2_less_iff [simp]: "(2 powi a < (2 powi b :: rat)) \<longleftrightarrow> a < b"
  by (meson linorder_not_less one_less_numeral_iff power_int_increasing
      power_int_strict_increasing rat_number_expand(1) semiring_norm(76) order_less_imp_le)

lemma powi2_le_iff [simp]: "(2 powi a \<le> (2 powi b :: rat)) \<longleftrightarrow> a \<le> b"
  by (simp flip: not_less)

lemma flog2_ge_iff: "0 < x \<Longrightarrow> k \<le> flog2 x \<longleftrightarrow> 2 powi k \<le> x"
proof -
  assume x: "0 < x"
  have "2 powi k \<le> x" if "k \<le> flog2 x"
    using flog2_bounds(1)[OF x] that by (meson order_trans powi2_le_iff)
  moreover have "k \<le> flog2 x" if "2 powi k \<le> x"
  proof -
    have "(2 powi k :: rat) < 2 powi (flog2 x + 1)"
      using flog2_bounds(2)[OF x] that by (rule le_less_trans[rotated])
    then show ?thesis by simp
  qed
  ultimately show ?thesis by blast
qed

lemma flog2_mono: "0 < x \<Longrightarrow> x \<le> y \<Longrightarrow> flog2 x \<le> flog2 y"
  using flog2_bounds(1)[of x] by (subst flog2_ge_iff) auto

section \<open>Rounding to binary64\<close>

definition quantum :: "rat \<Rightarrow> int" where
  "quantum x = max (flog2 x - 52) (- 1074)"

definition rnd :: "rat \<Rightarrow> rat" where
  "rnd x = (if x \<le> 0 then 0
     else of_int (round_half_even (x / 2 powi quantum x)) * 2 powi quantum x)"

lemma powi2_split: "k \<le> e \<Longrightarrow> (2 powi e :: rat) = of_int (2 ^ nat (e - k)) * 2 powi k"
proof -
  assume "k \<le> e"
  then obtain n where e: "e = int n + k" using zle_iff_zadd by (auto simp: add.commute)
  then have "(2 powi e :: rat) = 2 ^ n * 2 powi k" by (simp add: power_int_add)
  then show ?thesis using e by simp
qed

lemma rnd_zero [simp]: "rnd 0 = 0"
  by (simp add: rnd_def)

lemma rnd_le_multiple:
  assumes "0 < x" and "x \<le> of_int k * 2 powi quantum x"
  shows "rnd x \<le> of_int k * 2 powi quantum x"
proof -
  have "x / 2 powi quantum x \<le> of_int k" using assms(2) by (simp add: divide_le_eq)
  then have "round_half_even (x / 2 powi quantum x) \<le> k" by (rule round_half_even_le)
  then show ?thesis using assms(1) by (simp add: rnd_def)
qed

lemma rnd_ge_multiple:
  assumes "0 < x" and "of_int k * 2 powi quantum x \<le> x"
  shows "of_int k * 2 powi quantum x \<le> rnd x"
proof -
  have "of_int k \<le> x / 2 powi quantum x" using assms(2) by (simp add: le_divide_eq)
  then have "k \<le> round_half_even (x / 2 powi quantum x)" by (rule round_half_even_ge)
  then show ?thesis using assms(1) by (simp add: rnd_def)
qed

lemma rnd_le_powi: "quantum x \<le> e \<Longrightarrow> 0 < x \<Longrightarrow> x \<le> 2 powi e \<Longrightarrow> rnd x \<le> 2 powi e"
  using rnd_le_multiple[of x "2 ^ nat (e - quantum x)"] powi2_split[of "quantum x" e] by simp

lemma rnd_ge_powi: "quantum x \<le> e \<Longrightarrow> 0 < x \<Longrightarrow> 2 powi e \<le> x \<Longrightarrow> 2 powi e \<le> rnd x"
  using rnd_ge_multiple[of x "2 ^ nat (e - quantum x)"] powi2_split[of "quantum x" e] by simp

lemma rnd_nonneg [simp]: "0 \<le> rnd x"
  using rnd_ge_multiple[of x 0] by (cases "0 < x") (auto simp: rnd_def)

lemma rnd_mono:
  assumes "x \<le> y"
  shows "rnd x \<le> rnd y"
proof (cases "0 < x")
  case False
  then show ?thesis by (simp add: rnd_def[of x])
next
  case True
  with assms have y: "0 < y" by simp
  have fl: "flog2 x \<le> flog2 y" using True assms by (rule flog2_mono)
  then have "quantum x = quantum y \<or>
      flog2 x < flog2 y \<and> quantum y \<le> flog2 y \<and> quantum x \<le> flog2 y"
    unfolding quantum_def by linarith
  then consider "quantum x = quantum y" | "flog2 x < flog2 y" "quantum y \<le> flog2 y"
      "quantum x \<le> flog2 y"
    by blast
  then show ?thesis
  proof cases
    case 1
    have "x / 2 powi quantum y \<le> y / 2 powi quantum y"
      using assms by (intro divide_right_mono) auto
    then show ?thesis using True y 1 by (simp add: rnd_def round_half_even_mono)
  next
    case 2
    have "x \<le> 2 powi (flog2 x + 1)" using flog2_bounds(2)[OF True] by simp
    also have "\<dots> \<le> 2 powi flog2 y" using 2(1) by simp
    finally have "rnd x \<le> 2 powi flog2 y" using 2(3) True by (intro rnd_le_powi)
    also have "\<dots> \<le> rnd y" using 2(2) y flog2_bounds(1)[OF y] by (intro rnd_ge_powi)
    finally show ?thesis .
  qed
qed

text \<open>A number with at most 53 significant bits is a double: rounding keeps it.\<close>

lemma rnd_exact:
  assumes "0 \<le> m" and "m < 2 ^ 53" and "- 1074 \<le> k"
  shows "rnd (of_int m * 2 powi k) = of_int m * 2 powi k"
proof (cases "m = 0")
  case True
  then show ?thesis by simp
next
  case False
  let ?x = "of_int m * 2 powi k :: rat"
  have x: "0 < ?x" using False assms(1) by simp
  have "(of_int m :: rat) < of_int (2 ^ 53)" using assms(2) by (simp only: of_int_less_iff)
  then have "?x < 2 ^ 53 * 2 powi k" by simp
  also have "\<dots> = 2 powi (53 + k)" by (simp add: power_int_add)
  finally have "\<not> 53 + k \<le> flog2 ?x" using flog2_ge_iff[OF x] by simp
  then have q: "quantum ?x \<le> k" using assms(3) by (simp add: quantum_def)
  define y where "y = ?x"
  define M where "M = m * 2 ^ nat (k - quantum y)"
  have e: "y = of_int M * 2 powi quantum y"
    using powi2_split[OF q] by (simp add: M_def y_def)
  have "0 < y" using x by (simp add: y_def)
  then have "rnd y \<le> of_int M * 2 powi quantum y" "of_int M * 2 powi quantum y \<le> rnd y"
    using rnd_le_multiple[of y M] rnd_ge_multiple[of y M] e by auto
  then have "rnd y = y" using e by simp
  then show ?thesis by (simp add: y_def)
qed

lemma rnd_of_nat [simp]: "n < 2 ^ 53 \<Longrightarrow> rnd (of_nat n) = of_nat n"
  using rnd_exact[of "int n" 0] by simp

lemma rnd_numeral: "numeral n < (2 ^ 53 :: nat) \<Longrightarrow> rnd (numeral n) = numeral n"
  using rnd_of_nat[of "numeral n"] by simp

lemma rnd_error:
  assumes "0 < x"
  shows "\<bar>rnd x - x\<bar> \<le> 2 powi (quantum x - 1)"
proof -
  let ?q = "2 powi quantum x :: rat"
  have "\<bar>of_int (round_half_even (x / ?q)) - x / ?q\<bar> * ?q \<le> 1/2 * ?q"
    by (intro mult_right_mono round_half_even_error) simp
  moreover have "\<bar>of_int (round_half_even (x / ?q)) - x / ?q\<bar> * ?q = \<bar>rnd x - x\<bar>"
    using assms by (simp add: rnd_def abs_mult_pos left_diff_distrib flip: abs_mult)
  moreover have "1/2 * ?q = 2 powi (quantum x - 1)" by (simp add: power_int_diff)
  ultimately show ?thesis by simp
qed

text \<open>In the normal range the relative error of one operation is at most \<open>2^-53\<close>.\<close>

lemma rnd_rel_error:
  assumes "2 powi (- 1022) \<le> x"
  shows "\<bar>rnd x - x\<bar> \<le> x / 2 ^ 53"
proof -
  have "(0::rat) < 2 powi (- 1022)" by simp
  then have x: "0 < x" using assms by (rule less_le_trans)
  have "- 1022 \<le> flog2 x" using assms flog2_ge_iff[OF x] by simp
  then have q: "quantum x = flog2 x - 52" by (simp add: quantum_def)
  have "\<bar>rnd x - x\<bar> \<le> 2 powi (flog2 x - 53)" using rnd_error[OF x] by (simp add: q)
  also have "\<dots> = 2 powi flog2 x / 2 ^ 53" by (simp add: power_int_diff)
  also have "\<dots> \<le> x / 2 ^ 53" using flog2_bounds(1)[OF x] by (intro divide_right_mono) auto
  finally show ?thesis .
qed

lemma rnd_rel_bounds:
  assumes "2 powi (- 1022) \<le> x"
  shows "x * (1 - 1 / 2 ^ 53) \<le> rnd x" and "rnd x \<le> x * (1 + 1 / 2 ^ 53)"
proof -
  define d where "d = x / 2 ^ 53"
  have eq: "x * (1 - 1 / 2 ^ 53) = x - d" "x * (1 + 1 / 2 ^ 53) = x + d"
    unfolding d_def by (simp_all only: right_diff_distrib distrib_left mult_1_right times_divide_eq_right)
  have "\<bar>rnd x - x\<bar> \<le> d" unfolding d_def by (rule rnd_rel_error[OF assms])
  then show "x * (1 - 1 / 2 ^ 53) \<le> rnd x" and "rnd x \<le> x * (1 + 1 / 2 ^ 53)"
    unfolding eq by linarith+
qed

lemma rnd_below_pow2: "x \<le> 2 powi e \<Longrightarrow> - 1074 \<le> e \<Longrightarrow> rnd x \<le> 2 powi e"
  using rnd_mono[of x "2 powi e"] rnd_exact[of 1 e] by simp

section \<open>The operations the code uses\<close>

definition fadd :: "rat \<Rightarrow> rat \<Rightarrow> rat" where
  "fadd x y = rnd (x + y)"

definition fmul :: "rat \<Rightarrow> rat \<Rightarrow> rat" where
  "fmul x y = rnd (x * y)"

definition fdiv :: "rat \<Rightarrow> rat \<Rightarrow> rat" where
  "fdiv x y = rnd (x / y)"

definition pow10 :: "int \<Rightarrow> rat" where
  "pow10 e = rnd (10 powi e)"

text \<open>The conversion of a \<open>uint32_t\<close> to \<open>double\<close> is exact.\<close>

definition float_of_u32 :: "u32 \<Rightarrow> rat" where
  "float_of_u32 w = rnd (of_nat (unat w))"

lemma float_of_u32_eq [simp]: "float_of_u32 w = of_nat (unat w)"
proof -
  have "unat w < 2 ^ 32" using unat_lt2p[of w] by simp
  also have "\<dots> < 2 ^ 53" by simp
  finally show ?thesis unfolding float_of_u32_def by (rule rnd_of_nat)
qed

lemma fops_nonneg [simp]: "0 \<le> fadd x y" "0 \<le> fmul x y" "0 \<le> fdiv x y" "0 \<le> pow10 e"
  by (simp_all add: fadd_def fmul_def fdiv_def pow10_def)

lemma pow10_exact: "0 \<le> e \<Longrightarrow> e \<le> 15 \<Longrightarrow> pow10 e = 10 ^ nat e"
proof -
  assume e: "0 \<le> e" "e \<le> 15"
  have "(10::int) ^ nat e \<le> 10 ^ 15" using e by (intro power_increasing) auto
  then have "(10::int) ^ nat e < 2 ^ 53" by simp
  then have "rnd (of_int (10 ^ nat e) * 2 powi 0) = of_int (10 ^ nat e) * 2 powi 0"
    by (intro rnd_exact) auto
  then show ?thesis using e by (simp add: pow10_def power_int_def)
qed

lemma pow10_0 [simp]: "pow10 0 = 1"
  using pow10_exact[of 0] by simp

lemma fadd_mono: "x \<le> x' \<Longrightarrow> y \<le> y' \<Longrightarrow> fadd x y \<le> fadd x' y'"
  unfolding fadd_def by (intro rnd_mono add_mono)

lemma fmul_mono: "x \<le> x' \<Longrightarrow> 0 \<le> x \<Longrightarrow> 0 \<le> y \<Longrightarrow> y \<le> y' \<Longrightarrow> fmul x y \<le> fmul x' y'"
  unfolding fmul_def by (intro rnd_mono mult_mono) auto

lemma fdiv_mono: "x \<le> x' \<Longrightarrow> 0 \<le> y \<Longrightarrow> fdiv x y \<le> fdiv x' y"
  unfolding fdiv_def by (intro rnd_mono divide_right_mono)

end
