(* ===== verification/Metrics.thy ===== *)
theory Metrics
  imports Window Float64
begin

text \<open>
  The three metrics of \<open>query_engine.cc\<close>: \<open>min_max_price_in_range\<close>,
  \<open>total_quantity_in_range\<close> and \<open>mean_price_in_range\<close>, each an \<open>assert\<close>, the two
  searches, a scan of the selected records in \<open>double\<close> arithmetic and, for the last two, the
  conversion of the \<open>double\<close> into a 32-bit mantissa with a decimal exponent.
\<close>

section \<open>The scan\<close>

text \<open>
  \<open>for (uint64_t i = i0; i <= end_idx; ++i)\<close> with the body \<open>body\<close> over its local variables:
  an increment that wraps would make the loop endless, so it is a partial function.
\<close>

partial_function (option) scan_loop ::
  "(u64 \<Rightarrow> TradeData result) \<Rightarrow> (TradeData \<Rightarrow> 'a \<Rightarrow> 'a) \<Rightarrow> u64 \<Rightarrow> u64 \<Rightarrow> 'a \<Rightarrow> 'a run" where
  "scan_loop rd body i end_idx acc =
     (if i \<le> end_idx then
        (case rd i of
           Inl err \<Rightarrow> Some (Inl err)
         | Inr trade \<Rightarrow> scan_loop rd body (i + 1) end_idx (body trade acc))
      else Some (Inr acc))"

text \<open>The value of a mantissa with a decimal exponent, as the code computes it.\<close>

definition price_value :: "Price \<Rightarrow> rat" where
  "price_value p = fmul (float_of_u32 (price p)) (pow10 (sint (price_exponent p)))"

definition quantity_value :: "Quantity \<Rightarrow> rat" where
  "quantity_value q = fmul (float_of_u32 (quantity q)) (pow10 (sint (quantity_exponent q)))"

section \<open>Minimum and maximum price\<close>

record minmax =
  first_trade :: bool
  min_val :: rat
  max_val :: rat
  min_p :: Price
  max_p :: Price

definition zero_Price :: Price where
  "zero_Price = \<lparr>price = 0, price_exponent = 0\<rparr>"

definition minmax_init :: minmax where
  "minmax_init = \<lparr>first_trade = True, min_val = 0, max_val = 0, min_p = zero_Price, max_p = zero_Price\<rparr>"

definition minmax_body :: "TradeData \<Rightarrow> minmax \<Rightarrow> minmax" where
  "minmax_body trade m0 =
     (let v = price_value (trade_price trade);
          m1 = (if first_trade m0 \<or> v < min_val m0
                then m0\<lparr>min_val := v, min_p := trade_price trade\<rparr> else m0);
          m2 = (if first_trade m1 \<or> v > max_val m1
                then m1\<lparr>max_val := v, max_p := trade_price trade\<rparr> else m1)
      in m2\<lparr>first_trade := False\<rparr>)"

definition min_max_price_in_range :: "Query_engine \<Rightarrow> u64 \<Rightarrow> u64 \<Rightarrow> (Price \<times> Price) run" where
  "min_max_price_in_range e start_t end_t =
     (if \<not> end_t > start_t then Some (Inl Assert_failed) else
      bindR (Some (search_window e start_t end_t)) (\<lambda>(start_idx, end_idx).
      bindR (scan_loop (read_trade_data e) minmax_body start_idx end_idx minmax_init) (\<lambda>m.
      Some (Inr (min_p m, max_p m)))))"

section \<open>From a double back to mantissa and exponent\<close>

text \<open>
  The two loops that bring a value into the range of \<open>uint32_t\<close>: the first multiplies small
  values by ten while the exponent stays above \<open>-18\<close>, the second divides values beyond the
  maximum of \<open>uint32_t\<close>. The exponent is an \<open>int8_t\<close>.
\<close>

lemma sint_pred_i8: "sint (expo :: i8) > - 18 \<Longrightarrow> sint (expo - 1) = sint expo - 1"
  using sint_lt[of expo] by (simp add: sint_word_diff signed_take_bit_int_eq_self)

lemma sint_succ_i8: "sint (expo :: i8) < 127 \<Longrightarrow> sint (expo + 1) = sint expo + 1"
  using sint_ge[of expo] by (simp add: sint_word_add signed_take_bit_int_eq_self)

function scale_up :: "rat \<Rightarrow> i8 \<Rightarrow> rat \<times> i8" where
  "scale_up x expo =
     (if x > 0 \<and> x < 1000000000 \<and> sint expo > - 18
      then scale_up (fmul x 10) (expo - 1) else (x, expo))"
  by pat_completeness auto
termination
  by (relation "measure (\<lambda>(x, expo). nat (sint expo + 128))") (auto simp: sint_pred_i8)

lemma normal_ge_1: "(1::rat) \<le> x \<Longrightarrow> 2 powi (- 1022) \<le> x"
proof -
  assume "1 \<le> x"
  moreover have "(2 powi (- 1022) :: rat) \<le> 2 powi 0" by (simp only: powi2_le_iff)
  ultimately show ?thesis by simp
qed

lemma fdiv10_bounds:
  assumes "10 \<le> x"
  shows "fdiv x 10 \<le> x / 5" and "x / 20 \<le> fdiv x 10"
proof -
  have "1 \<le> x / 10" using assms by simp
  then have "\<bar>rnd (x / 10) - x / 10\<bar> \<le> x / 10 / 2 ^ 53"
    by (intro rnd_rel_error normal_ge_1)
  moreover have "x / 10 / 2 ^ 53 \<le> x / 20" using assms by (simp add: field_simps)
  ultimately show "fdiv x 10 \<le> x / 5" and "x / 20 \<le> fdiv x 10"
    unfolding fdiv_def by linarith+
qed

function scale_down :: "rat \<Rightarrow> i8 \<Rightarrow> rat \<times> i8" where
  "scale_down x expo =
     (if x > 4294967295 then scale_down (fdiv x 10) (expo + 1) else (x, expo))"
  by pat_completeness auto
termination
proof (relation "measure (\<lambda>(x, expo). nat \<lfloor>x\<rfloor>)", goal_cases)
  case 1
  show ?case by simp
next
  case (2 x expo)
  then have "fdiv x 10 \<le> x - 1" using fdiv10_bounds(1)[of x] by linarith
  then have "\<lfloor>fdiv x 10\<rfloor> < \<lfloor>x\<rfloor>" by linarith
  moreover have "0 < \<lfloor>x\<rfloor>" using 2 by linarith
  ultimately show ?case by simp
qed

declare scale_up.simps [simp del] scale_down.simps [simp del]

text \<open>
  \<open>std::round\<close> rounds halves away from zero, as \<open>round\<close> does for nonnegative arguments; the
  cast to \<open>uint32_t\<close> is defined because \<open>scale_down\<close> leaves at most \<open>2^32 - 1\<close>
  (\<open>to_mantissa_fits\<close>).
\<close>

definition to_mantissa :: "rat \<Rightarrow> u32 \<times> i8" where
  "to_mantissa x =
     (let (x1, expo1) = scale_up x 0;
          (x2, expo2) = scale_down x1 expo1
      in (word_of_int (round x2), expo2))"

section \<open>Total quantity\<close>

definition total_body :: "TradeData \<Rightarrow> rat \<Rightarrow> rat" where
  "total_body trade total_val = fadd total_val (quantity_value (trade_quantity trade))"

definition total_quantity_in_range :: "Query_engine \<Rightarrow> u64 \<Rightarrow> u64 \<Rightarrow> Quantity run" where
  "total_quantity_in_range e start_t end_t =
     (if \<not> end_t > start_t then Some (Inl Assert_failed) else
      bindR (Some (search_window e start_t end_t)) (\<lambda>(start_idx, end_idx).
      bindR (scan_loop (read_trade_data e) total_body start_idx end_idx 0) (\<lambda>total_val.
      let (mantissa, expo) = to_mantissa total_val
      in Some (Inr \<lparr>quantity = mantissa, quantity_exponent = expo\<rparr>))))"

section \<open>Mean price\<close>

definition mean_body :: "TradeData \<Rightarrow> rat \<times> rat \<Rightarrow> rat \<times> rat" where
  "mean_body trade acc =
     (let (sum_pq, sum_q) = acc;
          price_val = price_value (trade_price trade);
          qty_val = quantity_value (trade_quantity trade)
      in (fadd sum_pq (fmul price_val qty_val), fadd sum_q qty_val))"

definition mean_price_in_range :: "Query_engine \<Rightarrow> u64 \<Rightarrow> u64 \<Rightarrow> Price run" where
  "mean_price_in_range e start_t end_t =
     (if \<not> end_t > start_t then Some (Inl Assert_failed) else
      bindR (Some (search_window e start_t end_t)) (\<lambda>(start_idx, end_idx).
      bindR (scan_loop (read_trade_data e) mean_body start_idx end_idx (0, 0)) (\<lambda>(sum_pq, sum_q).
      let mean_val = (if sum_q > 0 then fdiv sum_pq sum_q else 0);
          (mantissa, expo) = to_mantissa mean_val
      in Some (Inr \<lparr>price = mantissa, price_exponent = expo\<rparr>))))"

section \<open>The scan computes a fold\<close>

context trade_store
begin

lemma scan_loop_fold:
  assumes "invar e" and "unat end_idx < length (recs e)" and "end_idx \<noteq> - 1"
  shows "scan_loop (read e) body i end_idx acc = Some (Inr (fold body (scanned (recs e) i end_idx) acc))"
  using assms
proof (induction "Suc (unat end_idx) - unat i" arbitrary: i acc)
  case 0
  then have "unat end_idx < unat i" by simp
  then have "\<not> i \<le> end_idx" by (simp add: word_le_nat_alt)
  then show ?case using 0 by (simp add: scan_loop.simps[of _ _ i] scanned_def)
next
  case (Suc k)
  then have le: "unat i \<le> unat end_idx" by simp
  have nowrap: "unat (i + 1) = Suc (unat i)"
  proof -
    have "unat end_idx \<noteq> 2 ^ 64 - 1"
      using Suc.prems(3) unat_max_u64 by blast
    then have "unat i + 1 < 2 ^ 64" using le unat_lt2p[of end_idx] by simp
    then show ?thesis by (simp add: unat_word_ariths)
  qed
  have rd: "read e i = Inr (recs e ! unat i)" using Suc.prems le by (intro read_in) auto
  have "scan_loop (read e) body i end_idx acc
      = scan_loop (read e) body (i + 1) end_idx (body (recs e ! unat i) acc)"
    using le rd by (subst scan_loop.simps) (simp add: word_le_nat_alt)
  also have "\<dots> = Some (Inr (fold body (scanned (recs e) (i + 1) end_idx) (body (recs e ! unat i) acc)))"
    using Suc.hyps(2) nowrap by (intro Suc.hyps(1) Suc.prems) simp
  also have "scanned (recs e) i end_idx = recs e ! unat i # scanned (recs e) (i + 1) end_idx"
    using le nowrap upt_conv_Cons[of "unat i" "Suc (unat end_idx)"] by (simp add: scanned_def)
  then have "fold body (scanned (recs e) (i + 1) end_idx) (body (recs e ! unat i) acc)
      = fold body (scanned (recs e) i end_idx) acc" by simp
  finally show ?case .
qed

end

text \<open>The search and the scan together: a fold over the scanned records.\<close>

lemma search_scan:
  assumes "covers t e" and "time_sorted (records e)" and "records e \<noteq> []" and "s \<le> t"
  shows "bindR (Some (search_window e s t)) (\<lambda>(start_idx, end_idx).
      bindR (scan_loop (read_trade_data e) body start_idx end_idx init) f)
    = f (fold body (window_read s t (records e)) init)"
proof -
  from search_window_correct[OF assms] obtain i j where w: "search_window e s t = Inr (i, j)"
    and j: "j \<noteq> - 1" "unat j < length (records e)"
    and sc: "scanned (records e) i j = window_read s t (records e)" .
  show ?thesis
    using engine.scan_loop_fold[OF covers_readable[OF assms(1)] j(2,1), of body i init]
    by (simp add: w sc)
qed

section \<open>Every metric ends\<close>

text \<open>
  Record indices around \<open>2^58\<close> have a byte offset of \<open>2^63\<close>, negative as a stream offset, so a
  scan that keeps succeeding would have to pass an index at which every read fails.
\<close>

lemma read_fails_2_58: "read_trade_data e (2 ^ 58) = Inl (Read_failed (2 ^ 58))"
  by (simp add: read_trade_data_def Let_def split: option.splits)

lemma scan_loop_returns_before:
  "rd (i + of_nat k) = Inl err \<Longrightarrow> scan_loop rd body i end_idx acc \<noteq> None"
proof (induction k arbitrary: i acc)
  case 0
  then show ?case by (subst scan_loop.simps) simp
next
  case (Suc k)
  have "rd (i + 1 + of_nat k) = Inl err" using Suc.prems by (simp add: add.assoc)
  from Suc.IH[OF this] show ?case
    by (subst scan_loop.simps) (auto split: sum.splits)
qed

lemma scan_loop_returns: "scan_loop (read_trade_data e) body i end_idx acc \<noteq> None"
  using read_fails_2_58[of e]
  by (intro scan_loop_returns_before[where k = "unat (2 ^ 58 - i)" and err = "Read_failed (2 ^ 58)"]) simp

lemma search_scan_returns:
  assumes "\<And>x. f x \<noteq> None"
  shows "bindR (Some (search_window e s t)) (\<lambda>(start_idx, end_idx).
     bindR (scan_loop (read_trade_data e) body start_idx end_idx init) f) \<noteq> None"
proof (rule bindR_not_None)
  fix w :: "u64 \<times> u64"
  show "(case w of (start_idx, end_idx) \<Rightarrow>
      bindR (scan_loop (read_trade_data e) body start_idx end_idx init) f) \<noteq> None"
    unfolding case_prod_beta by (rule bindR_not_None[OF scan_loop_returns assms])
qed simp

lemma min_max_returns: "min_max_price_in_range e s t \<noteq> None"
  unfolding min_max_price_in_range_def
  by (rule guard_not_None, rule search_scan_returns) simp

lemma total_returns: "total_quantity_in_range e s t \<noteq> None"
  unfolding total_quantity_in_range_def
  by (rule guard_not_None, rule search_scan_returns) (simp split: prod.splits)

lemma mean_returns: "mean_price_in_range e s t \<noteq> None"
  unfolding mean_price_in_range_def
  by (rule guard_not_None, rule search_scan_returns) (simp add: Let_def split: prod.splits)

text \<open>C36. Termination: all three metrics end, with a result or an exception, on every engine
  (any file, any value of \<open>trades_size\<close>) and every interval; in particular the unsigned loop
  \<open>i <= end_idx\<close> never runs forever.\<close>

theorem metrics_terminate:
  "min_max_price_in_range e s t \<noteq> None \<and> total_quantity_in_range e s t \<noteq> None
    \<and> mean_price_in_range e s t \<noteq> None"
  by (intro conjI min_max_returns total_returns mean_returns)

end
