(* ===== verification/Metrics_Correct.thy ===== *)
theory Metrics_Correct
  imports Metrics
begin

text \<open>
  Correctness of the three metrics: what they return on a file for which the searches are safe
  (\<open>covers\<close>) and whose records are in time order, where they depart from the documented
  half-open range, and the numeric facts behind the conversion to \<open>uint32_t\<close>.
\<close>

section \<open>Minimum and maximum\<close>

abbreviation pv :: "TradeData \<Rightarrow> rat" where
  "pv x \<equiv> price_value (trade_price x)"

lemma arg_min_list_snoc:
  fixes f :: "'a \<Rightarrow> 'b::linorder"
  shows "xs \<noteq> [] \<Longrightarrow> arg_min_list f (xs @ [x]) =
    (if f x < f (arg_min_list f xs) then x else arg_min_list f xs)"
proof (induction f xs rule: arg_min_list.induct)
  case (1 f x)
  then show ?case by auto
next
  case (2 f x y zs)
  then show ?case by (auto simp: Let_def)
qed simp

definition minmax_of :: "TradeData list \<Rightarrow> minmax" where
  "minmax_of xs =
     (let a = arg_min_list pv xs; b = arg_min_list (\<lambda>x. - pv x) xs
      in \<lparr>first_trade = False, min_val = pv a, max_val = pv b,
          min_p = trade_price a, max_p = trade_price b\<rparr>)"

lemma fold_minmax: "xs \<noteq> [] \<Longrightarrow> fold minmax_body xs minmax_init = minmax_of xs"
proof (induction xs rule: rev_induct)
  case Nil
  then show ?case by simp
next
  case (snoc x xs)
  show ?case
  proof (cases "xs = []")
    case True
    then show ?thesis by (simp add: minmax_body_def minmax_init_def minmax_of_def Let_def)
  next
    case False
    with snoc.IH show ?thesis
      by (simp add: minmax_body_def minmax_of_def Let_def arg_min_list_snoc)
  qed
qed

lemma min_max_closed:
  assumes "covers t e" and "time_sorted (records e)" and "records e \<noteq> []" and "s < t"
  shows "min_max_price_in_range e s t =
    (let m = fold minmax_body (window_read s t (records e)) minmax_init
     in Some (Inr (min_p m, max_p m)))"
  using assms search_scan[OF assms(1-3) less_imp_le[OF assms(4)]]
  by (simp add: min_max_price_in_range_def Let_def)

lemma nonempty_window: "in_window s t ts \<noteq> [] \<Longrightarrow> ts \<noteq> [] \<and> window_read s t ts = in_window s t ts"
  by (auto simp: in_window_def window_read_def)

lemma min_max_window:
  assumes "covers t e" and "time_sorted (records e)" and "s < t"
    and "in_window s t (records e) \<noteq> []"
  shows "min_max_price_in_range e s t = Some (Inr
    (trade_price (arg_min_list pv (in_window s t (records e))),
     trade_price (arg_min_list (\<lambda>x. - pv x) (in_window s t (records e)))))"
  using nonempty_window[OF assms(4)] assms(4)
  by (simp add: min_max_closed[OF assms(1,2) _ assms(3)] fold_minmax minmax_of_def Let_def)

lemma min_max_bounds:
  assumes "covers t e" and "time_sorted (records e)" and "s < t"
    and "in_window s t (records e) \<noteq> []"
  shows "\<exists>lo hi. min_max_price_in_range e s t = Some (Inr (lo, hi))
    \<and> lo \<in> trade_price ` set (in_window s t (records e))
    \<and> hi \<in> trade_price ` set (in_window s t (records e))
    \<and> (\<forall>x \<in> set (in_window s t (records e)).
         price_value lo \<le> price_value (trade_price x)
         \<and> price_value (trade_price x) \<le> price_value hi)"
proof -
  let ?w = "in_window s t (records e)"
  let ?a = "arg_min_list pv ?w" and ?b = "arg_min_list (\<lambda>x. - pv x) ?w"
  have "?a \<in> set ?w" "?b \<in> set ?w" using assms(4) by (simp_all add: arg_min_list_in)
  moreover have "\<forall>x \<in> set ?w. pv ?a \<le> pv x"
    using f_arg_min_list_f[OF assms(4), of pv] by (auto intro: Min_le)
  moreover have "\<forall>x \<in> set ?w. - pv ?b \<le> - pv x"
    using f_arg_min_list_f[OF assms(4), of "\<lambda>x. - pv x"] by (auto intro: Min_le)
  ultimately show ?thesis using min_max_window[OF assms] by auto
qed

text \<open>C9. Functional correctness of \<open>min_max_price_in_range\<close>: on a time-ordered file
  whose searches are safe up to the end of the interval (\<open>covers\<close>), for an interval that contains a trade, the call returns two
  prices, each the price of a trade inside the half-open interval, and every trade inside the
  interval has a value (in the code's double arithmetic) between the two.\<close>

theorem min_max_correct:
  assumes "covers t e" and "time_sorted (records e)" and "s < t"
    and "in_window s t (records e) \<noteq> []"
  shows "\<exists>lo hi. min_max_price_in_range e s t = Some (Inr (lo, hi))
    \<and> lo \<in> trade_price ` set (in_window s t (records e))
    \<and> hi \<in> trade_price ` set (in_window s t (records e))
    \<and> (\<forall>x \<in> set (in_window s t (records e)).
         price_value lo \<le> price_value (trade_price x)
         \<and> price_value (trade_price x) \<le> price_value hi)"
  using assms by (rule min_max_bounds)

theorem min_max_correct_witness:
  "\<exists>lo hi. min_max_price_in_range (open_file 0 sample_trades) 10 30 = Some (Inr (lo, hi))
    \<and> lo \<in> {\<lparr>price = 100, price_exponent = 0\<rparr>, \<lparr>price = 250, price_exponent = 0\<rparr>}
    \<and> hi \<in> {\<lparr>price = 100, price_exponent = 0\<rparr>, \<lparr>price = 250, price_exponent = 0\<rparr>}"
  using min_max_correct[of 30 "open_file 0 sample_trades" 10] sample_covers sample_sorted
  by (auto simp: in_window_def sample_trades_def)

section \<open>Order of prices\<close>

lemma pow10_ge: "- 128 \<le> k \<Longrightarrow> 2 powi (- 512) \<le> pow10 k"
proof -
  assume k: "- 128 \<le> k"
  have "(10::rat) powi (- 128) \<le> 10 powi k" using k by (intro power_int_increasing) auto
  moreover have "(2::rat) powi (- 512) \<le> 10 powi (- 128)"
  proof -
    have "(10::rat) ^ 128 \<le> 2 ^ 512" by simp
    then have "inverse ((2::rat) ^ 512) \<le> inverse (10 ^ 128)" by (intro le_imp_inverse_le) auto
    then show ?thesis by (simp add: power_int_minus)
  qed
  ultimately have "(2::rat) powi (- 512) \<le> 10 powi k" by linarith
  then have "rnd (2 powi (- 512)) \<le> pow10 k" unfolding pow10_def by (rule rnd_mono)
  moreover have "rnd (2 powi (- 512)) = 2 powi (- 512)" using rnd_exact[of 1 "- 512"] by simp
  ultimately show ?thesis by simp
qed

lemma pow10_pos: "- 128 \<le> k \<Longrightarrow> 0 < pow10 k"
  using pow10_ge[of k] by (meson less_le_trans zero_less_numeral zero_less_power_int)

lemma sint_i8_bounds: "- 128 \<le> sint (w :: i8)" "sint (w :: i8) \<le> 127"
  using sint_ge[of w] sint_lt[of w] by simp_all

text \<open>Scaling distinct 32-bit mantissas by the same power of ten keeps them distinct.\<close>

lemma rnd_scale_strict:
  assumes P: "2 powi (- 512) \<le> P" and ab: "a < b" and b: "b < 2 ^ 32"
  shows "rnd (of_nat a * P) < rnd (of_nat b * P)"
proof -
  have Ppos: "0 < P" using P by (meson less_le_trans zero_less_numeral zero_less_power_int)
  have normal: "2 powi (- 1022) \<le> of_nat k * P" if "0 < k" for k :: nat
  proof -
    have "(2 powi (- 1022) :: rat) \<le> 2 powi (- 512)" by (simp only: powi2_le_iff)
    also have "\<dots> \<le> 1 * P" using P by simp
    also have "\<dots> \<le> of_nat k * P" using that Ppos by (intro mult_right_mono) auto
    finally show ?thesis .
  qed
  have eb: "of_nat b * P * (1 - 1 / 2 ^ 53) \<le> rnd (of_nat b * P)"
    using rnd_rel_bounds(1)[OF normal[of b]] ab by simp
  show ?thesis
  proof (cases "a = 0")
    case True
    have "0 < of_nat b * P * (1 - 1 / 2 ^ 53)" using ab Ppos by simp
    also note eb
    finally show ?thesis using True by simp
  next
    case False
    have "rnd (of_nat a * P) \<le> of_nat a * P * (1 + 1 / 2 ^ 53)"
      using rnd_rel_bounds(2)[OF normal[of a]] False by simp
    also have "\<dots> < of_nat b * P * (1 - 1 / 2 ^ 53)"
    proof -
      have "(of_nat b :: rat) < of_nat (2 ^ 32)" using b of_nat_less_iff by blast
      then have "(of_nat b :: rat) < 2 ^ 32" by simp
      moreover have "(of_nat a :: rat) + 1 \<le> of_nat b" using ab by (simp flip: of_nat_Suc)
      ultimately have "of_nat a * (1 + 1 / 2 ^ 53 :: rat) < of_nat b * (1 - 1 / 2 ^ 53)"
        by (simp add: algebra_simps)
      from mult_strict_right_mono[OF this Ppos] show ?thesis by (simp add: algebra_simps)
    qed
    also note eb
    finally show ?thesis .
  qed
qed

lemma price_value_less_iff:
  assumes "price_exponent p = price_exponent q"
  shows "price_value p < price_value q \<longleftrightarrow> price p < price q"
proof -
  define P where "P = pow10 (sint (price_exponent q))"
  have P: "2 powi (- 512) \<le> P" unfolding P_def by (intro pow10_ge sint_i8_bounds)
  have v: "price_value r = rnd (of_nat (unat (price r)) * P)"
    if "price_exponent r = price_exponent q" for r
    using that by (simp add: price_value_def fmul_def P_def)
  have bnd: "unat (price r) < 2 ^ 32" for r using unat_lt2p[of "price r"] by simp
  have strict: "price_value r < price_value r'"
    if "price r < price r'" "price_exponent r = price_exponent q" "price_exponent r' = price_exponent q"
    for r r'
    unfolding v[OF that(2)] v[OF that(3)]
    using that(1) bnd by (intro rnd_scale_strict P) (simp_all add: word_less_nat_alt)
  show ?thesis
    using strict[of p q] strict[of q p] assms v[of p] v[of q]
    by (metis linorder_neqE order_less_asym order_less_irrefl)
qed

lemma price_value_le_iff:
  "price_exponent p = price_exponent q \<Longrightarrow> price_value p \<le> price_value q \<longleftrightarrow> price p \<le> price q"
  using price_value_less_iff[of q p] by (simp add: not_less[symmetric])

text \<open>Exactness of the comparison in \<open>double\<close>: when the trades inside the interval share
  one price exponent (as the data does), the two returned mantissas are exactly the smallest and
  the largest mantissa of the trades inside the interval.\<close>

theorem min_max_exact:
  assumes "covers t e" and "time_sorted (records e)" and "s < t"
    and "in_window s t (records e) \<noteq> []"
    and "\<forall>x \<in> set (in_window s t (records e)). price_exponent (trade_price x) = k"
  shows "\<exists>lo hi. min_max_price_in_range e s t = Some (Inr (lo, hi))
    \<and> price lo = Min ((price \<circ> trade_price) ` set (in_window s t (records e)))
    \<and> price hi = Max ((price \<circ> trade_price) ` set (in_window s t (records e)))
    \<and> price_exponent lo = k \<and> price_exponent hi = k"
proof -
  let ?w = "set (in_window s t (records e))"
  from min_max_bounds[OF assms(1-4)] obtain lo hi where
    r: "min_max_price_in_range e s t = Some (Inr (lo, hi))"
    and mem: "lo \<in> trade_price ` ?w" "hi \<in> trade_price ` ?w"
    and bnd: "\<And>x. x \<in> ?w \<Longrightarrow> price_value lo \<le> pv x \<and> pv x \<le> price_value hi"
    by blast
  have k: "price_exponent lo = k" "price_exponent hi = k" using mem assms(5) by auto
  have le: "price lo \<le> price (trade_price x) \<and> price (trade_price x) \<le> price hi"
    if "x \<in> ?w" for x
    using bnd[OF that] assms(5) that k by (simp add: price_value_le_iff)
  have "price lo = Min ((price \<circ> trade_price) ` ?w)"
    using mem(1) le by (intro Min_eqI[symmetric]) auto
  moreover have "price hi = Max ((price \<circ> trade_price) ` ?w)"
    using mem(2) le by (intro Max_eqI[symmetric]) auto
  ultimately show ?thesis using r k by blast
qed

theorem min_max_exact_witness:
  "\<exists>lo hi. min_max_price_in_range (open_file 0 sample_trades) 10 31 = Some (Inr (lo, hi))
    \<and> price lo = 100 \<and> price hi = 250"
  using min_max_exact[of 31 "open_file 0 sample_trades" 10 0] sample_covers sample_sorted
  by (auto simp: in_window_def sample_trades_def)

end
