(* ===== verification/Range_Ends.thy ===== *)
theory Range_Ends
  imports Metrics_Correct
begin

text \<open>
  The edges: intervals that hold no trade, the record count the constructor computes, files
  whose count it gets wrong, empty files, files that cannot be opened, and \<open>send_raw_data\<close>.
\<close>

section \<open>Intervals without a trade\<close>

lemma minmax_single [simp]:
  "min_p (minmax_body x minmax_init) = trade_price x"
  "max_p (minmax_body x minmax_init) = trade_price x"
  using fold_minmax[of "[x]"] by (simp_all add: minmax_of_def)

lemma minmax_none [simp]: "min_p minmax_init = zero_Price" "max_p minmax_init = zero_Price"
  by (simp_all add: minmax_init_def)

text \<open>What \<open>min_max_price_in_range\<close> returns for an interval that holds no trade: the price
  of the first trade of the file when the interval ends before it, the price of the last trade
  when the interval starts after it, and two zero prices only for a gap between two trades.\<close>

theorem min_max_empty_interval:
  assumes "covers t e" and "time_sorted (records e)" and "records e \<noteq> []" and "s < t"
    and "in_window s t (records e) = []"
  shows "min_max_price_in_range e s t = Some (Inr
    (if t \<le> created_at (hd (records e))
     then (trade_price (hd (records e)), trade_price (hd (records e)))
     else if created_at (last (records e)) < s
     then (trade_price (last (records e)), trade_price (last (records e)))
     else (zero_Price, zero_Price)))"
  using assms(5)
  by (simp add: min_max_closed[OF assms(1-4)] window_read_def Let_def)

theorem min_max_empty_interval_witness:
  "min_max_price_in_range (open_file 0 sample_trades) 1 2 =
     Some (Inr (\<lparr>price = 100, price_exponent = 0\<rparr>, \<lparr>price = 100, price_exponent = 0\<rparr>))
   \<and> min_max_price_in_range (open_file 0 sample_trades) 11 19 = Some (Inr (zero_Price, zero_Price))"
  using min_max_empty_interval[of 2 "open_file 0 sample_trades" 1]
    min_max_empty_interval[of 19 "open_file 0 sample_trades" 11] sample_covers
  by (simp add: in_window_def sample_trades_def time_sorted_def)

section \<open>The record count of the constructor\<close>

text \<open>The constructor divides the file size by 31 although a record occupies
  \<open>sizeof(TradeData) = 32\<close> bytes: for a file of \<open>n\<close> records \<open>trades_size\<close> is \<open>n + n div 31\<close>,
  which is the number of records exactly for files of fewer than 31 records.\<close>

theorem trades_size_overcounts:
  assumes "length ts < 2 ^ 57"
  shows "unat (trades_size (open_file pad ts)) = length ts + length ts div 31
    \<and> (sized (open_file pad ts) \<longleftrightarrow> length ts < 31)"
  using trades_size_open_file[OF assms] readable_open_file[OF assms]
  by (auto simp: sized_def)

theorem trades_size_overcounts_witness:
  "unat (trades_size (open_file 0 sample_trades)) = 3 \<and> sized (open_file 0 sample_trades)
    \<and> unat (trades_size (open_file 0 (replicate 62 (hd sample_trades)))) = 64"
  using trades_size_overcounts[of sample_trades 0]
    trades_size_overcounts[of "replicate 62 (hd sample_trades)" 0]
  by (simp add: sample_trades_def)

section \<open>Reading past the end\<close>

context trade_store
begin

lemma search_fails_outside:
  assumes "search_loop (read e) t l r = Inl err" and "invar e" and "unat r \<le> 2 ^ 58"
  shows "\<exists>i. err = Read_failed i \<and> length (recs e) \<le> unat i \<and> unat i < unat r"
  using assms
proof (induction "read e" t l r rule: search_loop.induct)
  case (1 t l r)
  have lr: "l < r"
  proof (rule ccontr)
    assume "\<not> l < r"
    then show False using "1.prems"(1) by (simp add: search_loop_done)
  qed
  define mid where "mid = l + drop_bit 1 (r - l)"
  have m: "unat mid = unat l + (unat r - unat l) div 2"
    unfolding mid_def by (rule unat_midpoint[OF lr])
  have mr: "unat mid < unat r" using m lr[unfolded word_less_nat_alt] by arith
  then have "unat mid < 2 ^ 58" using "1.prems"(3) by linarith
  with "1.prems"(2) show ?case
  proof (cases rule: read_cases)
    case 2
    then show ?thesis using "1.prems"(1) mr by (auto simp: search_loop_step[OF lr mid_def])
  next
    case inr: 1
    show ?thesis
    proof (cases "created_at (recs e ! unat mid) < t")
      case lt: True
      have "search_loop (read e) t (mid + 1) r = Inl err"
        using "1.prems"(1) inr lt by (simp add: search_loop_step[OF lr mid_def])
      from "1.hyps"(1)[OF lr mid_def lt this "1.prems"(2,3)] show ?thesis .
    next
      case ge: False
      have s: "search_loop (read e) t l mid = Inl err"
        using "1.prems"(1) inr ge by (simp add: search_loop_step[OF lr mid_def])
      have "unat mid \<le> 2 ^ 58" using mr "1.prems"(3) by linarith
      from "1.hyps"(2)[OF lr mid_def ge s "1.prems"(2) this] show ?thesis using mr by fastforce
    qed
  qed
qed

text \<open>
  When the believed size exceeds the record count, a search for a time after every record
  cannot succeed.
\<close>

lemma search_beyond_end:
  assumes "invar e" and "l < r" and "length (recs e) < unat r" and "unat r \<le> 2 ^ 58"
    and "\<forall>x \<in> set (recs e). created_at x < t"
  shows "\<exists>i. search_loop (read e) t l r = Inl (Read_failed i)
    \<and> length (recs e) \<le> unat i \<and> unat i < unat r"
proof (cases "search_loop (read e) t l r")
  case (Inl err)
  then show ?thesis using search_fails_outside[OF Inl assms(1,4)] by blast
next
  case (Inr p)
  obtain a b where "p = (a, b)" by (cases p)
  with Inr have s: "search_loop (read e) t l r = Inr (a, b)" by simp
  note B = search_boundary[OF s assms(1) less_imp_le[OF assms(2)] assms(4)]
  show ?thesis
  proof (cases "a = r")
    case True
    then show ?thesis using B assms(2,3) by auto
  next
    case False
    then have "a < r" using B by auto
    then have "unat a < length (recs e)" "t \<le> created_at (recs e ! unat a)" using B by blast+
    then show ?thesis using assms(5) nth_mem by (metis linorder_not_less)
  qed
qed

end

lemma search_window_crash:
  assumes "readable e" and "length (records e) < unat (trades_size e)"
    and "unat (trades_size e) \<le> 2 ^ 58" and "\<forall>x \<in> set (records e). created_at x < t"
  shows "\<exists>i. search_window e s t = Inl (Read_failed i) \<and> length (records e) \<le> unat i"
proof -
  let ?n = "trades_size e"
  have one: "1 \<le> ?n" using assms(2) by (simp add: word_le_nat_alt)
  then have n1: "unat (?n - 1) = unat ?n - 1" by (simp add: unat_sub)
  then have "unat (?n - 1) \<le> 2 ^ 58" using assms(3) by simp
  note small = this
  show ?thesis
  proof (cases "search_loop (read_trade_data e) s 0 (?n - 1)")
    case (Inl err)
    then show ?thesis using engine.search_fails_outside[OF Inl assms(1) small]
      by (auto simp: search_window_def)
  next
    case (Inr p)
    obtain a b where p: "search_loop (read_trade_data e) s 0 (?n - 1) = Inr (a, b)"
      using Inr by (cases p) simp
    have "a \<le> ?n - 1" 
      using engine.search_boundary[OF p assms(1) word_zero_le small] by blast
    then have "a < ?n" using n1 assms(2) by (simp add: word_less_nat_alt word_le_nat_alt)
    from engine.search_beyond_end[OF assms(1) this assms(2-4)] show ?thesis
      by (auto simp: search_window_def p)
  qed
qed

lemma metrics_crash:
  assumes "31 \<le> length ts" and "length ts < 2 ^ 57" and "s < t"
    and "\<forall>x \<in> set ts. created_at x < t"
  shows "\<exists>i. length ts \<le> unat i
    \<and> min_max_price_in_range (open_file pad ts) s t = Some (Inl (Read_failed i))
    \<and> total_quantity_in_range (open_file pad ts) s t = Some (Inl (Read_failed i))
    \<and> mean_price_in_range (open_file pad ts) s t = Some (Inl (Read_failed i))"
proof -
  let ?e = "open_file pad ts"
  have size: "unat (trades_size ?e) = length ts + length ts div 31"
    using assms(2) by (rule trades_size_open_file)
  have "length ts div 31 > 0" using assms(1) by (simp add: div_greater_zero_iff)
  then have "length (records ?e) < unat (trades_size ?e)" using size by simp
  moreover have "unat (trades_size ?e) \<le> 2 ^ 58" using size assms(2) by simp
  moreover have "\<forall>x \<in> set (records ?e). created_at x < t" using assms(4) by simp
  ultimately obtain i where "search_window ?e s t = Inl (Read_failed i)" "length ts \<le> unat i"
    using search_window_crash[OF readable_open_file[OF assms(2)]] by fastforce
  then show ?thesis using assms(3)
    by (auto simp: min_max_price_in_range_def total_quantity_in_range_def mean_price_in_range_def)
qed

text \<open>C23. Consequence of the wrong count: on a file of at least 31 (and fewer than 2^57) records, every
  metric over an interval \<open>[s, t)\<close> with \<open>s < t\<close> that ends after the last trade fails. The second
  search leaves the file and the read throws; the exception carries an index at or beyond the number of
  records.\<close>

theorem metrics_crash_at_end:
  assumes "31 \<le> length ts" and "length ts < 2 ^ 57" and "s < t"
    and "\<forall>x \<in> set ts. created_at x < t"
  shows "\<exists>i. length ts \<le> unat i
    \<and> min_max_price_in_range (open_file pad ts) s t = Some (Inl (Read_failed i))
    \<and> total_quantity_in_range (open_file pad ts) s t = Some (Inl (Read_failed i))
    \<and> mean_price_in_range (open_file pad ts) s t = Some (Inl (Read_failed i))"
  using assms by (rule metrics_crash)

theorem metrics_crash_at_end_witness:
  "let t = \<lparr>symbol_id = 1, created_at = 5, trade_id = 0,
            trade_price = \<lparr>price = 7, price_exponent = 0\<rparr>,
            trade_quantity = \<lparr>quantity = 1, quantity_exponent = 0\<rparr>, taker_side = 1\<rparr>
   in \<exists>i. 31 \<le> unat i
     \<and> min_max_price_in_range (open_file 0 (replicate 31 t)) 0 9 = Some (Inl (Read_failed i))"
  unfolding Let_def
  using metrics_crash_at_end[of "replicate 31
      \<lparr>symbol_id = 1, created_at = 5, trade_id = 0,
       trade_price = \<lparr>price = 7, price_exponent = 0\<rparr>,
       trade_quantity = \<lparr>quantity = 1, quantity_exponent = 0\<rparr>, taker_side = 1\<rparr>" 0 9 0]
  by auto

text \<open>An empty data file, or one that cannot be opened, makes every metric throw: for the
  empty file \<open>trades_size - 1\<close> wraps to \<open>2^64 - 1\<close> and the first probe reads at a negative
  offset; for a missing file every read fails.\<close>

lemma metrics_without_data:
  assumes "s < t" and "file = Some [] \<or> file = None \<and> junk \<noteq> 0"
  shows "\<exists>i. min_max_price_in_range (new_Query_engine file junk) s t = Some (Inl (Read_failed i))
    \<and> total_quantity_in_range (new_Query_engine file junk) s t = Some (Inl (Read_failed i))
    \<and> mean_price_in_range (new_Query_engine file junk) s t = Some (Inl (Read_failed i))"
proof -
  let ?e = "new_Query_engine file junk"
  have fails: "read_trade_data ?e i = Inl (Read_failed i)" for i
    using assms(2) by (auto simp: new_Query_engine_def read_trade_data_def Let_def)
  have step: "search_loop (read_trade_data ?e) u l r
      = (if l < r then Inl (Read_failed (l + drop_bit 1 (r - l))) else Inr (l, r))" for u l r
    using search_loop_step[of l r _ "read_trade_data ?e" u] fails
    by (simp add: search_loop_done)
  have "\<exists>i. search_window ?e s t = Inl (Read_failed i)"
  proof (cases "(0::u64) < trades_size ?e - 1")
    case True
    then show ?thesis by (auto simp: search_window_def step)
  next
    case False
    then have "trades_size ?e - 1 = 0" by (simp add: word_gt_0)
    then have "trades_size ?e = 1" by (metis eq_iff_diff_eq_0)
    then show ?thesis by (auto simp: search_window_def step)
  qed
  then show ?thesis using assms(1)
    by (auto simp: min_max_price_in_range_def total_quantity_in_range_def mean_price_in_range_def)
qed

section \<open>Raw data\<close>

lemma send_raw_loop_spec:
  assumes rd: "readable e" and sz: "unat (trades_size e) < 2 ^ 58"
    and ind: "unat ind \<le> length (records e)" "unat ind \<le> unat (trades_size e)"
  shows "send_raw_loop e q ind acc =
    (if length (records e) < unat (trades_size e) then Inl (Read_failed (of_nat (length (records e))))
     else Inr (acc @ in_window (start_time_point q) (end_time_point q)
       (drop (unat ind) (take (unat (trades_size e)) (records e)))))"
  using ind
proof (induction "unat (trades_size e) - unat ind" arbitrary: ind acc)
  case 0
  then show ?case
    by (subst send_raw_loop.simps) (simp add: word_less_nat_alt in_window_def)
next
  case (Suc k)
  let ?n = "trades_size e" and ?ts = "records e"
  have lt: "ind < ?n" using Suc.hyps(2) by (simp add: word_less_nat_alt)
  have s: "unat (ind + 1) = Suc (unat ind)" by (rule unat_Suc_below[OF lt])
  have small: "unat ind < 2 ^ 58" using Suc.prems sz by linarith
  show ?case
  proof (cases "unat ind < length ?ts")
    case False
    then have "unat ind = length ?ts" using Suc.prems by simp
    moreover have "read_trade_data e ind = Inl (Read_failed ind)"
      using False by (simp add: read_trade_data_eq[OF rd small])
    moreover have "of_nat (unat ind) = ind" by simp
    ultimately show ?thesis using lt
      by (subst send_raw_loop.simps) (simp add: word_less_nat_alt)
  next
    case True
    then have "read_trade_data e ind = Inr (?ts ! unat ind)"
      by (simp add: read_trade_data_eq[OF rd small])
    moreover have "k = unat ?n - unat (ind + 1)" "unat (ind + 1) \<le> length ?ts"
      "unat (ind + 1) \<le> unat ?n"
      using Suc.hyps(2) s True Suc.prems by simp_all
    note IH = Suc.hyps(1)[OF this]
    moreover have "drop (unat ind) (take (unat ?n) ?ts)
        = ?ts ! unat ind # drop (Suc (unat ind)) (take (unat ?n) ?ts)"
      using True Suc.hyps(2) Cons_nth_drop_Suc[of "unat ind" "take (unat ?n) ?ts", symmetric] by simp
    ultimately show ?thesis using lt s
      by (subst send_raw_loop.simps) (simp add: in_window_def)
  qed
qed

text \<open>C31. The raw data of a query: on a file whose records \<open>trades_size\<close> counts right, \<open>send_raw_data\<close> returns exactly the records with
  \<open>start_time_point \<le> created_at < end_time_point\<close>, in file order (sorted or not).\<close>

theorem send_raw_data_correct:
  assumes "sized e"
  shows "send_raw_data e q =
    Inr (filter (\<lambda>x. start_time_point q \<le> created_at x \<and> created_at x < end_time_point q) (records e))"
  using send_raw_loop_spec[of e 0 q "[]"] sized_bounds[OF assms]
  by (simp add: send_raw_data_def in_window_def)

theorem send_raw_data_correct_witness:
  "send_raw_data (open_file 0 sample_trades)
     \<lparr>query_symbol_id = 1, start_time_point = 10, end_time_point = 20, resolution = 0, metrics = 0\<rparr>
   = Inr [hd sample_trades]"
  using send_raw_data_correct[OF sample_sized]
  by (simp add: sample_trades_def)

text \<open>On a file of at least 31 records \<open>send_raw_data\<close> returns nothing for any query: the
  loop runs to the inflated \<open>trades_size\<close>, reads one record past the end and throws.\<close>

theorem send_raw_data_crash:
  assumes "31 \<le> length ts" and "length ts < 2 ^ 57"
  shows "send_raw_data (open_file pad ts) q = Inl (Read_failed (of_nat (length ts)))"
proof -
  have "0 < length ts div 31" using assms(1) by (simp add: div_greater_zero_iff)
  moreover have "length ts + length ts div 31 < 2 ^ 58" using assms(2) by simp
  ultimately show ?thesis
    using send_raw_loop_spec[OF readable_open_file[OF assms(2)], of pad 0 q "[]"]
    by (simp add: send_raw_data_def trades_size_open_file[OF assms(2)])
qed

theorem send_raw_data_crash_witness:
  "send_raw_data (open_file 0 (replicate 40 (hd sample_trades)))
     \<lparr>query_symbol_id = 1, start_time_point = 10, end_time_point = 20, resolution = 0, metrics = 0\<rparr>
   = Inl (Read_failed 40)"
  using send_raw_data_crash[of "replicate 40 (hd sample_trades)" 0] by simp

end
