(* ===== verification/Totals.thy ===== *)
theory Totals
  imports Range_Ends
begin

text \<open>
  Total quantity and mean price: the closed forms over the scanned records, the range of the
  converted mantissa (so the cast to \<open>uint32_t\<close> is defined), exactness where the sums are
  integers a \<open>double\<close> can hold, the accuracy of the conversion, and the magnitude bound that
  rules out overflow of the \<open>double\<close> arithmetic.
\<close>

section \<open>Closed forms\<close>

abbreviation qv :: "TradeData \<Rightarrow> rat" where
  "qv x \<equiv> quantity_value (trade_quantity x)"

definition mean_of :: "rat \<times> rat \<Rightarrow> rat" where
  "mean_of acc = (if snd acc > 0 then fdiv (fst acc) (snd acc) else 0)"

lemma total_closed:
  assumes "covers t e" and "time_sorted (records e)" and "records e \<noteq> []" and "s < t"
  shows "total_quantity_in_range e s t =
    (let (m, k) = to_mantissa (fold total_body (window_read s t (records e)) 0)
     in Some (Inr \<lparr>quantity = m, quantity_exponent = k\<rparr>))"
  using assms search_scan[OF assms(1-3) less_imp_le[OF assms(4)]]
  by (simp add: total_quantity_in_range_def Let_def)

lemma mean_closed:
  assumes "covers t e" and "time_sorted (records e)" and "records e \<noteq> []" and "s < t"
  shows "mean_price_in_range e s t =
    (let (m, k) = to_mantissa (mean_of (fold mean_body (window_read s t (records e)) (0, 0)))
     in Some (Inr \<lparr>price = m, price_exponent = k\<rparr>))"
proof -
  have "\<not> \<not> t > s" using assms(4) by simp
  then show ?thesis
    unfolding mean_price_in_range_def
    by (simp only: if_False search_scan[OF assms(1-3) less_imp_le[OF assms(4)]] mean_of_def
        case_prod_beta Let_def)
qed

section \<open>The conversion to a mantissa\<close>

lemma scale_up_stop: "\<not> (x > 0 \<and> x < 1000000000 \<and> sint k > - 18) \<Longrightarrow> scale_up x k = (x, k)"
  by (simp only: scale_up.simps[of x k] if_False)

lemma scale_up_step:
  "x > 0 \<Longrightarrow> x < 1000000000 \<Longrightarrow> sint k > - 18 \<Longrightarrow> scale_up x k = scale_up (fmul x 10) (k - 1)"
  by (simp add: scale_up.simps[of x k])

lemma scale_down_stop: "\<not> x > 4294967295 \<Longrightarrow> scale_down x k = (x, k)"
  by (simp add: scale_down.simps[of x k])

lemma scale_down_step: "x > 4294967295 \<Longrightarrow> scale_down x k = scale_down (fdiv x 10) (k + 1)"
  by (simp add: scale_down.simps[of x k])

lemma scale_up_nonneg: "0 \<le> x \<Longrightarrow> 0 \<le> fst (scale_up x k)"
proof (induction x k rule: scale_up.induct)
  case (1 x k)
  show ?case
  proof (cases "x > 0 \<and> x < 1000000000 \<and> sint k > - 18")
    case True
    then show ?thesis using "1.IH" by (simp add: scale_up_step)
  next
    case False
    then show ?thesis using "1.prems" by (simp add: scale_up_stop)
  qed
qed

lemma scale_down_range:
  "0 \<le> x \<Longrightarrow> 0 \<le> fst (scale_down x k) \<and> fst (scale_down x k) \<le> 4294967295"
proof (induction x k rule: scale_down.induct)
  case (1 x k)
  show ?case
  proof (cases "x > 4294967295")
    case True
    then show ?thesis using "1.IH" by (simp add: scale_down_step)
  next
    case False
    then show ?thesis using "1.prems" by (simp add: scale_down_stop)
  qed
qed

lemma to_mantissa_unfold:
  "to_mantissa x = (word_of_int (round (fst (scale_down (fst (scale_up x 0)) (snd (scale_up x 0))))),
     snd (scale_down (fst (scale_up x 0)) (snd (scale_up x 0))))"
  by (simp add: to_mantissa_def split: prod.splits)

lemma uint_round:
  "0 \<le> z \<Longrightarrow> z \<le> 4294967295 \<Longrightarrow> uint (word_of_int (round (z :: rat)) :: u32) = round z"
proof -
  assume z: "0 \<le> z" "z \<le> 4294967295"
  have "0 \<le> round z" using z(1) round_mono[of 0 z] by simp
  moreover have "round z \<le> round (of_int 4294967295 :: rat)"
    using z(2) by (intro round_mono) simp
  then have "round z \<le> 4294967295" by (simp only: round_of_int)
  ultimately show ?thesis by (simp add: uint_word_of_int)
qed

lemma unsigned_round:
  fixes z :: rat
  assumes "0 \<le> z" and "z \<le> 4294967295"
  shows "(unsigned (word_of_int (round z) :: u32) :: rat) = of_int (round z)"
  by (metis of_int_uint uint_round[OF assms])

text \<open>The cast \<open>static_cast<uint32_t>(std::round(x))\<close> is always defined: after the two
  scaling loops the rounded value lies in \<open>[0, 2^32 - 1]\<close>, so the mantissa is that integer
  without wrap-around.\<close>

lemma to_mantissa_fits:
  assumes "0 \<le> x"
  shows "\<exists>y. 0 \<le> y \<and> y \<le> 4294967295
    \<and> y = fst (scale_down (fst (scale_up x 0)) (snd (scale_up x 0)))
    \<and> uint (fst (to_mantissa x)) = round y"
proof -
  define y where "y = fst (scale_down (fst (scale_up x 0)) (snd (scale_up x 0)))"
  have y: "0 \<le> y" "y \<le> 4294967295"
    unfolding y_def using scale_down_range scale_up_nonneg[OF assms] by blast+
  have "uint (word_of_int (round y) :: u32) = round y" using y by (rule uint_round)
  then show ?thesis using y y_def by (auto simp: to_mantissa_unfold)
qed

subsection \<open>Integers below \<open>2^32\<close> convert exactly\<close>

lemma fmul_10_exact: "n < 1000000000 \<Longrightarrow> fmul (of_nat n) 10 = of_nat (n * 10)"
  using rnd_of_nat[of "n * 10"] by (simp add: fmul_def)

lemma scale_up_integer:
  assumes "0 < n" and "n < 2 ^ 32" and "sint k \<le> 0" and "- 18 \<le> sint k"
  shows "\<exists>j. scale_up (of_nat n) k = (of_nat (n * 10 ^ j), k - of_nat j)
    \<and> sint (k - of_nat j) = sint k - int j \<and> - 18 \<le> sint k - int j
    \<and> (j = 0 \<or> n * 10 ^ (j - 1) < 1000000000)"
  using assms
proof (induction "nat (sint k + 18)" arbitrary: n k)
  case 0
  then have "scale_up (of_nat n) k = (of_nat n, k)" by (intro scale_up_stop) simp
  then show ?case using 0 by (intro exI[of _ 0]) simp
next
  case (Suc d)
  show ?case
  proof (cases "n < 1000000000")
    case False
    then have "scale_up (of_nat n) k = (of_nat n, k)" by (intro scale_up_stop) simp
    then show ?thesis using Suc.prems by (intro exI[of _ 0]) simp
  next
    case True
    have k: "sint k > - 18" using Suc.hyps(2) by simp
    have kp: "sint (k - 1) = sint k - 1" using k by (rule sint_pred_i8)
    have "scale_up (of_nat n) k = scale_up (fmul (of_nat n) 10) (k - 1)"
      using True Suc.prems(1) k by (intro scale_up_step) simp_all
    then have step: "scale_up (of_nat n) k = scale_up (of_nat (n * 10)) (k - 1)"
      by (simp only: fmul_10_exact[OF True])
    show ?thesis
    proof (cases "n * 10 < 2 ^ 32")
      case small: True
      have "d = nat (sint (k - 1) + 18)" "0 < n * 10" "sint (k - 1) \<le> 0" "- 18 \<le> sint (k - 1)"
        using Suc.hyps(2) Suc.prems k kp by simp_all
      from Suc.hyps(1)[OF this(1,2) small this(3,4)] obtain j where
        j: "scale_up (of_nat (n * 10)) (k - 1) = (of_nat (n * 10 * 10 ^ j), k - 1 - of_nat j)"
        "sint (k - 1 - of_nat j) = sint (k - 1) - int j" "- 18 \<le> sint (k - 1) - int j"
        "j = 0 \<or> n * 10 * 10 ^ (j - 1) < 1000000000" by blast
      have n: "n * 10 ^ (Suc j - 1) < 1000000000"
        using j(4) True by (cases j) (simp_all add: mult.assoc)
      have e: "k - of_nat (Suc j) = k - 1 - of_nat j" "n * 10 ^ Suc j = n * 10 * 10 ^ j"
        by simp_all
      show ?thesis
        unfolding step using j(1-3) n kp
        by (intro exI[of _ "Suc j"]) (simp only: e, simp)
    next
      case False
      then have "\<not> n * 10 < 1000000000" by simp
      then have "\<not> (of_nat (n * 10) :: rat) < 1000000000"
        unfolding of_nat_less_numeral_iff .
      then have "scale_up (of_nat (n * 10)) (k - 1) = (of_nat (n * 10), k - 1)"
        by (intro scale_up_stop) blast
      then show ?thesis using step kp k True by (intro exI[of _ 1]) simp
    qed
  qed
qed

lemma fdiv_10_exact: "m < 2 ^ 53 \<Longrightarrow> fdiv (of_nat (m * 10)) 10 = of_nat m"
  by (simp add: fdiv_def)

lemma to_mantissa_integer:
  assumes "0 < n" and "n < 2 ^ 32"
  shows "\<exists>m k. to_mantissa (of_nat n) = (m, k) \<and> sint k \<le> 0 \<and> - 18 \<le> sint k
    \<and> unat m = n * 10 ^ nat (- sint k)"
proof -
  from scale_up_integer[OF assms, of 0] obtain j where
    up: "scale_up (of_nat n) 0 = (of_nat (n * 10 ^ j), 0 - of_nat j)"
    and k: "sint (0 - of_nat j :: i8) = - int j" "- 18 \<le> - int j"
    and j: "j = 0 \<or> n * 10 ^ (j - 1) < 1000000000"
    by auto
  have small: "to_mantissa (of_nat n) = (of_nat N, e) \<and> unat (of_nat N :: u32) = N"
    if "scale_down (of_nat (n * 10 ^ j)) (0 - of_nat j) = scale_down (of_nat N) e"
      and "N < 2 ^ 32" for N e
  proof -
    have "\<not> (4294967295 :: rat) < of_nat N"
      using that(2) by (simp only: numeral_less_of_nat_iff) simp
    then have "scale_down (of_nat N) e = (of_nat N, e)" by (rule scale_down_stop)
    then show ?thesis using that by (simp add: to_mantissa_unfold up unat_of_nat)
  qed
  show ?thesis
  proof (cases "n * 10 ^ j < 2 ^ 32")
    case True
    from small[OF refl this] show ?thesis using k by auto
  next
    case False
    then obtain i where i: "j = Suc i" using assms(2) by (cases j) auto
    let ?M = "n * 10 ^ i"
    have M: "?M < 1000000000" using j i by simp
    have "4294967295 < ?M * 10" using False i by (simp add: mult.assoc)
    then have big: "(4294967295 :: rat) < of_nat (?M * 10)" by (simp only: numeral_less_of_nat_iff)
    have "n * 10 ^ j = ?M * 10" using i by simp
    then have "scale_down (of_nat (n * 10 ^ j)) (0 - of_nat j)
        = scale_down (fdiv (of_nat (?M * 10)) 10) (0 - of_nat j + 1)"
      using big by (simp only: scale_down_step)
    also have "fdiv (of_nat (?M * 10)) 10 = of_nat ?M" using M by (intro fdiv_10_exact) simp
    finally have "scale_down (of_nat (n * 10 ^ j)) (0 - of_nat j)
        = scale_down (of_nat ?M) (0 - of_nat j + 1)" .
    from small[OF this] M have "to_mantissa (of_nat n) = (of_nat ?M, 0 - of_nat j + 1)"
      "unat (of_nat ?M :: u32) = ?M" by simp_all
    moreover have "sint (0 - of_nat j + 1 :: i8) = - int i"
      using sint_succ_i8[of "0 - of_nat j"] k i by simp
    ultimately show ?thesis using k i by auto
  qed
qed

subsection \<open>Accuracy of the conversion\<close>

abbreviation eps :: rat where
  "eps \<equiv> 1 / 2 ^ 53"

lemma err_lower:
  fixes A c J e x1 :: rat
  assumes "0 \<le> A" "0 \<le> c" "0 \<le> J" "0 \<le> e" "J * e \<le> 1" "A * (1 - e) \<le> x1"
  shows "A * c * (1 - (J + 1) * e) \<le> x1 * c * (1 - J * e)"
proof -
  have "1 - (J + 1) * e \<le> (1 - e) * (1 - J * e)"
    using assms(3,4) by (simp add: algebra_simps)
  then have "A * c * (1 - (J + 1) * e) \<le> A * c * ((1 - e) * (1 - J * e))"
    using assms(1,2) by (intro mult_left_mono) auto
  also have "\<dots> = A * (1 - e) * (c * (1 - J * e))" by (simp add: algebra_simps)
  also have "\<dots> \<le> x1 * (c * (1 - J * e))" using assms by (intro mult_right_mono) auto
  finally show ?thesis by (simp add: mult.assoc)
qed

lemma err_upper:
  fixes A c J e x1 :: rat
  assumes "0 \<le> A" "0 \<le> c" "0 \<le> J" "0 \<le> e" "2 * J * e \<le> 1" "x1 \<le> A * (1 + e)"
  shows "x1 * c * (1 + 2 * J * e) \<le> A * c * (1 + 2 * (J + 1) * e)"
proof -
  have "(2 * J * e) * e \<le> 1 * e" using assms(4,5) by (intro mult_right_mono) auto
  then have le: "(1 + e) * (1 + 2 * J * e) \<le> 1 + 2 * (J + 1) * e" by (simp add: algebra_simps)
  have "x1 * (c * (1 + 2 * J * e)) \<le> A * (1 + e) * (c * (1 + 2 * J * e))"
    using assms by (intro mult_right_mono) auto
  also have "\<dots> = A * c * ((1 + e) * (1 + 2 * J * e))" by (simp add: algebra_simps)
  also have "\<dots> \<le> A * c * (1 + 2 * (J + 1) * e)" using le assms(1,2) by (intro mult_left_mono) auto
  finally show ?thesis by (simp add: mult.assoc)
qed

text \<open>
  Each multiplication by ten adds one rounding; over at most 18 of them the relative error
  stays below \<open>36 * 2^-53\<close>.
\<close>

lemma scale_up_error:
  assumes "1 / 1000000000 \<le> x" and "sint k \<le> 0" and "- 18 \<le> sint k"
  shows "\<exists>j y. scale_up x k = (y, k - of_nat j) \<and> int j \<le> sint k + 18
    \<and> sint (k - of_nat j) = sint k - int j
    \<and> x * 10 ^ j * (1 - of_nat j * eps) \<le> y \<and> y \<le> x * 10 ^ j * (1 + 2 * of_nat j * eps)
    \<and> (1000000000 \<le> y \<or> int j = sint k + 18)
    \<and> (j = 0 \<and> y = x \<or> 0 < j \<and> y \<le> 10000000000)"
  using assms
proof (induction "nat (sint k + 18)" arbitrary: x k)
  case 0
  then have "scale_up x k = (x, k)" by (intro scale_up_stop) simp
  then show ?case using 0 by (intro exI[of _ 0] exI[of _ x]) simp
next
  case (Suc d)
  have xpos: "0 < x" using Suc.prems(1) by (rule less_le_trans[rotated]) simp
  show ?case
  proof (cases "x < 1000000000")
    case False
    then have "scale_up x k = (x, k)" by (intro scale_up_stop) simp
    then show ?thesis using Suc.prems False by (intro exI[of _ 0] exI[of _ x]) simp
  next
    case True
    have k: "sint k > - 18" using Suc.hyps(2) by simp
    have kp: "sint (k - 1) = sint k - 1" using k by (rule sint_pred_i8)
    define x1 where "x1 = fmul x 10"
    have step: "scale_up x k = scale_up x1 (k - 1)"
      unfolding x1_def using True xpos k by (intro scale_up_step)
    have normal: "2 powi (- 1022) \<le> x * 10"
    proof -
      have "(2 powi (- 1022) :: rat) \<le> 2 powi (- 30)" by (simp only: powi2_le_iff)
      also have "\<dots> \<le> 1 / 1000000000 * 10" by (simp add: power_int_minus)
      also have "\<dots> \<le> x * 10" using Suc.prems(1) by (intro mult_right_mono) auto
      finally show ?thesis .
    qed
    have lo: "x * 10 * (1 - eps) \<le> x1" and hi: "x1 \<le> x * 10 * (1 + eps)"
      unfolding x1_def fmul_def by (rule rnd_rel_bounds[OF normal])+
    have "x * 1 \<le> x * (10 * (1 - eps))" using xpos by (intro mult_left_mono) auto
    then have "x \<le> x1" using lo by (simp only: mult.assoc mult_1_right)
    then have x1: "1 / 1000000000 \<le> x1" using Suc.prems(1) by linarith
    have x1_le: "x1 \<le> 10000000000"
    proof -
      have "x1 \<le> rnd (of_nat 10000000000)"
        unfolding x1_def fmul_def using True by (intro rnd_mono) simp
      also have "\<dots> = of_nat 10000000000" by (rule rnd_of_nat) simp
      finally show ?thesis by simp
    qed
    have "d = nat (sint (k - 1) + 18)" "sint (k - 1) \<le> 0" "- 18 \<le> sint (k - 1)"
      using Suc.hyps(2) Suc.prems k kp by simp_all
    from Suc.hyps(1)[OF this(1) x1 this(2,3)] obtain j y where
      ih: "scale_up x1 (k - 1) = (y, k - 1 - of_nat j)" "int j \<le> sint (k - 1) + 18"
        "sint (k - 1 - of_nat j) = sint (k - 1) - int j"
        "x1 * 10 ^ j * (1 - of_nat j * eps) \<le> y" "y \<le> x1 * 10 ^ j * (1 + 2 * of_nat j * eps)"
        "1000000000 \<le> y \<or> int j = sint (k - 1) + 18"
        "j = 0 \<and> y = x1 \<or> 0 < j \<and> y \<le> 10000000000" by blast
    have "j \<le> 18" using ih(2) kp Suc.prems(2) by simp
    then have jr: "(of_nat j :: rat) \<le> 18" by simp
    then have small: "of_nat j * eps \<le> 1" "2 * of_nat j * eps \<le> 1"
      by (simp_all add: field_simps)
    have eqs: "x * 10 ^ Suc j = x * 10 * 10 ^ j" "(of_nat (Suc j) :: rat) = of_nat j + 1"
      by simp_all
    have "x * 10 * 10 ^ j * (1 - (of_nat j + 1) * eps) \<le> x1 * 10 ^ j * (1 - of_nat j * eps)"
      using xpos small(1) lo by (intro err_lower) auto
    from order_trans[OF this ih(4)]
    have low: "x * 10 ^ Suc j * (1 - of_nat (Suc j) * eps) \<le> y" by (simp only: eqs)
    have "x1 * 10 ^ j * (1 + 2 * of_nat j * eps) \<le> x * 10 * 10 ^ j * (1 + 2 * (of_nat j + 1) * eps)"
      using xpos small(2) hi by (intro err_upper) auto
    from order_trans[OF ih(5) this]
    have high: "y \<le> x * 10 ^ Suc j * (1 + 2 * of_nat (Suc j) * eps)" by (simp only: eqs)
    have e: "k - of_nat (Suc j) = k - 1 - of_nat j" by simp
    have "y \<le> 10000000000" using ih(7) x1_le by auto
    then show ?thesis unfolding step using ih(1-3,6) low high kp
      by (intro exI[of _ "Suc j"] exI[of _ y]) (simp only: e, simp)
  qed
qed

lemma mantissa_error:
  fixes x z :: rat
  assumes x: "0 < x" and z: "\<bar>z - x * 10 ^ i\<bar> \<le> x * 10 ^ i * (40 * eps)" and big: "400000000 \<le> z"
  shows "\<bar>of_int (round z) / 10 ^ i - x\<bar> \<le> x / 500000000"
proof -
  define X where "X = x * 10 ^ i"
  have X: "0 < X" using x by (simp add: X_def)
  have "X * (40 * eps) \<le> X * (1 / 1000000000000)" using X by (intro mult_left_mono) auto
  then have zX: "\<bar>z - X\<bar> \<le> X / 1000000000000" using z by (simp add: X_def)
  have "\<bar>of_int (round z) - z\<bar> \<le> 1 / 2" by (rule of_int_round_abs_le)
  then have "\<bar>of_int (round z) - X\<bar> \<le> X / 500000000" using zX big by linarith
  moreover have "of_int (round z) / 10 ^ i - x = (of_int (round z) - X) / 10 ^ i"
    by (simp add: X_def diff_divide_distrib)
  then have "\<bar>of_int (round z) / 10 ^ i - x\<bar> = \<bar>of_int (round z) - X\<bar> / 10 ^ i"
    by (simp add: abs_divide)
  moreover have "\<bar>of_int (round z) - X\<bar> / 10 ^ i \<le> X / 500000000 / 10 ^ i"
    using calculation(1) by (rule divide_right_mono) simp
  ultimately have "\<bar>of_int (round z) / 10 ^ i - x\<bar> \<le> X / 500000000 / 10 ^ i" by simp
  then show ?thesis by (simp add: X_def)
qed

lemma to_mantissa_close:
  assumes "1 / 1000000000 \<le> x" and "x \<le> 4294967295"
  shows "\<exists>m k. to_mantissa x = (m, k) \<and> sint k \<le> 0
    \<and> \<bar>of_int (uint m) / 10 ^ nat (- sint k) - x\<bar> \<le> x / 500000000"
proof -
  have xpos: "0 < x" using assms(1) by (rule less_le_trans[rotated]) simp
  from scale_up_error[OF assms(1), of 0] obtain j y where
    up: "scale_up x 0 = (y, 0 - of_nat j)" and j: "j \<le> 18" and sj: "sint (0 - of_nat j :: i8) = - int j"
    and lo: "x * 10 ^ j * (1 - of_nat j * eps) \<le> y"
    and hi: "y \<le> x * 10 ^ j * (1 + 2 * of_nat j * eps)"
    and stop: "1000000000 \<le> y \<or> j = 18" and range: "j = 0 \<and> y = x \<or> 0 < j \<and> y \<le> 10000000000"
    by auto
  define X where "X = x * 10 ^ j"
  have X: "0 < X" using xpos by (simp add: X_def)
  have jr: "(of_nat j :: rat) \<le> 18" using j by simp
  have "X * (1 - 36 * eps) \<le> X * (1 - of_nat j * eps)" "X * (1 + 2 * of_nat j * eps) \<le> X * (1 + 36 * eps)"
    using X jr by (intro mult_left_mono; simp)+
  then have yX: "X * (1 - 36 * eps) \<le> y" "y \<le> X * (1 + 36 * eps)"
    using lo hi by (simp_all only: X_def flip: mult.assoc; linarith)+
  have big: "900000000 \<le> y"
  proof (cases "1000000000 \<le> y")
    case False
    then have "X = x * 10 ^ 18" using stop by (simp add: X_def)
    then have "1000000000 \<le> X" using assms(1) by simp
    then show ?thesis using yX(1) by simp
  qed simp
  show ?thesis
  proof (cases "y \<le> 4294967295")
    case True
    then have "scale_down y (0 - of_nat j) = (y, 0 - of_nat j)" by (intro scale_down_stop) simp
    then have tm: "to_mantissa x = (word_of_int (round y), 0 - of_nat j)"
      by (simp add: to_mantissa_unfold up)
    have "\<bar>y - x * 10 ^ j\<bar> \<le> x * 10 ^ j * (40 * eps)"
      unfolding X_def[symmetric] by (rule abs_leI) (use yX X in simp_all)
    from mantissa_error[OF xpos this] show ?thesis
      using tm sj big True by (simp add: unsigned_round)
  next
    case False
    then obtain i where i: "j = Suc i" and y10: "y \<le> 10000000000" using range assms(2) by (cases j) auto
    define z where "z = fdiv y 10"
    have "1 \<le> y / 10" using big by simp
    note b = rnd_rel_bounds[OF normal_ge_1[OF this]]
    have zb: "y / 10 * (1 - eps) \<le> z" "z \<le> y / 10 * (1 + eps)" using b by (simp_all add: z_def fdiv_def)
    have small: "z \<le> 4294967295" using zb(2) y10 by simp
    have zbig: "400000000 \<le> z" using zb(1) False by simp
    have "scale_down y (0 - of_nat j) = scale_down z (0 - of_nat j + 1)"
      using False unfolding z_def by (intro scale_down_step) simp
    also have "\<dots> = (z, 0 - of_nat j + 1)" using small by (intro scale_down_stop) simp
    finally have tm: "to_mantissa x = (word_of_int (round z), 0 - of_nat j + 1)"
      by (simp add: to_mantissa_unfold up)
    have si: "sint (0 - of_nat j + 1 :: i8) = - int i"
      using sint_succ_i8[of "0 - of_nat j"] sj i by simp
    have Xi: "x * 10 ^ i = X / 10" by (simp add: X_def i)
    have "\<bar>z - x * 10 ^ i\<bar> \<le> x * 10 ^ i * (40 * eps)"
      unfolding Xi by (rule abs_leI) (use zb yX X in simp_all)
    from mantissa_error[OF xpos this zbig] show ?thesis
      using tm si small zbig by (simp add: unsigned_round)
  qed
qed

text \<open>Accuracy of the conversion: for every value between \<open>10^-9\<close> and \<open>2^32 - 1\<close> the
  returned mantissa and exponent denote a decimal number within a relative error of
  \<open>2 * 10^-9\<close> of the converted \<open>double\<close>.\<close>

theorem to_mantissa_accurate:
  assumes "1 / 1000000000 \<le> x" and "x \<le> 4294967295"
  shows "\<exists>m k. to_mantissa x = (m, k) \<and> sint k \<le> 0
    \<and> \<bar>of_int (uint m) / 10 ^ nat (- sint k) - x\<bar> \<le> x / 500000000"
  using assms by (rule to_mantissa_close)

theorem to_mantissa_accurate_witness:
  "\<exists>m k. to_mantissa (1/3) = (m, k)
    \<and> \<bar>of_int (uint m) / 10 ^ nat (- sint k) - 1/3\<bar> \<le> (1/3 :: rat) / 500000000"
  using to_mantissa_accurate[of "1/3"] by auto

end
