(* ===== verification/Averages.thy ===== *)
theory Averages
  imports Totals
begin

text \<open>
  Total quantity and mean price over the records of an interval: exact sums and the correctly
  rounded volume-weighted mean where the sums are integers a \<open>double\<close> can hold, and the
  magnitude bounds that rule out overflow.
\<close>

section \<open>Integer data\<close>

definition qty_nat :: "TradeData \<Rightarrow> nat" where
  "qty_nat x = unat (quantity (trade_quantity x))"

definition price_nat :: "TradeData \<Rightarrow> nat" where
  "price_nat x = unat (price (trade_price x))"

definition integral :: "TradeData \<Rightarrow> bool" where
  "integral x \<longleftrightarrow> price_exponent (trade_price x) = 0 \<and> quantity_exponent (trade_quantity x) = 0"

lemma u32_exact: "rnd (of_nat (unat (w :: u32))) = of_nat (unat w)"
  using float_of_u32_eq[of w] by (simp only: float_of_u32_def)

lemma u32_times_one: "fmul (of_nat (unat (w :: u32))) 1 = of_nat (unat w)"
  unfolding fmul_def mult_1_right by (rule u32_exact)

lemma qv_integral: "quantity_exponent (trade_quantity x) = 0 \<Longrightarrow> qv x = of_nat (qty_nat x)"
  by (simp only: quantity_value_def float_of_u32_eq qty_nat_def sint_0 pow10_0 u32_times_one)

lemma pv_integral: "price_exponent (trade_price x) = 0 \<Longrightarrow> pv x = of_nat (price_nat x)"
  by (simp only: price_value_def float_of_u32_eq price_nat_def sint_0 pow10_0 u32_times_one)

lemma fadd_of_nat: "a + b < 2 ^ 53 \<Longrightarrow> fadd (of_nat a) (of_nat b) = of_nat (a + b)"
  unfolding fadd_def by (subst of_nat_add[symmetric]) (rule rnd_of_nat)

lemma fmul_of_nat: "a * b < 2 ^ 53 \<Longrightarrow> fmul (of_nat a) (of_nat b) = of_nat (a * b)"
  unfolding fmul_def by (subst of_nat_mult[symmetric]) (rule rnd_of_nat)

lemma fold_total_integral:
  assumes "\<forall>x \<in> set xs. quantity_exponent (trade_quantity x) = 0"
    and "a + (\<Sum>x\<leftarrow>xs. qty_nat x) < 2 ^ 53"
  shows "fold total_body xs (of_nat a) = of_nat (a + (\<Sum>x\<leftarrow>xs. qty_nat x))"
  using assms
proof (induction xs arbitrary: a)
  case Nil
  then show ?case by simp
next
  case (Cons x xs)
  then have "total_body x (of_nat a) = of_nat (a + qty_nat x)"
    by (simp add: total_body_def qv_integral fadd_of_nat del: of_nat_add)
  then show ?case using Cons.IH[of "a + qty_nat x"] Cons.prems
    by (simp add: add.assoc del: of_nat_add)
qed

lemma fold_mean_integral:
  assumes "\<forall>x \<in> set xs. integral x"
    and "a + (\<Sum>x\<leftarrow>xs. price_nat x * qty_nat x) < 2 ^ 53"
    and "b + (\<Sum>x\<leftarrow>xs. qty_nat x) < 2 ^ 53"
  shows "fold mean_body xs (of_nat a, of_nat b) =
    (of_nat (a + (\<Sum>x\<leftarrow>xs. price_nat x * qty_nat x)), of_nat (b + (\<Sum>x\<leftarrow>xs. qty_nat x)))"
  using assms
proof (induction xs arbitrary: a b)
  case Nil
  then show ?case by simp
next
  case (Cons x xs)
  then have "mean_body x (of_nat a, of_nat b) = (of_nat (a + price_nat x * qty_nat x), of_nat (b + qty_nat x))"
    by (simp add: mean_body_def integral_def qv_integral pv_integral fmul_of_nat fadd_of_nat
        del: of_nat_add of_nat_mult)
  then show ?case using Cons.IH[of "a + price_nat x * qty_nat x" "b + qty_nat x"] Cons.prems
    by (simp add: add.assoc del: of_nat_add of_nat_mult)
qed

text \<open>Functional correctness of \<open>total_quantity_in_range\<close> on integral quantities: when the
  quantities inside the interval have exponent 0 and sum to a positive number below \<open>2^32\<close>, the
  returned mantissa and exponent denote exactly the sum of the quantities of the trades inside
  the half-open interval.\<close>

theorem total_quantity_exact:
  assumes "covers t e" and "time_sorted (records e)" and "s < t"
    and "\<forall>x \<in> set (in_window s t (records e)). quantity_exponent (trade_quantity x) = 0"
    and "0 < (\<Sum>x\<leftarrow>in_window s t (records e). qty_nat x)"
    and "(\<Sum>x\<leftarrow>in_window s t (records e). qty_nat x) < 2 ^ 32"
  shows "\<exists>m k. total_quantity_in_range e s t = Some (Inr \<lparr>quantity = m, quantity_exponent = k\<rparr>)
    \<and> sint k \<le> 0
    \<and> unat m = (\<Sum>x\<leftarrow>in_window s t (records e). qty_nat x) * 10 ^ nat (- sint k)"
proof -
  let ?w = "in_window s t (records e)"
  let ?S = "\<Sum>x\<leftarrow>?w. qty_nat x"
  have ne: "?w \<noteq> []" using assms(5) by auto
  note w = nonempty_window[OF ne]
  have "fold total_body ?w (of_nat 0) = of_nat (0 + ?S)"
    using assms(4,6) by (intro fold_total_integral) auto
  then have f: "fold total_body (window_read s t (records e)) 0 = of_nat ?S" using w by simp
  from to_mantissa_integer[OF assms(5,6)] obtain m k where
    "to_mantissa (of_nat ?S) = (m, k)" "sint k \<le> 0" "unat m = ?S * 10 ^ nat (- sint k)" by blast
  then show ?thesis
    using total_closed[OF assms(1,2) _ assms(3)] w f by simp
qed

theorem total_quantity_exact_witness:
  "\<exists>m k. total_quantity_in_range (open_file 0 sample_trades) 10 30
       = Some (Inr \<lparr>quantity = m, quantity_exponent = k\<rparr>)
    \<and> sint k \<le> 0 \<and> unat m = 5 * 10 ^ nat (- sint k)"
  using total_quantity_exact[of 30 "open_file 0 sample_trades" 10] sample_covers sample_sorted
  by (auto simp: in_window_def sample_trades_def qty_nat_def)

lemma mean_vwap:
  assumes "covers t e" and "time_sorted (records e)" and "s < t"
    and "\<forall>x \<in> set (in_window s t (records e)). integral x"
    and "(\<Sum>x\<leftarrow>in_window s t (records e). price_nat x * qty_nat x) < 2 ^ 53"
    and "0 < (\<Sum>x\<leftarrow>in_window s t (records e). qty_nat x)"
    and "(\<Sum>x\<leftarrow>in_window s t (records e). qty_nat x) < 2 ^ 53"
  shows "mean_price_in_range e s t =
    (let (m, k) = to_mantissa (rnd (of_nat (\<Sum>x\<leftarrow>in_window s t (records e). price_nat x * qty_nat x)
         / of_nat (\<Sum>x\<leftarrow>in_window s t (records e). qty_nat x)))
     in Some (Inr \<lparr>price = m, price_exponent = k\<rparr>))"
proof -
  let ?w = "in_window s t (records e)"
  have ne: "?w \<noteq> []" using assms(6) by auto
  note w = nonempty_window[OF ne]
  have "fold mean_body ?w (of_nat 0, of_nat 0)
      = (of_nat (0 + (\<Sum>x\<leftarrow>?w. price_nat x * qty_nat x)), of_nat (0 + (\<Sum>x\<leftarrow>?w. qty_nat x)))"
    using assms(4-7) by (intro fold_mean_integral) auto
  then have "fold mean_body (window_read s t (records e)) (0, 0)
      = (of_nat (\<Sum>x\<leftarrow>?w. price_nat x * qty_nat x), of_nat (\<Sum>x\<leftarrow>?w. qty_nat x))"
    using w by simp
  moreover have "(0 :: rat) < of_nat (\<Sum>x\<leftarrow>?w. qty_nat x)" using assms(6) by (simp only: of_nat_0_less_iff)
  ultimately show ?thesis
    using mean_closed[OF assms(1,2) _ assms(3)] w by (simp add: mean_of_def fdiv_def)
qed

text \<open>The weighted mean lies between the extreme prices, and rounding keeps it there.\<close>

lemma weighted_mean_bounds:
  assumes "\<forall>x \<in> set xs. lo \<le> price_nat x \<and> price_nat x \<le> hi"
  shows "lo * (\<Sum>x\<leftarrow>xs. qty_nat x) \<le> (\<Sum>x\<leftarrow>xs. price_nat x * qty_nat x)"
    and "(\<Sum>x\<leftarrow>xs. price_nat x * qty_nat x) \<le> hi * (\<Sum>x\<leftarrow>xs. qty_nat x)"
  using assms by (induction xs) (auto simp: algebra_simps intro!: add_mono mult_le_mono)

text \<open>The mean price lies between the extreme prices of the trades inside the interval: the
  value converted to the returned price is at least \<open>lo\<close> and at most \<open>hi\<close> whenever all
  mantissas of the (integral) trades inside the interval are.\<close>

lemma mean_price_between:
  assumes "covers t e" and "time_sorted (records e)" and "s < t"
    and "\<forall>x \<in> set (in_window s t (records e)). integral x"
    and "(\<Sum>x\<leftarrow>in_window s t (records e). price_nat x * qty_nat x) < 2 ^ 53"
    and "0 < (\<Sum>x\<leftarrow>in_window s t (records e). qty_nat x)"
    and "(\<Sum>x\<leftarrow>in_window s t (records e). qty_nat x) < 2 ^ 53"
    and "\<forall>x \<in> set (in_window s t (records e)). lo \<le> price_nat x \<and> price_nat x \<le> hi"
    and "hi < 2 ^ 32"
  shows "\<exists>v m k. mean_price_in_range e s t = Some (Inr \<lparr>price = m, price_exponent = k\<rparr>)
    \<and> (m, k) = to_mantissa v \<and> of_nat lo \<le> v \<and> v \<le> of_nat hi"
proof -
  let ?w = "in_window s t (records e)"
  define Q where "Q = (\<Sum>x\<leftarrow>?w. qty_nat x)"
  define PQ where "PQ = (\<Sum>x\<leftarrow>?w. price_nat x * qty_nat x)"
  define v where "v = rnd (of_nat PQ / of_nat Q)"
  have Q: "(0 :: rat) < of_nat Q" using assms(6) by (simp add: Q_def)
  have b: "lo * Q \<le> PQ" "PQ \<le> hi * Q"
    unfolding Q_def PQ_def using weighted_mean_bounds[OF assms(8)] by blast+
  have "lo * Q \<le> hi * Q" using b by (rule order_trans)
  then have "lo \<le> hi" using Q by simp
  then have lh: "lo < 2 ^ 53" "hi < 2 ^ 53" using assms(9) by simp_all
  have "of_nat lo * of_nat Q \<le> (of_nat PQ :: rat)"
    using b(1) by (simp only: of_nat_le_iff flip: of_nat_mult)
  then have "of_nat lo \<le> of_nat PQ / (of_nat Q :: rat)" by (simp only: pos_le_divide_eq[OF Q])
  then have "rnd (of_nat lo) \<le> v" unfolding v_def by (rule rnd_mono)
  then have lo: "of_nat lo \<le> v" by (simp only: rnd_of_nat[OF lh(1)])
  have "(of_nat PQ :: rat) \<le> of_nat hi * of_nat Q"
    using b(2) by (simp only: of_nat_le_iff flip: of_nat_mult)
  then have "of_nat PQ / (of_nat Q :: rat) \<le> of_nat hi" by (simp only: pos_divide_le_eq[OF Q])
  then have "v \<le> rnd (of_nat hi)" unfolding v_def by (rule rnd_mono)
  then have hi: "v \<le> of_nat hi" by (simp only: rnd_of_nat[OF lh(2)])
  obtain m k where mk: "to_mantissa v = (m, k)" by (cases "to_mantissa v")
  have "mean_price_in_range e s t =
      (let (m, k) = to_mantissa v in Some (Inr \<lparr>price = m, price_exponent = k\<rparr>))"
    unfolding v_def PQ_def Q_def by (rule mean_vwap[OF assms(1-7)])
  then show ?thesis using lo hi mk by (intro exI[of _ v] exI[of _ m] exI[of _ k]) simp
qed

section \<open>No overflow\<close>

lemma mean_body_pair: "mean_body x (a, b) = (fadd a (fmul (pv x) (qv x)), fadd b (qv x))"
  by (simp add: mean_body_def Let_def)

lemma fold_total_snoc: "fold total_body (xs @ [x]) a = fadd (fold total_body xs a) (qv x)"
  by (simp add: total_body_def[of x])

lemma pow10_le: "k \<le> 127 \<Longrightarrow> pow10 k \<le> 2 powi 422"
proof -
  assume "k \<le> 127"
  then have "(10::rat) powi k \<le> 10 powi 127" by (intro power_int_increasing) auto
  also have "\<dots> \<le> 2 powi 422" by simp
  finally show ?thesis unfolding pow10_def by (rule rnd_below_pow2) simp
qed

lemma value_le: "fmul (float_of_u32 w) (pow10 (sint (k :: i8))) \<le> 2 powi 454"
proof -
  have "unat w < 2 ^ 32" using unat_lt2p[of w] by simp
  then have "(of_nat (unat w) :: rat) \<le> of_nat (2 ^ 32)" by (simp only: of_nat_le_iff)
  then have "of_nat (unat w) * pow10 (sint k) \<le> 2 ^ 32 * 2 powi 422"
    using pow10_le[OF sint_i8_bounds(2)[of k]] by (intro mult_mono) auto
  also have "\<dots> = 2 powi 454" by simp
  finally show ?thesis unfolding fmul_def float_of_u32_eq by (rule rnd_below_pow2) simp
qed

lemma pv_le: "pv x \<le> 2 powi 454" and qv_le: "qv x \<le> 2 powi 454"
  unfolding price_value_def quantity_value_def by (rule value_le)+

lemma pq_le: "fmul (pv x) (qv x) \<le> 2 powi 908"
proof -
  have "pv x * qv x \<le> 2 powi 454 * 2 powi 454"
    using pv_le[of x] qv_le[of x] by (intro mult_mono) (auto simp: price_value_def quantity_value_def)
  also have "\<dots> = 2 powi 908" by (simp flip: power_int_add)
  finally show ?thesis unfolding fmul_def by (rule rnd_below_pow2) simp
qed

text \<open>A sum of \<open>n\<close> terms below \<open>2^k\<close> stays below \<open>n * 2^k\<close>, a double while \<open>n < 2^53\<close>.\<close>

lemma fadd_le_multiple:
  assumes "a \<le> of_nat n * 2 powi k" and "x \<le> 2 powi k" and "Suc n < 2 ^ 53" and "- 1074 \<le> k"
  shows "fadd a x \<le> of_nat (Suc n) * 2 powi k"
proof -
  have "a + x \<le> of_nat (Suc n) * 2 powi k" using assms(1,2) by (simp add: distrib_right)
  then have "fadd a x \<le> rnd (of_int (int (Suc n)) * 2 powi k)"
    unfolding fadd_def by (intro rnd_mono) simp
  also have "\<dots> = of_int (int (Suc n)) * 2 powi k" using assms(3,4) by (intro rnd_exact) auto
  finally show ?thesis by simp
qed

lemma fold_mean_le:
  assumes "length xs < 2 ^ 53"
  shows "fst (fold mean_body xs (0, 0)) \<le> of_nat (length xs) * 2 powi 908
    \<and> snd (fold mean_body xs (0, 0)) \<le> of_nat (length xs) * 2 powi 454"
  using assms
proof (induction xs rule: rev_induct)
  case Nil
  then show ?case by simp
next
  case (snoc x xs)
  obtain a b where ab: "fold mean_body xs (0, 0) = (a, b)" by (cases "fold mean_body xs (0, 0)")
  have "a \<le> of_nat (length xs) * 2 powi 908" "b \<le> of_nat (length xs) * 2 powi 454"
    using snoc ab by simp_all
  then have "fadd a (fmul (pv x) (qv x)) \<le> of_nat (Suc (length xs)) * 2 powi 908"
    "fadd b (qv x) \<le> of_nat (Suc (length xs)) * 2 powi 454"
    using snoc.prems pq_le qv_le by (intro fadd_le_multiple; simp)+
  then show ?case by (simp add: ab mean_body_pair)
qed

lemma fold_total_le:
  assumes "length xs < 2 ^ 53"
  shows "fold total_body xs 0 \<le> of_nat (length xs) * 2 powi 454"
  using assms
proof (induction xs rule: rev_induct)
  case Nil
  then show ?case by simp
next
  case (snoc x xs)
  then have "fadd (fold total_body xs 0) (qv x) \<le> of_nat (Suc (length xs)) * 2 powi 454"
    using qv_le by (intro fadd_le_multiple) auto
  then show ?case by (simp only: fold_total_snoc length_append_singleton)
qed

text \<open>No overflow of the \<open>double\<close> accumulators: over any list of fewer than \<open>2^53\<close>
  records, whatever their mantissas and exponents, the running sums of both metrics stay below
  \<open>2^1023\<close>, inside the range of binary64.\<close>

theorem accumulators_bounded:
  assumes "length xs < 2 ^ 53"
  shows "fst (fold mean_body xs (0, 0)) \<le> 2 powi 961
    \<and> snd (fold mean_body xs (0, 0)) \<le> 2 powi 507 \<and> fold total_body xs 0 \<le> 2 powi 507"
proof -
  have "length xs \<le> 2 ^ 53" using assms by simp
  then have n: "(of_nat (length xs) :: rat) \<le> of_nat (2 ^ 53)" by (simp only: of_nat_le_iff)
  have m: "of_nat (length xs) * 2 powi k \<le> (2 powi (53 + k) :: rat)" for k
  proof -
    have "of_nat (length xs) * 2 powi k \<le> (of_nat (2 ^ 53) * 2 powi k :: rat)"
      using n by (rule mult_right_mono) simp
    also have "\<dots> = 2 powi (53 + k)" by (simp add: power_int_add)
    finally show ?thesis .
  qed
  have "fst (fold mean_body xs (0, 0)) \<le> 2 powi (53 + 908)"
    "snd (fold mean_body xs (0, 0)) \<le> 2 powi (53 + 454)"
    "fold total_body xs 0 \<le> 2 powi (53 + 454)"
    using fold_mean_le[OF assms] fold_total_le[OF assms] m[of 908] m[of 454]
    by (blast intro: order_trans)+
  then show ?thesis by (simp only: arith_simps simp_thms)
qed

theorem accumulators_bounded_witness: "fold total_body sample_trades 0 \<le> 2 powi 507"
  using accumulators_bounded[of sample_trades] by (simp add: sample_trades_def)

end
