(* ===== verification/Accuracy.thy ===== *)
theory Accuracy
  imports Averages
begin

text \<open>
  Error analysis of the two sums for arbitrary exponents: how far the returned quantity and price
  can be from the exact decimal sum and the exact volume-weighted mean of the trades inside the
  interval. \<open>near n a b\<close> says that \<open>a\<close> and \<open>b\<close> agree up to \<open>n\<close> roundings; it composes along the
  operations of the code.
\<close>

section \<open>Closeness up to n roundings\<close>

definition near :: "nat \<Rightarrow> rat \<Rightarrow> rat \<Rightarrow> bool" where
  "near n a b \<longleftrightarrow> b * (1 - eps) ^ n \<le> a \<and> a * (1 - eps) ^ n \<le> b"

abbreviation shrink :: rat where
  "shrink \<equiv> 1 - eps"

lemma near_refl: "0 \<le> a \<Longrightarrow> near 0 a a"
  by (simp add: near_def)

lemma near_sym: "near n a b \<Longrightarrow> near n b a"
  by (simp add: near_def)

lemma near_trans:
  assumes "near n a b" and "near m b c"
  shows "near (n + m) a c"
proof -
  have p: "(0::rat) \<le> shrink ^ k" for k by simp
  have "c * shrink ^ m * shrink ^ n \<le> b * shrink ^ n"
    using assms p by (intro mult_right_mono) (auto simp: near_def)
  moreover have "a * shrink ^ n * shrink ^ m \<le> b * shrink ^ m"
    using assms p by (intro mult_right_mono) (auto simp: near_def)
  moreover have "c * shrink ^ (n + m) = c * shrink ^ m * shrink ^ n"
    "a * shrink ^ (n + m) = a * shrink ^ n * shrink ^ m"
    by (simp_all only: power_add ac_simps)
  ultimately show ?thesis using assms unfolding near_def by linarith
qed

lemma near_mono:
  assumes "near n a b" and "n \<le> m" and "0 \<le> a" and "0 \<le> b"
  shows "near m a b"
proof -
  have "shrink ^ m \<le> shrink ^ n" using assms(2) by (intro power_decreasing) auto
  then have "b * shrink ^ m \<le> b * shrink ^ n" "a * shrink ^ m \<le> a * shrink ^ n"
    using assms(3,4) by (intro mult_left_mono; simp)+
  then show ?thesis using assms(1) unfolding near_def by linarith
qed

lemma near_mult:
  assumes "near n a b" and "near m c d" and "0 \<le> a" "0 \<le> b" "0 \<le> c" "0 \<le> d"
  shows "near (n + m) (a * c) (b * d)"
proof -
  have "(b * shrink ^ n) * (d * shrink ^ m) \<le> a * c"
    "(a * shrink ^ n) * (c * shrink ^ m) \<le> b * d"
    using assms by (auto simp: near_def intro!: mult_mono)
  moreover have "b * d * shrink ^ (n + m) = (b * shrink ^ n) * (d * shrink ^ m)"
    "a * c * shrink ^ (n + m) = (a * shrink ^ n) * (c * shrink ^ m)"
    by (simp_all only: power_add ac_simps)
  ultimately show ?thesis unfolding near_def by linarith
qed

lemma near_inverse:
  assumes "near n a b" and "0 < a" and "0 < b"
  shows "near n (inverse a) (inverse b)"
proof -
  have "shrink ^ n * a \<le> b" "shrink ^ n * b \<le> a" using assms by (simp_all add: near_def mult.commute)
  then have "shrink ^ n * inverse b \<le> inverse a" "shrink ^ n * inverse a \<le> inverse b"
    using assms(2,3) by (simp_all add: field_simps)
  then show ?thesis by (simp add: near_def mult.commute)
qed

lemma near_add:
  assumes "near n a b" and "near n c d"
  shows "near n (a + c) (b + d)"
  using assms unfolding near_def by (auto simp only: distrib_right intro: add_mono)

lemma near_rnd:
  assumes "x = 0 \<or> 2 powi (- 1022) \<le> x"
  shows "near 1 (rnd x) x"
proof (cases "x = 0")
  case True
  then show ?thesis by (simp add: near_def rnd_def)
next
  case False
  then have n: "2 powi (- 1022) \<le> x" using assms by blast
  then have x: "0 < x" by (rule less_le_trans[rotated]) simp
  have "rnd x * shrink \<le> x * (1 + eps) * shrink"
    using rnd_rel_bounds(2)[OF n] by (intro mult_right_mono) auto
  also have "\<dots> = x * (1 - eps * eps)" by (simp add: algebra_simps)
  also have "\<dots> \<le> x * 1" using x by (intro mult_left_mono) auto
  finally show ?thesis using rnd_rel_bounds(1)[OF n] by (simp add: near_def)
qed

lemma shrink_power: "1 - of_nat n * eps \<le> shrink ^ n"
proof (induction n)
  case (Suc n)
  have "(1 - of_nat n * eps) * shrink \<le> shrink ^ n * shrink"
    using Suc.IH by (rule mult_right_mono) simp
  moreover have "1 - of_nat (Suc n) * eps \<le> (1 - of_nat n * eps) * shrink"
    by (simp add: algebra_simps)
  ultimately show ?case unfolding power_Suc2 by (rule order_trans[rotated])
qed simp

text \<open>The absolute error of \<open>n\<close> roundings, \<open>n\<close> small.\<close>

lemma near_error:
  assumes "near n a b" and "0 \<le> a" and "0 \<le> b" and "n \<le> 2 ^ 22"
  shows "\<bar>a - b\<bar> \<le> b / 1000000000"
proof -
  define d where "d = of_nat n * eps"
  have "(of_nat n :: rat) \<le> of_nat (2 ^ 22)" using assms(4) by (simp only: of_nat_le_iff)
  then have d: "0 \<le> d" "d \<le> 1 / 2 ^ 31" unfolding d_def by (simp_all add: divide_le_eq)
  have "b * (1 - d) \<le> b * shrink ^ n" "a * (1 - d) \<le> a * shrink ^ n"
    unfolding d_def using assms(2,3) shrink_power by (intro mult_left_mono; simp)+
  then have b: "b * (1 - d) \<le> a" and a: "a * (1 - d) \<le> b"
    using assms(1) unfolding near_def by linarith+
  have bd: "b * d \<le> b * (1 / 2 ^ 31)" "a * d \<le> a * (1 / 2 ^ 31)"
    using d assms(2,3) by (intro mult_left_mono; simp)+
  have "b - b / 1000000000 \<le> a" using b bd(1) assms(3) by (simp add: algebra_simps)
  moreover have "a \<le> b + b / 1000000000"
    using a bd(2) assms(2,3) by (simp add: algebra_simps)
  ultimately show ?thesis by linarith
qed

section \<open>The values of a record\<close>

definition exact_price :: "TradeData \<Rightarrow> rat" where
  "exact_price x = of_nat (price_nat x) * 10 powi sint (price_exponent (trade_price x))"

definition exact_quantity :: "TradeData \<Rightarrow> rat" where
  "exact_quantity x = of_nat (qty_nat x) * 10 powi sint (quantity_exponent (trade_quantity x))"

lemma exact_nonneg [simp]: "0 \<le> exact_price x" "0 \<le> exact_quantity x"
  by (simp_all add: exact_price_def exact_quantity_def)

lemma ten_powi_ge: "- 128 \<le> k \<Longrightarrow> (2::rat) powi (- 430) \<le> 10 powi k"
proof -
  assume "- 128 \<le> k"
  then have "(10::rat) powi (- 128) \<le> 10 powi k" by (intro power_int_increasing) auto
  moreover have "(2::rat) powi (- 430) \<le> 10 powi (- 128)"
  proof -
    have "(10::rat) ^ 128 \<le> 2 ^ 430" by simp
    then have "inverse ((2::rat) ^ 430) \<le> inverse (10 ^ 128)" by (intro le_imp_inverse_le) auto
    then show ?thesis by (simp add: power_int_minus)
  qed
  ultimately show ?thesis by linarith
qed

lemma rnd_ge_pow2: "2 powi k \<le> x \<Longrightarrow> - 1074 \<le> k \<Longrightarrow> 2 powi k \<le> rnd x"
  using rnd_mono[of "2 powi k" x] rnd_exact[of 1 k] by simp

lemma normal_powi: "- 1022 \<le> k \<Longrightarrow> 2 powi k \<le> x \<Longrightarrow> (2::rat) powi (- 1022) \<le> x"
  by (rule order_trans[of _ "2 powi k"]) (simp only: powi2_le_iff)

lemma scaled_value_near:
  fixes m :: nat
  assumes "- 128 \<le> k"
  shows "near 2 (fmul (of_nat m) (pow10 k)) (of_nat m * 10 powi k)"
    and "fmul (of_nat m) (pow10 k) = 0 \<or> 2 powi (- 430) \<le> fmul (of_nat m) (pow10 k)"
proof -
  have p: "2 powi (- 430) \<le> pow10 k"
    unfolding pow10_def by (rule rnd_ge_pow2[OF ten_powi_ge[OF assms]]) simp
  have mp: "2 powi (- 430) \<le> of_nat m * pow10 k" if "0 < m"
  proof -
    have "1 * pow10 k \<le> of_nat m * pow10 k" using that by (intro mult_right_mono) auto
    then show ?thesis using p by linarith
  qed
  show "fmul (of_nat m) (pow10 k) = 0 \<or> 2 powi (- 430) \<le> fmul (of_nat m) (pow10 k)"
    using rnd_ge_pow2[OF mp] by (cases "m = 0") (auto simp: fmul_def rnd_def[of 0])
  have "of_nat m * pow10 k = 0 \<or> 2 powi (- 1022) \<le> of_nat m * pow10 k"
    using normal_powi[OF _ mp] by (cases "m = 0") auto
  then have 1: "near 1 (fmul (of_nat m) (pow10 k)) (of_nat m * pow10 k)"
    unfolding fmul_def by (rule near_rnd)
  have "2 powi (- 1022) \<le> (10::rat) powi k" by (rule normal_powi[OF _ ten_powi_ge[OF assms]]) simp
  then have "near 1 (pow10 k) (10 powi k)" unfolding pow10_def by (intro near_rnd) blast
  from near_mult[OF near_refl this, of "of_nat m"]
  have "near (0 + 1) (of_nat m * pow10 k) (of_nat m * 10 powi k)" by simp
  from near_trans[OF 1 this] show "near 2 (fmul (of_nat m) (pow10 k)) (of_nat m * 10 powi k)"
    by (simp add: numeral_2_eq_2)
qed

lemma pv_near: "near 2 (pv x) (exact_price x)"
  and pv_range: "pv x = 0 \<or> 2 powi (- 430) \<le> pv x"
  unfolding price_value_def exact_price_def float_of_u32_eq price_nat_def
  by (rule scaled_value_near[OF sint_i8_bounds(1)])+

lemma qv_near: "near 2 (qv x) (exact_quantity x)"
  and qv_range: "qv x = 0 \<or> 2 powi (- 430) \<le> qv x"
  unfolding quantity_value_def exact_quantity_def float_of_u32_eq qty_nat_def
  by (rule scaled_value_near[OF sint_i8_bounds(1)])+

lemma value_nonneg: "0 \<le> pv x" "0 \<le> qv x"
  by (simp_all add: price_value_def quantity_value_def)

lemma pq_range: "fmul (pv x) (qv x) = 0 \<or> 2 powi (- 860) \<le> fmul (pv x) (qv x)"
  and pq_arg: "pv x * qv x = 0 \<or> 2 powi (- 1022) \<le> pv x * qv x"
proof -
  have big: "2 powi (- 860) \<le> pv x * qv x" if "pv x \<noteq> 0" "qv x \<noteq> 0"
  proof -
    have "(2 powi (- 430) :: rat) * 2 powi (- 430) \<le> pv x * qv x"
      using that pv_range[of x] qv_range[of x] by (intro mult_mono value_nonneg) auto
    then show ?thesis by (simp flip: power_int_add)
  qed
  show "fmul (pv x) (qv x) = 0 \<or> 2 powi (- 860) \<le> fmul (pv x) (qv x)"
    using rnd_ge_pow2[OF big] by (cases "pv x = 0 \<or> qv x = 0") (auto simp: fmul_def rnd_def[of 0])
  show "pv x * qv x = 0 \<or> 2 powi (- 1022) \<le> pv x * qv x"
    using normal_powi[OF _ big] by (cases "pv x = 0 \<or> qv x = 0") auto
qed

lemma pq_near: "near 5 (fmul (pv x) (qv x)) (exact_price x * exact_quantity x)"
proof -
  have "near 1 (fmul (pv x) (qv x)) (pv x * qv x)"
    unfolding fmul_def by (rule near_rnd[OF pq_arg])
  moreover have "near (2 + 2) (pv x * qv x) (exact_price x * exact_quantity x)"
    by (intro near_mult pv_near qv_near value_nonneg exact_nonneg)
  ultimately have "near (1 + (2 + 2)) (fmul (pv x) (qv x)) (exact_price x * exact_quantity x)"
    by (rule near_trans)
  then show ?thesis by simp
qed

section \<open>The running sums\<close>

lemma near_fold:
  assumes "\<And>x. x \<in> set xs \<Longrightarrow> near n (f x) (g x) \<and> 0 \<le> g x \<and> (f x = 0 \<or> 2 powi (- 1022) \<le> f x)"
    and "near (n + k) a b" and "0 \<le> b" and "a = 0 \<or> 2 powi (- 1022) \<le> a"
  shows "near (n + k + length xs) (fold (\<lambda>x acc. fadd acc (f x)) xs a) (b + (\<Sum>x\<leftarrow>xs. g x))
    \<and> 0 \<le> fold (\<lambda>x acc. fadd acc (f x)) xs a"
  using assms
proof (induction xs arbitrary: a b k)
  case Nil
  have "0 \<le> a" using Nil.prems(4) by (auto intro: order_trans[OF zero_le_power_int])
  then show ?case using Nil.prems(2) by simp
next
  case (Cons x xs)
  have x: "near n (f x) (g x)" "0 \<le> g x" "f x = 0 \<or> 2 powi (- 1022) \<le> f x"
    using Cons.prems(1)[of x] by simp_all
  have pos: "0 \<le> a" "0 \<le> f x"
    using Cons.prems(4) x(3) by (auto intro: order_trans[OF zero_le_power_int])
  have arg: "a + f x = 0 \<or> 2 powi (- 1022) \<le> a + f x" using Cons.prems(4) x(3) pos by auto
  have "near (n + k) (f x) (g x)" using x pos by (intro near_mono[OF x(1)]) auto
  from near_trans[OF near_rnd[OF arg] near_add[OF Cons.prems(2) this]]
  have "near (n + Suc k) (fadd a (f x)) (b + g x)" by (simp add: fadd_def)
  moreover have "fadd a (f x) = 0 \<or> 2 powi (- 1022) \<le> fadd a (f x)"
    using arg rnd_ge_pow2[of "- 1022" "a + f x"] by (auto simp: fadd_def rnd_def[of 0])
  ultimately show ?case
    using Cons.IH[of "Suc k" "fadd a (f x)" "b + g x"] Cons.prems(1,3) x(2)
    by (simp add: add.assoc)
qed

lemma range_normal: "x = 0 \<or> 2 powi k \<le> x \<Longrightarrow> - 1022 \<le> k \<Longrightarrow> x = 0 \<or> (2::rat) powi (- 1022) \<le> x"
  using normal_powi by blast

lemma near_zero: "near n 0 0"
  by (simp add: near_def)

lemma fold_total_near:
  "near (2 + length xs) (fold total_body xs 0) (\<Sum>x\<leftarrow>xs. exact_quantity x) \<and> 0 \<le> fold total_body xs 0"
proof -
  have "total_body = (\<lambda>x acc. fadd acc (qv x))" by (intro ext) (simp add: total_body_def)
  then show ?thesis
    using near_fold[of xs 2 qv exact_quantity 0 0 0] qv_near range_normal[OF qv_range]
    by (simp add: near_zero)
qed

lemma fold_mean_split:
  "fold mean_body xs (a, b) =
    (fold (\<lambda>x acc. fadd acc (fmul (pv x) (qv x))) xs a, fold (\<lambda>x acc. fadd acc (qv x)) xs b)"
  by (induction xs arbitrary: a b) (simp_all add: mean_body_pair)

lemma fold_mean_near:
  assumes "fold mean_body xs (0, 0) = (pq, q)"
  shows "near (5 + length xs) pq (\<Sum>x\<leftarrow>xs. exact_price x * exact_quantity x) \<and> 0 \<le> pq"
    and "near (2 + length xs) q (\<Sum>x\<leftarrow>xs. exact_quantity x) \<and> 0 \<le> q"
proof -
  have e: "pq = fold (\<lambda>x acc. fadd acc (fmul (pv x) (qv x))) xs 0"
    "q = fold (\<lambda>x acc. fadd acc (qv x)) xs 0"
    using assms by (simp_all add: fold_mean_split)
  show "near (5 + length xs) pq (\<Sum>x\<leftarrow>xs. exact_price x * exact_quantity x) \<and> 0 \<le> pq"
    using near_fold[of xs 5 "\<lambda>x. fmul (pv x) (qv x)" "\<lambda>x. exact_price x * exact_quantity x" 0 0 0]
      pq_near range_normal[OF pq_range]
    by (simp add: e near_zero)
  show "near (2 + length xs) q (\<Sum>x\<leftarrow>xs. exact_quantity x) \<and> 0 \<le> q"
    using near_fold[of xs 2 qv exact_quantity 0 0 0] qv_near range_normal[OF qv_range]
    by (simp add: e near_zero)
qed

section \<open>The returned decimals\<close>

lemma converted_error:
  assumes "\<bar>x - S\<bar> \<le> S / 1000000000" and "1 / 500000000 \<le> S" and "S \<le> 4294967000"
  shows "\<exists>m k. to_mantissa x = (m, k) \<and> sint k \<le> 0
    \<and> \<bar>of_int (uint m) / 10 ^ nat (- sint k) - S\<bar> \<le> S / 250000000"
proof -
  have x: "1 / 1000000000 \<le> x" "x \<le> 4294967295" "x \<le> 2 * S" using assms by linarith+
  from to_mantissa_close[OF x(1,2)] obtain m k where
    mk: "to_mantissa x = (m, k)" "sint k \<le> 0"
    and e: "\<bar>of_int (uint m) / 10 ^ nat (- sint k) - x\<bar> \<le> x / 500000000" by blast
  define r :: rat where "r = of_int (uint m) / 10 ^ nat (- sint k)"
  have "\<bar>r - S\<bar> \<le> \<bar>r - x\<bar> + \<bar>x - S\<bar>" by linarith
  also have "\<dots> \<le> x / 500000000 + S / 1000000000" using e assms(1) by (simp add: r_def)
  also have "\<dots> \<le> S / 250000000" using assms(1,2) by linarith
  finally show ?thesis using mk by (auto simp: r_def)
qed

text \<open>C12. Accuracy of \<open>total_quantity_in_range\<close> for arbitrary decimal exponents: on a time-ordered file
  whose searches are safe for the end \<open>t\<close> of the interval (\<open>covers\<close>), for an interval \<open>[s, t)\<close> with
  \<open>s < t\<close> that holds at least one and fewer than \<open>2^20\<close> trades whose exact decimal sum of quantities
  lies between \<open>2 * 10^-9\<close> and \<open>4294967000\<close>, the returned decimal differs from the exact sum by at most
  \<open>4 * 10^-9\<close> of it, although every addition and scaling is rounded.\<close>

theorem total_quantity_accurate:
  assumes "covers t e" and "time_sorted (records e)" and "s < t"
    and "length (in_window s t (records e)) < 2 ^ 20"
    and "1 / 500000000 \<le> (\<Sum>x\<leftarrow>in_window s t (records e). exact_quantity x)"
    and "(\<Sum>x\<leftarrow>in_window s t (records e). exact_quantity x) \<le> 4294967000"
  shows "\<exists>m k. total_quantity_in_range e s t = Some (Inr \<lparr>quantity = m, quantity_exponent = k\<rparr>)
    \<and> sint k \<le> 0
    \<and> \<bar>of_int (uint m) / 10 ^ nat (- sint k) - (\<Sum>x\<leftarrow>in_window s t (records e). exact_quantity x)\<bar>
      \<le> (\<Sum>x\<leftarrow>in_window s t (records e). exact_quantity x) / 250000000"
proof -
  let ?w = "in_window s t (records e)"
  let ?S = "\<Sum>x\<leftarrow>?w. exact_quantity x"
  have ne: "?w \<noteq> []" using assms(5) by auto
  note w = nonempty_window[OF ne]
  note n = fold_total_near[of ?w]
  have "\<bar>fold total_body ?w 0 - ?S\<bar> \<le> ?S / 1000000000"
    using n assms(4) by (intro near_error sum_list_nonneg) auto
  from converted_error[OF this assms(5,6)] obtain m k where
    "to_mantissa (fold total_body ?w 0) = (m, k)" "sint k \<le> 0"
    "\<bar>of_int (uint m) / 10 ^ nat (- sint k) - ?S\<bar> \<le> ?S / 250000000" by blast
  then show ?thesis using total_closed[OF assms(1,2) _ assms(3)] w by simp
qed

text \<open>A file whose prices and quantities have different decimal exponents.\<close>

definition decimal_trades :: "TradeData list" where
  "decimal_trades =
    [\<lparr>symbol_id = 1, created_at = 10, trade_id = 1, trade_price = \<lparr>price = 12345, price_exponent = - 2\<rparr>,
      trade_quantity = \<lparr>quantity = 25, quantity_exponent = - 1\<rparr>, taker_side = 1\<rparr>,
     \<lparr>symbol_id = 1, created_at = 20, trade_id = 2, trade_price = \<lparr>price = 2, price_exponent = 2\<rparr>,
      trade_quantity = \<lparr>quantity = 750, quantity_exponent = - 2\<rparr>, taker_side = 2\<rparr>]"

lemma decimal_covers: "covers t (open_file 0 decimal_trades)"
  by (rule sized_covers[OF sized_open_file]) (simp add: decimal_trades_def)

lemma decimal_sums:
  "in_window 5 25 decimal_trades = decimal_trades"
  "(\<Sum>x\<leftarrow>decimal_trades. exact_quantity x) = 10"
  "(\<Sum>x\<leftarrow>decimal_trades. exact_price x * exact_quantity x) = 1808625 / 1000"
  by (simp_all add: in_window_def decimal_trades_def exact_quantity_def exact_price_def qty_nat_def
      price_nat_def power_int_minus)

theorem total_quantity_accurate_witness:
  "\<exists>m k. total_quantity_in_range (open_file 0 decimal_trades) 5 25
      = Some (Inr \<lparr>quantity = m, quantity_exponent = k\<rparr>)
    \<and> \<bar>of_int (uint m) / 10 ^ nat (- sint k) - (10::rat)\<bar> \<le> 1 / 25000000"
  using total_quantity_accurate[OF decimal_covers, of 5 25]
  by (simp add: decimal_sums) (simp add: decimal_trades_def time_sorted_def, blast)

text \<open>C11. Accuracy of \<open>mean_price_in_range\<close> for arbitrary decimal exponents: on a time-ordered file
  whose searches are safe for the end \<open>t\<close> of the interval (\<open>covers\<close>), for an interval \<open>[s, t)\<close> with
  \<open>s < t\<close>, fewer than \<open>2^20\<close> trades, a positive total quantity and an exact volume-weighted mean
  between \<open>2 * 10^-9\<close> and \<open>4294967000\<close>, the returned decimal differs from the exact volume-weighted
  mean by at most \<open>4 * 10^-9\<close> of it.\<close>

theorem mean_price_accurate:
  assumes "covers t e" and "time_sorted (records e)" and "s < t"
    and "length (in_window s t (records e)) < 2 ^ 20"
    and "0 < (\<Sum>x\<leftarrow>in_window s t (records e). exact_quantity x)"
    and "V = (\<Sum>x\<leftarrow>in_window s t (records e). exact_price x * exact_quantity x)
       / (\<Sum>x\<leftarrow>in_window s t (records e). exact_quantity x)"
    and "1 / 500000000 \<le> V" and "V \<le> 4294967000"
  shows "\<exists>m k. mean_price_in_range e s t = Some (Inr \<lparr>price = m, price_exponent = k\<rparr>)
    \<and> sint k \<le> 0 \<and> \<bar>of_int (uint m) / 10 ^ nat (- sint k) - V\<bar> \<le> V / 250000000"
proof -
  let ?w = "in_window s t (records e)"
  let ?n = "length ?w"
  let ?Q = "\<Sum>x\<leftarrow>?w. exact_quantity x" and ?PQ = "\<Sum>x\<leftarrow>?w. exact_price x * exact_quantity x"
  have ne: "?w \<noteq> []" using assms(5) by auto
  note w = nonempty_window[OF ne]
  obtain pq q where f: "fold mean_body ?w (0, 0) = (pq, q)" by (cases "fold mean_body ?w (0, 0)")
  note n = fold_mean_near[OF f]
  have Vpos: "0 < V" using assms(7) by (rule less_le_trans[rotated]) simp
  have PQ: "0 \<le> ?PQ" by (intro sum_list_nonneg) auto
  have "?Q * shrink ^ (2 + ?n) \<le> q" using n(2) by (simp add: near_def)
  moreover have "0 < ?Q * shrink ^ (2 + ?n)" using assms(5) by simp
  ultimately have q: "0 < q" by linarith
  have "near ((5 + ?n) + (2 + ?n)) (pq * inverse q) (?PQ * inverse ?Q)"
    using n q assms(5) PQ by (intro near_mult near_inverse) auto
  moreover have "(5 + ?n) + (2 + ?n) = 7 + 2 * ?n" by simp
  ultimately have near: "near (7 + 2 * ?n) (pq / q) V"
    unfolding assms(6) divide_inverse by (simp only:)
  have pos: "0 \<le> pq / q" using n q by simp
  have "\<bar>pq / q - V\<bar> \<le> V / 1000000000"
    using near pos Vpos assms(4) by (intro near_error[OF near]) auto
  then have "1 / 1000000000 \<le> pq / q" using assms(7) by linarith
  moreover have "(2::rat) powi (- 30) \<le> 1 / 1000000000" by (simp add: power_int_minus)
  ultimately have "2 powi (- 30) \<le> pq / q" by (rule order_trans[rotated])
  then have "2 powi (- 1022) \<le> pq / q" by (rule normal_powi[rotated]) simp
  from near_trans[OF near_rnd[OF disjI2[OF this]] near]
  have "near (1 + (7 + 2 * ?n)) (mean_of (pq, q)) V" using q by (simp only: mean_of_def fdiv_def) simp
  then have "\<bar>mean_of (pq, q) - V\<bar> \<le> V / 1000000000"
    using Vpos assms(4) by (intro near_error) (auto simp: mean_of_def)
  from converted_error[OF this assms(7,8)] obtain m k where
    "to_mantissa (mean_of (pq, q)) = (m, k)" "sint k \<le> 0"
    "\<bar>of_int (uint m) / 10 ^ nat (- sint k) - V\<bar> \<le> V / 250000000" by blast
  then show ?thesis using mean_closed[OF assms(1,2) _ assms(3)] w f by simp
qed

theorem mean_price_accurate_witness:
  "\<exists>m k. mean_price_in_range (open_file 0 decimal_trades) 5 25
      = Some (Inr \<lparr>price = m, price_exponent = k\<rparr>)
    \<and> \<bar>of_int (uint m) / 10 ^ nat (- sint k) - (18086250 / 100000 :: rat)\<bar> \<le> 1 / 1000000"
proof -
  have "time_sorted decimal_trades" "length decimal_trades = 2"
    by (simp_all add: decimal_trades_def time_sorted_def)
  with mean_price_accurate[OF decimal_covers, of 5 25 "1808625 / 10000"]
  obtain m k where "mean_price_in_range (open_file 0 decimal_trades) 5 25
      = Some (Inr \<lparr>price = m, price_exponent = k\<rparr>)"
    "\<bar>of_int (uint m) / 10 ^ nat (- sint k) - (1808625 / 10000 :: rat)\<bar> \<le> 1808625 / 10000 / 250000000"
    by (simp add: decimal_sums) blast
  then show ?thesis by (intro exI[of _ m] exI[of _ k]) simp
qed

end
