(* ===== verification/Transition.thy ===== *)
theory Transition
  imports Main
begin

text \<open>
  What the step relations of the development share: invariants of the reachable states, relations
  between a state and the states that follow it, simulation of an abstract relation, progress
  towards a goal by a decreasing measure, and response under fairness.
  The locales are interpreted on the queues, the TCP server and the UDP server.
\<close>

locale step_invariant =
  fixes step :: "'s \<Rightarrow> 's \<Rightarrow> bool" and init :: "'s \<Rightarrow> bool" and inv :: "'s \<Rightarrow> bool"
  assumes init_inv: "init s \<Longrightarrow> inv s"
    and step_inv: "step s t \<Longrightarrow> inv s \<Longrightarrow> inv t"
begin

lemma steps_inv: "step\<^sup>*\<^sup>* s t \<Longrightarrow> inv s \<Longrightarrow> inv t"
  by (induction rule: rtranclp_induct) (auto intro: step_inv)

lemma reachable_inv: "step\<^sup>*\<^sup>* s t \<Longrightarrow> init s \<Longrightarrow> inv t"
  by (blast intro: steps_inv init_inv)

end

locale step_preorder =
  fixes step :: "'s \<Rightarrow> 's \<Rightarrow> bool" and rel :: "'s \<Rightarrow> 's \<Rightarrow> bool"
  assumes rel_refl: "rel s s"
    and rel_trans: "rel s t \<Longrightarrow> rel t u \<Longrightarrow> rel s u"
    and step_rel: "step s t \<Longrightarrow> rel s t"
begin

lemma steps_rel: "step\<^sup>*\<^sup>* s t \<Longrightarrow> rel s t"
  by (induction rule: rtranclp_induct) (auto intro: rel_refl rel_trans step_rel)

end

text \<open>
  A simulation by a function: from a state that satisfies the invariant, a step is a step of the
  abstract relation between the images, or is not seen there.
\<close>

locale simulation = step_invariant step init inv
  for step :: "'s \<Rightarrow> 's \<Rightarrow> bool" and init :: "'s \<Rightarrow> bool" and inv :: "'s \<Rightarrow> bool" +
  fixes abs_step :: "'a \<Rightarrow> 'a \<Rightarrow> bool" and abs :: "'s \<Rightarrow> 'a"
  assumes simulates: "inv s \<Longrightarrow> step s t \<Longrightarrow> abs t = abs s \<or> abs_step (abs s) (abs t)"
begin

lemma steps_simulate: "step\<^sup>*\<^sup>* s t \<Longrightarrow> inv s \<Longrightarrow> abs_step\<^sup>*\<^sup>* (abs s) (abs t)"
proof (induction rule: rtranclp_induct)
  case (step t u)
  from simulates[OF steps_inv[OF step(1,4)] step(2)] show ?case
    using step(3)[OF step(4)] by (metis rtranclp.rtrancl_into_rtrancl)
qed simp

lemma reachable_simulates: "step\<^sup>*\<^sup>* s t \<Longrightarrow> init s \<Longrightarrow> abs_step\<^sup>*\<^sup>* (abs s) (abs t)"
  by (blast intro: steps_simulate init_inv)

end

text \<open>
  A state that satisfies \<open>ok\<close> and has something left to do (\<open>todo\<close>) can take a step that keeps
  \<open>ok\<close>, is related by \<open>keeps\<close> and leaves less to do.
\<close>

locale step_progress =
  fixes step :: "'s \<Rightarrow> 's \<Rightarrow> bool" and keeps :: "'s \<Rightarrow> 's \<Rightarrow> bool"
    and ok :: "'s \<Rightarrow> bool" and todo :: "'s \<Rightarrow> nat"
  assumes keeps_refl: "keeps s s"
    and keeps_trans: "keeps s t \<Longrightarrow> keeps t u \<Longrightarrow> keeps s u"
    and progress: "ok s \<Longrightarrow> todo s \<noteq> 0 \<Longrightarrow> \<exists>t. step s t \<and> ok t \<and> keeps s t \<and> todo t < todo s"
begin

lemma reaches_goal: "ok s \<Longrightarrow> \<exists>t. step\<^sup>*\<^sup>* s t \<and> ok t \<and> keeps s t \<and> todo t = 0"
proof (induction "todo s" arbitrary: s rule: less_induct)
  case less
  show ?case
  proof (cases "todo s = 0")
    case True
    then show ?thesis using less.prems keeps_refl by blast
  next
    case False
    then obtain t where "step s t" "ok t" "keeps s t" "todo t < todo s"
      using progress[OF less.prems] by blast
    with less.hyps[of t] show ?thesis by (meson converse_rtranclp_into_rtranclp keeps_trans)
  qed
qed

end

text \<open>
  Infinite runs, which may stutter, and weak fairness of an action: if it stays enabled it is taken.
\<close>

definition is_run :: "('s \<Rightarrow> 's \<Rightarrow> bool) \<Rightarrow> (nat \<Rightarrow> 's) \<Rightarrow> bool" where
  "is_run step f \<longleftrightarrow> (\<forall>n. step (f n) (f (Suc n)) \<or> f (Suc n) = f n)"

lemma run_steps: "is_run step f \<Longrightarrow> step\<^sup>*\<^sup>* (f 0) (f n)"
  by (induction n) (auto simp: is_run_def dest: spec[where x = n] intro: rtranclp.rtrancl_into_rtrancl)

definition weakly_fair :: "('s \<Rightarrow> 's \<Rightarrow> bool) \<Rightarrow> (nat \<Rightarrow> 's) \<Rightarrow> bool" where
  "weakly_fair act f \<longleftrightarrow>
     (\<forall>n. (\<forall>m \<ge> n. \<exists>t. act (f m) t) \<longrightarrow> (\<exists>m \<ge> n. act (f m) (f (Suc m))))"

text \<open>
  Response: in every state that satisfies \<open>wait\<close> some action is helpful. No step makes the rank larger
  or, while it stays the same, another action helpful, and the helpful action makes it smaller.
\<close>

locale fair_response =
  fixes step :: "'s \<Rightarrow> 's \<Rightarrow> bool" and act :: "'a \<Rightarrow> 's \<Rightarrow> 's \<Rightarrow> bool"
    and wait :: "'s \<Rightarrow> bool" and goal :: "'s \<Rightarrow> bool"
    and rank :: "'s \<Rightarrow> 'r" and less :: "('r \<times> 'r) set" and helpful :: "'s \<Rightarrow> 'a"
  assumes wf_less: "wf less"
    and enabled: "wait s \<Longrightarrow> \<exists>t. act (helpful s) s t"
    and step_rank: "wait s \<Longrightarrow> step s t \<Longrightarrow> goal t \<or> wait t
      \<and> ((rank t, rank s) \<in> less \<or> rank t = rank s \<and> helpful t = helpful s)"
    and helpful_rank: "wait s \<Longrightarrow> act (helpful s) s t \<Longrightarrow> goal t \<or> wait t \<and> (rank t, rank s) \<in> less"
begin

text \<open>Unless the rank falls, the same action stays helpful.\<close>

lemma insists:
  assumes "is_run step f" and "wait (f n)" and "\<forall>m \<ge> n. \<not> goal (f m)"
    and "\<forall>m \<ge> n. \<not> (wait (f m) \<and> (rank (f m), rank (f n)) \<in> less)" and "n \<le> m"
  shows "wait (f m) \<and> rank (f m) = rank (f n) \<and> helpful (f m) = helpful (f n)"
  using assms(5)
proof (induction m rule: dec_induct)
  case base
  then show ?case using assms(2) by simp
next
  case (step m)
  have "f (Suc m) = f m \<or> step (f m) (f (Suc m))" using assms(1) by (auto simp: is_run_def)
  then show ?case
  proof
    assume "step (f m) (f (Suc m))"
    from step_rank[OF _ this] show ?thesis using step assms(3,4) by (metis le_SucI)
  qed (use step in simp)
qed

lemma response:
  assumes "is_run step f" and "\<forall>a. weakly_fair (act a) f" and "wait (f n)"
  shows "\<exists>m \<ge> n. goal (f m)"
  using assms(3)
proof (induction "rank (f n)" arbitrary: n rule: wf_induct_rule[OF wf_less])
  case (1 n)
  show ?case
  proof (cases "\<exists>m \<ge> n. goal (f m) \<or> wait (f m) \<and> (rank (f m), rank (f n)) \<in> less")
    case True
    then show ?thesis using 1(1) by (meson le_trans)
  next
    case False
    then have same: "wait (f m) \<and> rank (f m) = rank (f n) \<and> helpful (f m) = helpful (f n)" if "n \<le> m" for m
      using insists[OF assms(1) 1(2) _ _ that] by blast
    then have "\<forall>m \<ge> n. \<exists>t. act (helpful (f n)) (f m) t" using enabled by metis
    then obtain m where "n \<le> m" "act (helpful (f n)) (f m) (f (Suc m))"
      using assms(2)[unfolded weakly_fair_def, rule_format, of n "helpful (f n)"] by blast
    with same[of m] helpful_rank[of "f m" "f (Suc m)"] False show ?thesis by (metis le_SucI)
  qed
qed

end

end
