(* ===== verification/TS_Queue.thy ===== *)
theory TS_Queue
  imports Prelude Transition
begin

text \<open>
  The thread-safe queue \<open>TSQueue\<close> of \<open>src/server/TS-queue.h\<close>, which carries queries to the worker
  threads and results back. First its operations as atomic functions on the queue's contents,
  then the same operations in micro-steps (lock, test, wait, notify, unlock) interleaved between
  any number of threads, and the proof that the micro-steps implement the atomic operations
  without losing a wake-up.
\<close>

section \<open>Atomic operations\<close>

definition TSQueue_push :: "'a list \<Rightarrow> 'a \<Rightarrow> 'a list" where
  "TSQueue_push q item = q @ [item]"

text \<open>\<open>pop\<close> blocks on an empty queue: \<open>None\<close>.\<close>

definition TSQueue_pop :: "'a list \<Rightarrow> ('a \<times> 'a list) option" where
  "TSQueue_pop q = (case q of [] \<Rightarrow> None | item # rest \<Rightarrow> Some (item, rest))"

text \<open>\<open>try_pop\<close> leaves its argument \<open>out\<close> alone when the queue is empty.\<close>

definition TSQueue_try_pop :: "'a list \<Rightarrow> 'a \<Rightarrow> bool \<times> 'a \<times> 'a list" where
  "TSQueue_try_pop q out = (case q of [] \<Rightarrow> (False, out, []) | item # rest \<Rightarrow> (True, item, rest))"

text \<open>The contract of a queue, for the components that use one.\<close>

datatype 'a queue_op = Push 'a | Pop

fun run_ops :: "('q \<Rightarrow> 'a \<Rightarrow> 'q) \<Rightarrow> ('q \<Rightarrow> ('a \<times> 'q) option) \<Rightarrow> 'a queue_op list \<Rightarrow> 'q \<Rightarrow> 'a list \<times> 'q" where
  "run_ops psh pp [] q = ([], q)"
| "run_ops psh pp (Push x # xs) q = run_ops psh pp xs (psh q x)"
| "run_ops psh pp (Pop # xs) q = (case pp q of
      None \<Rightarrow> run_ops psh pp xs q
    | Some (x, q') \<Rightarrow> (case run_ops psh pp xs q' of (ys, q'') \<Rightarrow> (x # ys, q'')))"

fun pushes :: "'a queue_op list \<Rightarrow> 'a list" where
  "pushes [] = []"
| "pushes (Push x # xs) = x # pushes xs"
| "pushes (Pop # xs) = pushes xs"

locale fifo =
  fixes psh :: "'q \<Rightarrow> 'a \<Rightarrow> 'q"
    and pp :: "'q \<Rightarrow> ('a \<times> 'q) option"
    and contents :: "'q \<Rightarrow> 'a list"
  assumes contents_push: "contents (psh q x) = contents q @ [x]"
    and pop_None: "pp q = None \<longleftrightarrow> contents q = []"
    and pop_Some: "pp q = Some (x, q') \<Longrightarrow> contents q = x # contents q'"
begin

lemma run_conserves:
  "run_ops psh pp ops q = (ys, q') \<Longrightarrow> contents q @ pushes ops = ys @ contents q'"
proof (induction ops arbitrary: q ys q')
  case (Cons op ops)
  show ?case
  proof (cases op)
    case (Push x)
    then show ?thesis using Cons.IH[of "psh q x" ys q'] Cons.prems by (simp add: contents_push)
  next
    case Pop
    show ?thesis
    proof (cases "pp q")
      case None
      then show ?thesis using Cons Pop by simp
    next
      case (Some p)
      obtain x r where p: "p = (x, r)" by (cases p)
      obtain zs q'' where z: "run_ops psh pp ops r = (zs, q'')" by (cases "run_ops psh pp ops r")
      from pop_Some[of q x r] Some p have "contents q = x # contents r" by simp
      then show ?thesis using Cons.IH[OF z] Cons.prems Pop Some p z by simp
    qed
  qed
qed simp

end

interpretation tsq: fifo TSQueue_push TSQueue_pop "\<lambda>q. q"
  by unfold_locales (auto simp: TSQueue_push_def TSQueue_pop_def split: list.splits)

lemma try_pop_iff_pop:
  "TSQueue_try_pop q v = (case TSQueue_pop q of None \<Rightarrow> (False, v, []) | Some (x, r) \<Rightarrow> (True, x, r))"
  by (simp add: TSQueue_try_pop_def TSQueue_pop_def split: list.splits)

section \<open>The operations in steps\<close>

text \<open>
  The program point of a thread. \<open>Pop_test\<close> holds the mutex and evaluates the predicate of
  \<open>m_cond.wait\<close>; \<open>Waiting\<close> has released it and sleeps; \<open>Pop_relock\<close> was woken and must take the
  mutex again before it tests.

  The \<open>std::queue\<close> itself is not synchronised: \<open>empty()\<close>, \<open>front()\<close> and \<open>pop()\<close> are separate steps,
  and a change of the queue is a load of its contents (which the thread keeps in its program point)
  and a later store, so that two threads that changed it at the same time would lose items.
  \<open>front()\<close> and \<open>pop()\<close> of an empty queue are undefined behaviour: the thread is \<open>Undefined\<close> from then
  on. That neither happens is what the mutex is for. The fields \<open>pushed\<close> and \<open>popped\<close> of the state
  record what was stored to the queue and what was removed.
\<close>

datatype 'a ts_pc =
    Idle
  | Push_lock 'a
  | Push_item 'a
  | Push_store 'a "'a list"
  | Push_notify
  | Push_unlock
  | Pop_lock
  | Pop_test
  | Waiting
  | Pop_relock
  | Pop_front
  | Pop_remove 'a
  | Pop_store 'a "'a list"
  | Pop_unlock 'a
  | Try_lock
  | Try_test
  | Try_front
  | Try_remove 'a
  | Try_store 'a "'a list"
  | Try_unlock "'a option"
  | Undefined

record 'a ts_state =
  m_queue :: "'a list"
  m_mutex :: bool
  threads :: "'a ts_pc list"
  pushed :: "'a list"
  popped :: "'a list"

definition at_pc :: "'a ts_state \<Rightarrow> nat \<Rightarrow> 'a ts_pc \<Rightarrow> bool" where
  "at_pc s i p \<longleftrightarrow> i < length (threads s) \<and> threads s ! i = p"

definition goto :: "nat \<Rightarrow> 'a ts_pc \<Rightarrow> 'a ts_state \<Rightarrow> 'a ts_state" where
  "goto i p s = s\<lparr>threads := (threads s)[i := p]\<rparr>"

inductive ts_step :: "'a ts_state \<Rightarrow> 'a ts_state \<Rightarrow> bool" where
  call_push: "at_pc s i Idle \<Longrightarrow> ts_step s (goto i (Push_lock x) s)"
| push_lock: "at_pc s i (Push_lock x) \<Longrightarrow> \<not> m_mutex s \<Longrightarrow>
    ts_step s (goto i (Push_item x) (s\<lparr>m_mutex := True\<rparr>))"
| push_item: "at_pc s i (Push_item x) \<Longrightarrow> ts_step s (goto i (Push_store x (m_queue s)) s)"
| push_store: "at_pc s i (Push_store x q) \<Longrightarrow>
    ts_step s (goto i Push_notify (s\<lparr>m_queue := TSQueue_push q x, pushed := pushed s @ [x]\<rparr>))"
| push_notify: "at_pc s i Push_notify \<Longrightarrow> at_pc s j Waiting \<Longrightarrow>
    ts_step s (goto i Push_unlock (goto j Pop_relock s))"
| push_notify_none: "at_pc s i Push_notify \<Longrightarrow> Waiting \<notin> set (threads s) \<Longrightarrow>
    ts_step s (goto i Push_unlock s)"
| push_unlock: "at_pc s i Push_unlock \<Longrightarrow> ts_step s (goto i Idle (s\<lparr>m_mutex := False\<rparr>))"
| call_pop: "at_pc s i Idle \<Longrightarrow> ts_step s (goto i Pop_lock s)"
| pop_lock: "at_pc s i Pop_lock \<Longrightarrow> \<not> m_mutex s \<Longrightarrow> ts_step s (goto i Pop_test (s\<lparr>m_mutex := True\<rparr>))"
| pop_wait: "at_pc s i Pop_test \<Longrightarrow> m_queue s = [] \<Longrightarrow> ts_step s (goto i Waiting (s\<lparr>m_mutex := False\<rparr>))"
| pop_found: "at_pc s i Pop_test \<Longrightarrow> m_queue s \<noteq> [] \<Longrightarrow> ts_step s (goto i Pop_front s)"
| pop_front: "at_pc s i Pop_front \<Longrightarrow> TSQueue_pop (m_queue s) = Some (x, r) \<Longrightarrow>
    ts_step s (goto i (Pop_remove x) s)"
| pop_front_undefined: "at_pc s i Pop_front \<Longrightarrow> TSQueue_pop (m_queue s) = None \<Longrightarrow>
    ts_step s (goto i Undefined s)"
| pop_remove: "at_pc s i (Pop_remove x) \<Longrightarrow> TSQueue_pop (m_queue s) = Some (y, r) \<Longrightarrow>
    ts_step s (goto i (Pop_store x r) s)"
| pop_remove_undefined: "at_pc s i (Pop_remove x) \<Longrightarrow> TSQueue_pop (m_queue s) = None \<Longrightarrow>
    ts_step s (goto i Undefined s)"
| pop_store: "at_pc s i (Pop_store x r) \<Longrightarrow>
    ts_step s (goto i (Pop_unlock x) (s\<lparr>m_queue := r, popped := popped s @ [x]\<rparr>))"
| spurious: "at_pc s i Waiting \<Longrightarrow> ts_step s (goto i Pop_relock s)"
| pop_relock: "at_pc s i Pop_relock \<Longrightarrow> \<not> m_mutex s \<Longrightarrow> ts_step s (goto i Pop_test (s\<lparr>m_mutex := True\<rparr>))"
| pop_unlock: "at_pc s i (Pop_unlock x) \<Longrightarrow> ts_step s (goto i Idle (s\<lparr>m_mutex := False\<rparr>))"
| call_try: "at_pc s i Idle \<Longrightarrow> ts_step s (goto i Try_lock s)"
| try_lock: "at_pc s i Try_lock \<Longrightarrow> \<not> m_mutex s \<Longrightarrow> ts_step s (goto i Try_test (s\<lparr>m_mutex := True\<rparr>))"
| try_empty: "at_pc s i Try_test \<Longrightarrow> m_queue s = [] \<Longrightarrow> ts_step s (goto i (Try_unlock None) s)"
| try_found: "at_pc s i Try_test \<Longrightarrow> m_queue s \<noteq> [] \<Longrightarrow> ts_step s (goto i Try_front s)"
| try_front: "at_pc s i Try_front \<Longrightarrow> TSQueue_pop (m_queue s) = Some (x, r) \<Longrightarrow>
    ts_step s (goto i (Try_remove x) s)"
| try_front_undefined: "at_pc s i Try_front \<Longrightarrow> TSQueue_pop (m_queue s) = None \<Longrightarrow>
    ts_step s (goto i Undefined s)"
| try_remove: "at_pc s i (Try_remove x) \<Longrightarrow> TSQueue_pop (m_queue s) = Some (y, r) \<Longrightarrow>
    ts_step s (goto i (Try_store x r) s)"
| try_remove_undefined: "at_pc s i (Try_remove x) \<Longrightarrow> TSQueue_pop (m_queue s) = None \<Longrightarrow>
    ts_step s (goto i Undefined s)"
| try_store: "at_pc s i (Try_store x r) \<Longrightarrow>
    ts_step s (goto i (Try_unlock (Some x)) (s\<lparr>m_queue := r, popped := popped s @ [x]\<rparr>))"
| try_unlock: "at_pc s i (Try_unlock v) \<Longrightarrow> ts_step s (goto i Idle (s\<lparr>m_mutex := False\<rparr>))"

definition ts_init :: "nat \<Rightarrow> 'a ts_state" where
  "ts_init n = \<lparr>m_queue = [], m_mutex = False, threads = replicate n Idle, pushed = [], popped = []\<rparr>"

definition ts_reachable :: "nat \<Rightarrow> 'a ts_state \<Rightarrow> bool" where
  "ts_reachable n s \<longleftrightarrow> ts_step\<^sup>*\<^sup>* (ts_init n) s"

section \<open>Invariants\<close>

fun in_critical :: "'a ts_pc \<Rightarrow> bool" where
  "in_critical (Push_item x) = True"
| "in_critical (Push_store x q) = True"
| "in_critical Push_notify = True"
| "in_critical Push_unlock = True"
| "in_critical Pop_test = True"
| "in_critical Pop_front = True"
| "in_critical (Pop_remove x) = True"
| "in_critical (Pop_store x r) = True"
| "in_critical (Pop_unlock x) = True"
| "in_critical Try_test = True"
| "in_critical Try_front = True"
| "in_critical (Try_remove x) = True"
| "in_critical (Try_store x r) = True"
| "in_critical (Try_unlock v) = True"
| "in_critical _ = False"

text \<open>
  A thread that will look at the queue before it can wait again, notify a waiting one, or that is
  about to take an item.
\<close>

fun will_test :: "'a ts_pc \<Rightarrow> bool" where
  "will_test Pop_relock = True"
| "will_test Pop_test = True"
| "will_test Pop_front = True"
| "will_test (Pop_remove x) = True"
| "will_test (Pop_store x r) = True"
| "will_test Push_notify = True"
| "will_test _ = False"

text \<open>What a thread inside the mutex knows of the queue.\<close>

fun knows :: "'a list \<Rightarrow> 'a ts_pc \<Rightarrow> bool" where
  "knows q (Push_store x q') = (q' = q)"
| "knows q Pop_front = (q \<noteq> [])"
| "knows q (Pop_remove x) = (q \<noteq> [] \<and> hd q = x)"
| "knows q (Pop_store x r) = (q = x # r)"
| "knows q Try_front = (q \<noteq> [])"
| "knows q (Try_remove x) = (q \<noteq> [] \<and> hd q = x)"
| "knows q (Try_store x r) = (q = x # r)"
| "knows q Undefined = False"
| "knows q _ = True"

definition ts_inv :: "'a ts_state \<Rightarrow> bool" where
  "ts_inv s \<longleftrightarrow> count_at in_critical (threads s) = of_bool (m_mutex s)
     \<and> pushed s = popped s @ m_queue s
     \<and> (Waiting \<in> set (threads s) \<longrightarrow> length (m_queue s) \<le> count_at will_test (threads s))
     \<and> (\<forall>p \<in> set (threads s). knows (m_queue s) p)"

lemma goto_simps [simp]:
  "m_queue (goto i p s) = m_queue s" "m_mutex (goto i p s) = m_mutex s"
  "threads (goto i p s) = (threads s)[i := p]" "pushed (goto i p s) = pushed s"
  "popped (goto i p s) = popped s"
  by (simp_all add: goto_def)

lemma at_pc_counts:
  assumes "at_pc s i p"
  shows "count_at P ((threads s)[i := q]) + of_bool (P p) = count_at P (threads s) + of_bool (P q)"
  using assms count_at_update[of i "threads s" P q] by (simp add: at_pc_def)

lemma waiting_update:
  "Waiting \<in> set ((threads s)[i := q]) \<Longrightarrow> Waiting \<in> set (threads s) \<or> q = Waiting"
  using set_update_subset_insert[of "threads s" i q] by auto

lemma ts_inv_init: "ts_inv (ts_init n)"
  by (simp add: ts_inv_def ts_init_def count_at_def)

lemma critical_locked: "ts_inv s \<Longrightarrow> at_pc s i p \<Longrightarrow> in_critical p \<longrightarrow> m_mutex s"
  using count_at_pos[of i "threads s" in_critical] by (auto simp: ts_inv_def at_pc_def)

lemma two_critical:
  assumes "i < length ps" and "j < length ps" and "i \<noteq> j" and "P (ps ! i)" and "P (ps ! j)"
    and "\<not> P q"
  shows "1 < count_at P ps"
  using count_at_update[of i ps P q] count_at_pos[of j "ps[i := q]" P] assms by simp

lemma one_critical:
  assumes "ts_inv s" and "at_pc s i p" and "in_critical p" and "at_pc s j p'" and "in_critical p'"
  shows "i = j"
proof (rule ccontr)
  assume "i \<noteq> j"
  then have "1 < count_at in_critical (threads s)"
    using two_critical[of i "threads s" j in_critical Idle] assms(2-5) by (simp add: at_pc_def)
  then show False using assms(1) by (cases "m_mutex s") (simp_all add: ts_inv_def)
qed

text \<open>What a thread knows stays true: only the one inside the mutex changes the queue.\<close>

lemma knows_outside: "knows q p \<Longrightarrow> \<not> in_critical p \<Longrightarrow> knows q' p"
  by (cases p) simp_all

lemma knows_after:
  assumes "ts_inv s" and "at_pc s i p" and "q' = m_queue s \<or> in_critical p" and "knows q' p'"
  shows "\<forall>x \<in> set ((threads s)[i := p']). knows q' x"
proof
  fix x assume "x \<in> set ((threads s)[i := p'])"
  then obtain j where j: "j < length (threads s)" "x = (threads s)[i := p'] ! j"
    by (auto simp: in_set_conv_nth)
  show "knows q' x"
  proof (cases "j = i")
    case True
    then show ?thesis using j assms(4) by simp
  next
    case False
    then have x: "x = threads s ! j" using j by simp
    then have k: "knows (m_queue s) x" using assms(1) j(1) by (simp add: ts_inv_def)
    show ?thesis
    proof (cases "q' = m_queue s")
      case True
      then show ?thesis using k by simp
    next
      case other: False
      then have "\<not> in_critical x"
        using one_critical[OF assms(1,2), of j x] assms(3) x j(1) False by (auto simp: at_pc_def)
      then show ?thesis using knows_outside[OF k] by simp
    qed
  qed
qed

text \<open>One thread moves: what has to be checked of its old and new program point.\<close>

lemma ts_inv_move:
  assumes "ts_inv s" and "at_pc s i p" and "threads t = threads s"
    and "of_bool (m_mutex t) + of_bool (in_critical p) = of_bool (m_mutex s) + (of_bool (in_critical q) :: nat)"
    and "pushed t = popped t @ m_queue t"
    and "q = Waiting \<Longrightarrow> m_queue t = []"
    and "q \<noteq> Waiting \<Longrightarrow>
      length (m_queue t) + of_bool (will_test p) \<le> length (m_queue s) + of_bool (will_test q)"
    and "m_queue t = m_queue s \<or> in_critical p" and "knows (m_queue t) q"
  shows "ts_inv (goto i q t)"
proof -
  have "count_at in_critical ((threads s)[i := q]) = of_bool (m_mutex t)"
    using at_pc_counts[OF assms(2), of in_critical q] assms(1,4) by (simp add: ts_inv_def)
  moreover have "length (m_queue t) \<le> count_at will_test ((threads s)[i := q])"
    if "Waiting \<in> set ((threads s)[i := q])"
  proof (cases "q = Waiting")
    case False
    then have "Waiting \<in> set (threads s)" using that waiting_update by metis
    then show ?thesis
      using at_pc_counts[OF assms(2), of will_test q] assms(1,7) False by (simp add: ts_inv_def)
  qed (simp add: assms(6))
  ultimately show ?thesis
    using assms(3,5) knows_after[OF assms(1,2,8,9)] by (simp add: ts_inv_def)
qed

lemma ts_inv_notify:
  assumes "ts_inv s" and "at_pc s i Push_notify" and "at_pc s j Waiting"
  shows "ts_inv (goto i Push_unlock (goto j Pop_relock s))"
proof -
  let ?s = "goto j Pop_relock s" let ?s' = "goto i Push_unlock ?s"
  have ij: "i \<noteq> j" using assms(2,3) by (auto simp: at_pc_def)
  then have i: "at_pc ?s i Push_notify" using assms(2) by (simp add: at_pc_def)
  have w: "Waiting \<in> set (threads s)" using assms(3) unfolding at_pc_def by (metis nth_mem)
  have "\<forall>p \<in> set (threads s). knows (m_queue s) p" using assms(1) by (simp add: ts_inv_def)
  then have k: "\<forall>x \<in> set ((threads s)[j := Pop_relock, i := Push_unlock]). knows (m_queue s) x"
    by (auto dest!: subsetD[OF set_update_subset_insert])
  show ?thesis
    using assms(1) w k at_pc_counts[OF i, of in_critical Push_unlock] at_pc_counts[OF i, of will_test Push_unlock]
      at_pc_counts[OF assms(3), of in_critical Pop_relock] at_pc_counts[OF assms(3), of will_test Pop_relock]
    by (simp add: ts_inv_def)
qed

lemma ts_inv_history: "ts_inv s \<Longrightarrow> pushed s = popped s @ m_queue s"
  by (simp add: ts_inv_def)

lemma ts_inv_knows: "ts_inv s \<Longrightarrow> at_pc s i p \<Longrightarrow> knows (m_queue s) p"
  unfolding ts_inv_def at_pc_def by (metis nth_mem)

lemma ts_inv_step: "ts_step s s' \<Longrightarrow> ts_inv s \<Longrightarrow> ts_inv s'"
proof (induction rule: ts_step.induct)
  case (push_notify s i j)
  then show ?case by (intro ts_inv_notify)
next
  case (push_notify_none s i)
  then have "Waiting \<notin> set (threads (goto i Push_unlock s))" using waiting_update by fastforce
  then show ?case
    using push_notify_none at_pc_counts[OF push_notify_none(1), of in_critical Push_unlock]
      knows_after[OF push_notify_none(3,1), of "m_queue s" Push_unlock]
    by (simp add: ts_inv_def)
qed ((rule ts_inv_move, assumption, assumption;
    (frule ts_inv_history, frule (1) critical_locked, frule (1) ts_inv_knows,
     auto simp: TSQueue_push_def TSQueue_pop_def split: list.splits))+)

interpretation ts: step_invariant ts_step "\<lambda>s. \<exists>n. s = ts_init n" ts_inv
  by unfold_locales (auto intro: ts_inv_init ts_inv_step)

lemma ts_inv_reachable: "ts_reachable n s \<Longrightarrow> ts_inv s"
  unfolding ts_reachable_def by (rule ts.reachable_inv) blast+

section \<open>What the queue guarantees\<close>

lemma ts_step_at:
  assumes "at_pc s i p" and "p \<noteq> Idle" and "p \<noteq> Waiting" and "knows (m_queue s) p"
    and "\<not> m_mutex s \<or> in_critical p"
  shows "\<exists>s'. ts_step s s' \<and> threads s' ! i \<noteq> p"
proof -
  have i: "i < length (threads s)" using assms(1) by (simp add: at_pc_def)
  have done_by: "\<exists>s'. ts_step s s' \<and> threads s' ! i \<noteq> p"
    if "ts_step s (goto i q t)" "threads t = threads s" "q \<noteq> p" for q t
    using that i by (intro exI[of _ "goto i q t"]) simp
  have head: "TSQueue_pop (m_queue s) = Some (hd (m_queue s), tl (m_queue s))" if "m_queue s \<noteq> []"
    using that by (simp add: TSQueue_pop_def split: list.split)
  show ?thesis
  proof (cases p)
    case Push_notify
    show ?thesis
    proof (cases "Waiting \<in> set (threads s)")
      case True
      then obtain j where j: "at_pc s j Waiting" by (auto simp: at_pc_def in_set_conv_nth)
      have "ts_step s (goto i Push_unlock (goto j Pop_relock s))"
        using assms(1) j Push_notify by (intro ts_step.push_notify) auto
      then show ?thesis using i Push_notify
        by (intro exI[of _ "goto i Push_unlock (goto j Pop_relock s)"]) simp
    next
      case False
      then show ?thesis using assms(1) Push_notify
        by (intro done_by[OF ts_step.push_notify_none]) auto
    qed
  next
    case Pop_test
    then show ?thesis using assms(1) done_by[OF ts_step.pop_wait] done_by[OF ts_step.pop_found]
      by (cases "m_queue s = []") auto
  next
    case Try_test
    then show ?thesis using assms(1) done_by[OF ts_step.try_empty] done_by[OF ts_step.try_found]
      by (cases "m_queue s = []") auto
  next
    case Pop_front
    then show ?thesis using assms head by (intro done_by[OF ts_step.pop_front]) auto
  next
    case (Pop_remove x)
    then show ?thesis using assms head by (intro done_by[OF ts_step.pop_remove]) auto
  next
    case Try_front
    then show ?thesis using assms head by (intro done_by[OF ts_step.try_front]) auto
  next
    case (Try_remove x)
    then show ?thesis using assms head by (intro done_by[OF ts_step.try_remove]) auto
  next
    case (Push_lock x)
    then show ?thesis using assms by (intro done_by[OF ts_step.push_lock]) auto
  next
    case (Push_item x)
    then show ?thesis using assms by (intro done_by[OF ts_step.push_item]) auto
  next
    case (Push_store x q)
    then show ?thesis using assms by (intro done_by[OF ts_step.push_store]) auto
  next
    case Push_unlock
    then show ?thesis using assms by (intro done_by[OF ts_step.push_unlock]) auto
  next
    case Pop_lock
    then show ?thesis using assms by (intro done_by[OF ts_step.pop_lock]) auto
  next
    case Pop_relock
    then show ?thesis using assms by (intro done_by[OF ts_step.pop_relock]) auto
  next
    case (Pop_store x r)
    then show ?thesis using assms by (intro done_by[OF ts_step.pop_store]) auto
  next
    case (Pop_unlock x)
    then show ?thesis using assms by (intro done_by[OF ts_step.pop_unlock]) auto
  next
    case Try_lock
    then show ?thesis using assms by (intro done_by[OF ts_step.try_lock]) auto
  next
    case (Try_store x r)
    then show ?thesis using assms by (intro done_by[OF ts_step.try_store]) auto
  next
    case (Try_unlock v)
    then show ?thesis using assms by (intro done_by[OF ts_step.try_unlock]) auto
  qed (use assms(2-4) in simp_all)
qed

text \<open>C16. First in, first out, under any interleaving of any number of threads: what was pushed is,
  in order, what was popped (by \<open>pop\<close> or \<open>try_pop\<close>) followed by what is still queued, so no item is
  lost, duplicated or overtaken; and at most one thread is inside the mutex.\<close>

theorem ts_queue_fifo:
  assumes "ts_reachable n s"
  shows "pushed s = popped s @ m_queue s
    \<and> (\<forall>i j p p'. \<not> (at_pc s i p \<and> in_critical p \<and> at_pc s j p' \<and> in_critical p' \<and> i \<noteq> j))"
  using ts_inv_reachable[OF assms] ts_inv_history one_critical by blast

text \<open>C15. No wake-up is lost and the mutex cannot deadlock: in every reachable state either some
  thread that is inside an operation and not asleep can take a step, or every thread is idle or
  asleep in \<open>pop\<close>, and a thread is asleep only while the queue is empty.\<close>

theorem ts_queue_no_lost_wakeup:
  assumes "ts_reachable n s"
  shows "(\<exists>i p s'. at_pc s i p \<and> p \<noteq> Idle \<and> p \<noteq> Waiting \<and> ts_step s s' \<and> threads s' ! i \<noteq> p)
    \<or> (\<forall>p \<in> set (threads s). p = Idle \<or> p = Waiting) \<and> (Waiting \<in> set (threads s) \<longrightarrow> m_queue s = [])"
proof -
  note inv = ts_inv_reachable[OF assms]
  show ?thesis
  proof (cases "\<forall>p \<in> set (threads s). p = Idle \<or> p = Waiting")
    case True
    then have "count_at will_test (threads s) = 0" by (auto simp: count_at_0)
    then show ?thesis using inv True by (simp add: ts_inv_def)
  next
    case False
    then obtain i p where p: "at_pc s i p" "p \<noteq> Idle" "p \<noteq> Waiting"
      by (auto simp: at_pc_def in_set_conv_nth)
    show ?thesis
    proof (cases "m_mutex s")
      case False
      then show ?thesis using ts_step_at[OF p ts_inv_knows[OF inv p(1)]] p by blast
    next
      case True
      then obtain j where j: "j < length (threads s)" "in_critical (threads s ! j)"
        using inv count_at_posD[of in_critical "threads s"] by (auto simp: ts_inv_def)
      then have at: "at_pc s j (threads s ! j)" "threads s ! j \<noteq> Idle" "threads s ! j \<noteq> Waiting"
        by (auto simp: at_pc_def)
      then show ?thesis using ts_step_at[OF at ts_inv_knows[OF inv at(1)]] j(2) by blast
    qed
  qed
qed

text \<open>A run of two threads: thread 0 pops and falls asleep, thread 1 pushes an item and wakes it.\<close>

definition sample_run :: "nat ts_state" where
  "sample_run = \<lparr>m_queue = [7], m_mutex = True, threads = [Pop_relock, Push_unlock], pushed = [7], popped = []\<rparr>"

lemma sample_run_reachable: "ts_reachable 2 sample_run"
proof -
  let ?s = "\<lambda>q m p0 p1 h. \<lparr>m_queue = q, m_mutex = m, threads = [p0, p1], pushed = h, popped = []\<rparr> :: nat ts_state"
  note d = at_pc_def goto_def TSQueue_pop_def TSQueue_push_def nth_Cons'
  have i: "ts_init 2 = ?s [] False Idle Idle []" by (simp add: ts_init_def numeral_2_eq_2)
  have 1: "ts_step (?s [] False Idle Idle []) (?s [] False Pop_lock Idle [])"
    using ts_step.call_pop[of "?s [] False Idle Idle []" 0] by (simp add: d)
  have 2: "ts_step (?s [] False Pop_lock Idle []) (?s [] True Pop_test Idle [])"
    using ts_step.pop_lock[of "?s [] False Pop_lock Idle []" 0] by (simp add: d)
  have 3: "ts_step (?s [] True Pop_test Idle []) (?s [] False Waiting Idle [])"
    using ts_step.pop_wait[of "?s [] True Pop_test Idle []" 0] by (simp add: d)
  have 4: "ts_step (?s [] False Waiting Idle []) (?s [] False Waiting (Push_lock 7) [])"
    using ts_step.call_push[of "?s [] False Waiting Idle []" 1 7] by (simp add: d)
  have 5: "ts_step (?s [] False Waiting (Push_lock 7) []) (?s [] True Waiting (Push_item 7) [])"
    using ts_step.push_lock[of "?s [] False Waiting (Push_lock 7) []" 1 7] by (simp add: d)
  have 6: "ts_step (?s [] True Waiting (Push_item 7) []) (?s [] True Waiting (Push_store 7 []) [])"
    using ts_step.push_item[of "?s [] True Waiting (Push_item 7) []" 1 7] by (simp add: d)
  have 8: "ts_step (?s [] True Waiting (Push_store 7 []) []) (?s [7] True Waiting Push_notify [7])"
    using ts_step.push_store[of "?s [] True Waiting (Push_store 7 []) []" 1 7 "[]"] by (simp add: d)
  have 7: "ts_step (?s [7] True Waiting Push_notify [7]) sample_run"
    using ts_step.push_notify[of "?s [7] True Waiting Push_notify [7]" 1 0] by (simp add: d sample_run_def)
  show ?thesis unfolding ts_reachable_def i
    using 1 2 3 4 5 6 8 7 by (meson converse_rtranclp_into_rtranclp rtranclp.rtrancl_refl)
qed

theorem ts_queue_fifo_witness: "pushed sample_run = popped sample_run @ m_queue sample_run"
  using ts_queue_fifo[OF sample_run_reachable] by blast

theorem ts_queue_no_lost_wakeup_witness:
  "\<exists>i p s'. at_pc sample_run i p \<and> p \<noteq> Idle \<and> p \<noteq> Waiting \<and> ts_step sample_run s' \<and> threads s' ! i \<noteq> p"
  using ts_queue_no_lost_wakeup[OF sample_run_reachable] by (simp add: sample_run_def)

end
