(* ===== verification/Mt_Queue.thy ===== *)
theory Mt_Queue
  imports TS_Queue
begin

text \<open>
  The semaphore queue \<open>Mt_Queue\<close> of \<open>src/utils/mt_queue.h\<close>: a counting semaphore \<open>qsize\<close>, a
  mutex \<open>qlock\<close> and a \<open>std::queue\<close>. Its operations as functions on the contents, and in
  micro-steps: \<open>pop\<close> acquires the semaphore before it takes the mutex and calls \<open>front()\<close> without
  a test, \<open>push\<close> releases the semaphore after it has released the mutex.
\<close>

section \<open>Atomic operations\<close>

definition Mt_Queue_push :: "'a list \<Rightarrow> 'a \<Rightarrow> 'a list" where
  "Mt_Queue_push q ptr = q @ [ptr]"

text \<open>\<open>None\<close>: \<open>qsize.acquire()\<close> blocks.\<close>

definition Mt_Queue_pop :: "'a list \<Rightarrow> ('a \<times> 'a list) option" where
  "Mt_Queue_pop q = (if q = [] then None else Some (hd q, tl q))"

definition Mt_Queue_empty :: "'a list \<Rightarrow> bool" where
  "Mt_Queue_empty q \<longleftrightarrow> q = []"

interpretation mtq: fifo Mt_Queue_push Mt_Queue_pop "\<lambda>q. q"
  by unfold_locales (auto simp: Mt_Queue_push_def Mt_Queue_pop_def split: if_splits)

section \<open>The operations in steps\<close>

datatype 'a mt_pc =
    MIdle
  | MPop_acquire
  | MPop_lock
  | MPop_front
  | MPop_remove 'a
  | MPop_store 'a "'a list"
  | MPop_unlock 'a
  | MPush_lock 'a
  | MPush_item 'a
  | MPush_store 'a "'a list"
  | MPush_unlock
  | MPush_release
  | MEmpty_lock
  | MEmpty_read
  | MEmpty_unlock bool
  | MUndefined

record 'a mt_state =
  mt_queue :: "'a list"
  qlock :: bool
  qsize :: nat
  mt_threads :: "'a mt_pc list"
  mt_pushed :: "'a list"
  mt_popped :: "'a list"

definition mt_at :: "'a mt_state \<Rightarrow> nat \<Rightarrow> 'a mt_pc \<Rightarrow> bool" where
  "mt_at s i p \<longleftrightarrow> i < length (mt_threads s) \<and> mt_threads s ! i = p"

definition mt_goto :: "nat \<Rightarrow> 'a mt_pc \<Rightarrow> 'a mt_state \<Rightarrow> 'a mt_state" where
  "mt_goto i p s = s\<lparr>mt_threads := (mt_threads s)[i := p]\<rparr>"

text \<open>
  As for \<open>TSQueue\<close>, a change of the \<open>std::queue\<close> is a load and a later store, and \<open>front()\<close> and \<open>pop()\<close>
  are separate steps. Called on an empty queue they are undefined behaviour: the thread is
  \<open>MUndefined\<close> from then on, and \<open>mt_queue_safe\<close> shows that no thread ever gets there.
\<close>

inductive mt_step :: "'a mt_state \<Rightarrow> 'a mt_state \<Rightarrow> bool" where
  mt_call_pop: "mt_at s i MIdle \<Longrightarrow> mt_step s (mt_goto i MPop_acquire s)"
| mt_acquire: "mt_at s i MPop_acquire \<Longrightarrow> 0 < qsize s \<Longrightarrow>
    mt_step s (mt_goto i MPop_lock (s\<lparr>qsize := qsize s - 1\<rparr>))"
| mt_pop_lock: "mt_at s i MPop_lock \<Longrightarrow> \<not> qlock s \<Longrightarrow>
    mt_step s (mt_goto i MPop_front (s\<lparr>qlock := True\<rparr>))"
| mt_front: "mt_at s i MPop_front \<Longrightarrow> Mt_Queue_pop (mt_queue s) = Some (x, r) \<Longrightarrow>
    mt_step s (mt_goto i (MPop_remove x) s)"
| mt_front_undefined: "mt_at s i MPop_front \<Longrightarrow> Mt_Queue_pop (mt_queue s) = None \<Longrightarrow>
    mt_step s (mt_goto i MUndefined s)"
| mt_remove: "mt_at s i (MPop_remove x) \<Longrightarrow> Mt_Queue_pop (mt_queue s) = Some (y, r) \<Longrightarrow>
    mt_step s (mt_goto i (MPop_store x r) s)"
| mt_remove_undefined: "mt_at s i (MPop_remove x) \<Longrightarrow> Mt_Queue_pop (mt_queue s) = None \<Longrightarrow>
    mt_step s (mt_goto i MUndefined s)"
| mt_pop_store: "mt_at s i (MPop_store x r) \<Longrightarrow>
    mt_step s (mt_goto i (MPop_unlock x) (s\<lparr>mt_queue := r, mt_popped := mt_popped s @ [x]\<rparr>))"
| mt_pop_unlock: "mt_at s i (MPop_unlock x) \<Longrightarrow> mt_step s (mt_goto i MIdle (s\<lparr>qlock := False\<rparr>))"
| mt_call_push: "mt_at s i MIdle \<Longrightarrow> mt_step s (mt_goto i (MPush_lock x) s)"
| mt_push_lock: "mt_at s i (MPush_lock x) \<Longrightarrow> \<not> qlock s \<Longrightarrow>
    mt_step s (mt_goto i (MPush_item x) (s\<lparr>qlock := True\<rparr>))"
| mt_push_item: "mt_at s i (MPush_item x) \<Longrightarrow> mt_step s (mt_goto i (MPush_store x (mt_queue s)) s)"
| mt_push_store: "mt_at s i (MPush_store x q) \<Longrightarrow>
    mt_step s (mt_goto i MPush_unlock
      (s\<lparr>mt_queue := Mt_Queue_push q x, mt_pushed := mt_pushed s @ [x]\<rparr>))"
| mt_push_unlock: "mt_at s i MPush_unlock \<Longrightarrow>
    mt_step s (mt_goto i MPush_release (s\<lparr>qlock := False\<rparr>))"
| mt_release: "mt_at s i MPush_release \<Longrightarrow> mt_step s (mt_goto i MIdle (s\<lparr>qsize := qsize s + 1\<rparr>))"
| mt_call_empty: "mt_at s i MIdle \<Longrightarrow> mt_step s (mt_goto i MEmpty_lock s)"
| mt_empty_lock: "mt_at s i MEmpty_lock \<Longrightarrow> \<not> qlock s \<Longrightarrow>
    mt_step s (mt_goto i MEmpty_read (s\<lparr>qlock := True\<rparr>))"
| mt_empty_read: "mt_at s i MEmpty_read \<Longrightarrow>
    mt_step s (mt_goto i (MEmpty_unlock (Mt_Queue_empty (mt_queue s))) s)"
| mt_empty_unlock: "mt_at s i (MEmpty_unlock b) \<Longrightarrow>
    mt_step s (mt_goto i MIdle (s\<lparr>qlock := False\<rparr>))"

definition mt_init :: "nat \<Rightarrow> 'a mt_state" where
  "mt_init n = \<lparr>mt_queue = [], qlock = False, qsize = 0, mt_threads = replicate n MIdle,
     mt_pushed = [], mt_popped = []\<rparr>"

definition mt_reachable :: "nat \<Rightarrow> 'a mt_state \<Rightarrow> bool" where
  "mt_reachable n s \<longleftrightarrow> mt_step\<^sup>*\<^sup>* (mt_init n) s"

section \<open>Invariant\<close>

fun holds_lock :: "'a mt_pc \<Rightarrow> bool" where
  "holds_lock MPop_front = True"
| "holds_lock (MPop_remove x) = True"
| "holds_lock (MPop_store x r) = True"
| "holds_lock (MPop_unlock x) = True"
| "holds_lock (MPush_item x) = True"
| "holds_lock (MPush_store x q) = True"
| "holds_lock MPush_unlock = True"
| "holds_lock MEmpty_read = True"
| "holds_lock (MEmpty_unlock b) = True"
| "holds_lock _ = False"

text \<open>A thread between the change of the semaphore and the change of the queue.\<close>

fun holds_token :: "'a mt_pc \<Rightarrow> bool" where
  "holds_token MPop_lock = True"
| "holds_token MPop_front = True"
| "holds_token (MPop_remove x) = True"
| "holds_token (MPop_store x r) = True"
| "holds_token MPush_unlock = True"
| "holds_token MPush_release = True"
| "holds_token _ = False"

text \<open>What a thread that holds the lock knows of the queue.\<close>

fun mt_knows :: "'a list \<Rightarrow> 'a mt_pc \<Rightarrow> bool" where
  "mt_knows q (MPush_store x q') = (q' = q)"
| "mt_knows q (MPop_remove x) = (q \<noteq> [] \<and> hd q = x)"
| "mt_knows q (MPop_store x r) = (q = x # r)"
| "mt_knows q MUndefined = False"
| "mt_knows q _ = True"

text \<open>The items are the free tokens of the semaphore plus the tokens in the hands of threads.\<close>

definition mt_inv :: "'a mt_state \<Rightarrow> bool" where
  "mt_inv s \<longleftrightarrow> count_at holds_lock (mt_threads s) = of_bool (qlock s)
     \<and> length (mt_queue s) = qsize s + count_at holds_token (mt_threads s)
     \<and> mt_pushed s = mt_popped s @ mt_queue s
     \<and> (\<forall>p \<in> set (mt_threads s). mt_knows (mt_queue s) p)"

lemma mt_goto_simps [simp]:
  "mt_queue (mt_goto i p s) = mt_queue s" "qlock (mt_goto i p s) = qlock s"
  "qsize (mt_goto i p s) = qsize s" "mt_threads (mt_goto i p s) = (mt_threads s)[i := p]"
  "mt_pushed (mt_goto i p s) = mt_pushed s" "mt_popped (mt_goto i p s) = mt_popped s"
  by (simp_all add: mt_goto_def)

lemma mt_at_counts:
  assumes "mt_at s i p"
  shows "count_at P ((mt_threads s)[i := q]) + of_bool (P p) = count_at P (mt_threads s) + of_bool (P q)"
  using assms count_at_update[of i "mt_threads s" P q] by (simp add: mt_at_def)

lemma mt_one_lock:
  assumes "mt_inv s" and "mt_at s i p" and "holds_lock p" and "mt_at s j p'" and "holds_lock p'"
  shows "i = j"
proof (rule ccontr)
  assume "i \<noteq> j"
  then have "1 < count_at holds_lock (mt_threads s)"
    using two_critical[of i "mt_threads s" j holds_lock MIdle] assms(2-5) by (simp add: mt_at_def)
  then show False using assms(1) by (cases "qlock s") (simp_all add: mt_inv_def)
qed

lemma mt_knows_outside: "mt_knows q p \<Longrightarrow> \<not> holds_lock p \<Longrightarrow> mt_knows q' p"
  by (cases p) simp_all

lemma mt_knows_after:
  assumes "mt_inv s" and "mt_at s i p" and "q' = mt_queue s \<or> holds_lock p" and "mt_knows q' p'"
  shows "\<forall>x \<in> set ((mt_threads s)[i := p']). mt_knows q' x"
proof
  fix x assume "x \<in> set ((mt_threads s)[i := p'])"
  then obtain j where j: "j < length (mt_threads s)" "x = (mt_threads s)[i := p'] ! j"
    by (auto simp: in_set_conv_nth)
  show "mt_knows q' x"
  proof (cases "j = i")
    case True
    then show ?thesis using j assms(4) by simp
  next
    case False
    then have x: "x = mt_threads s ! j" using j by simp
    then have k: "mt_knows (mt_queue s) x" using assms(1) j(1) by (simp add: mt_inv_def)
    show ?thesis
    proof (cases "q' = mt_queue s")
      case True
      then show ?thesis using k by simp
    next
      case other: False
      then have "\<not> holds_lock x"
        using mt_one_lock[OF assms(1,2), of j x] assms(3) x j(1) False by (auto simp: mt_at_def)
      then show ?thesis using mt_knows_outside[OF k] by simp
    qed
  qed
qed

lemma mt_inv_move:
  assumes "mt_inv s" and "mt_at s i p" and "mt_threads t = mt_threads s"
    and "of_bool (qlock t) + of_bool (holds_lock p) = of_bool (qlock s) + (of_bool (holds_lock q) :: nat)"
    and "length (mt_queue t) + qsize s + of_bool (holds_token p)
      = length (mt_queue s) + qsize t + of_bool (holds_token q)"
    and "mt_pushed t = mt_popped t @ mt_queue t"
    and "mt_queue t = mt_queue s \<or> holds_lock p" and "mt_knows (mt_queue t) q"
  shows "mt_inv (mt_goto i q t)"
  using assms(1-6) mt_at_counts[OF assms(2), of holds_lock q] mt_at_counts[OF assms(2), of holds_token q]
    mt_knows_after[OF assms(1,2,7,8)]
  by (simp add: mt_inv_def)

text \<open>A thread that holds a token finds the queue nonempty.\<close>

lemma mt_token: "mt_inv s \<Longrightarrow> mt_at s i p \<Longrightarrow> holds_token p \<longrightarrow> qsize s < length (mt_queue s)"
  using count_at_pos[of i "mt_threads s" holds_token] by (auto simp: mt_at_def mt_inv_def)

lemma mt_inv_knows: "mt_inv s \<Longrightarrow> mt_at s i p \<Longrightarrow> mt_knows (mt_queue s) p"
  unfolding mt_inv_def mt_at_def by (metis nth_mem)

lemma mt_lock_held: "mt_inv s \<Longrightarrow> mt_at s i p \<Longrightarrow> holds_lock p \<longrightarrow> qlock s"
  using count_at_pos[of i "mt_threads s" holds_lock] by (auto simp: mt_inv_def mt_at_def)

lemma mt_inv_history: "mt_inv s \<Longrightarrow> mt_pushed s = mt_popped s @ mt_queue s"
  by (simp add: mt_inv_def)

lemma mt_inv_init: "mt_inv (mt_init n)"
  by (simp add: mt_inv_def mt_init_def count_at_def)

lemma mt_inv_step: "mt_step s s' \<Longrightarrow> mt_inv s \<Longrightarrow> mt_inv s'"
  by (induction rule: mt_step.induct)
    ((rule mt_inv_move, assumption, assumption;
      (frule mt_inv_history, frule (1) mt_lock_held, frule (1) mt_token, frule (1) mt_inv_knows,
       auto simp: Mt_Queue_push_def Mt_Queue_pop_def split: if_splits))+)

interpretation mt: step_invariant mt_step "\<lambda>s. \<exists>n. s = mt_init n" mt_inv
  by unfold_locales (auto intro: mt_inv_init mt_inv_step)

lemma mt_inv_reachable: "mt_reachable n s \<Longrightarrow> mt_inv s"
  unfolding mt_reachable_def by (rule mt.reachable_inv) blast+

section \<open>What the queue guarantees\<close>

text \<open>C33. Safety of \<open>Mt_Queue\<close> under any interleaving: \<open>front()\<close> is only called on a nonempty queue
  although \<open>pop\<close> does not test it, so no thread ever runs into undefined behaviour; the semaphore never
  counts more items than are queued (so \<open>release\<close> stays within its maximum of 10000 while at most
  10000 items are queued); and items leave in the order in which they were pushed, none lost, although
  every change of the queue is a separate load and store.\<close>

theorem mt_queue_safe:
  assumes "mt_reachable n s"
  shows "(\<forall>i. mt_at s i MPop_front \<longrightarrow> mt_queue s \<noteq> []) \<and> (\<forall>i. \<not> mt_at s i MUndefined)
    \<and> qsize s \<le> length (mt_queue s)
    \<and> (\<forall>i. mt_at s i MPush_release \<longrightarrow> length (mt_queue s) \<le> 10000 \<longrightarrow> qsize s < 10000)
    \<and> mt_pushed s = mt_popped s @ mt_queue s"
proof -
  note inv = mt_inv_reachable[OF assms]
  have "mt_queue s \<noteq> []" if "mt_at s i MPop_front" for i using mt_token[OF inv that] by auto
  moreover have "qsize s < 10000" if "mt_at s i MPush_release" "length (mt_queue s) \<le> 10000" for i
    using mt_token[OF inv that(1)] that(2) by simp
  moreover have "\<not> mt_at s i MUndefined" for i using mt_inv_knows[OF inv, of i MUndefined] by auto
  ultimately show ?thesis using inv by (auto simp: mt_inv_def)
qed

lemma mt_step_at:
  assumes "mt_inv s" and "mt_at s i p" and "p \<noteq> MIdle" and "p = MPop_acquire \<longrightarrow> 0 < qsize s"
    and "\<not> qlock s \<or> holds_lock p"
  shows "\<exists>s'. mt_step s s' \<and> mt_threads s' ! i \<noteq> p"
proof -
  have i: "i < length (mt_threads s)" using assms(2) by (simp add: mt_at_def)
  have done_by: "\<exists>s'. mt_step s s' \<and> mt_threads s' ! i \<noteq> p"
    if "mt_step s (mt_goto i q t)" "mt_threads t = mt_threads s" "q \<noteq> p" for q t
    using that i by (intro exI[of _ "mt_goto i q t"]) simp
  show ?thesis
  proof (cases p)
    case MPop_front
    then have "mt_queue s \<noteq> []" using mt_token[OF assms(1,2)] by auto
    then show ?thesis using assms MPop_front
      by (intro done_by[OF mt_step.mt_front]) (auto simp: Mt_Queue_pop_def)
  next
    case (MPop_remove x)
    then show ?thesis using assms mt_inv_knows[OF assms(1,2)]
      by (intro done_by[OF mt_step.mt_remove]) (auto simp: Mt_Queue_pop_def)
  next
    case (MPop_store x r)
    then show ?thesis using assms by (intro done_by[OF mt_step.mt_pop_store]) auto
  next
    case (MPush_store x q)
    then show ?thesis using assms by (intro done_by[OF mt_step.mt_push_store]) auto
  next
    case MPop_acquire
    then show ?thesis using assms by (intro done_by[OF mt_step.mt_acquire]) auto
  next
    case MPop_lock
    then show ?thesis using assms by (intro done_by[OF mt_step.mt_pop_lock]) auto
  next
    case (MPop_unlock x)
    then show ?thesis using assms by (intro done_by[OF mt_step.mt_pop_unlock]) auto
  next
    case (MPush_lock x)
    then show ?thesis using assms by (intro done_by[OF mt_step.mt_push_lock]) auto
  next
    case (MPush_item x)
    then show ?thesis using assms by (intro done_by[OF mt_step.mt_push_item]) auto
  next
    case MPush_unlock
    then show ?thesis using assms by (intro done_by[OF mt_step.mt_push_unlock]) auto
  next
    case MPush_release
    then show ?thesis using assms by (intro done_by[OF mt_step.mt_release]) auto
  next
    case MEmpty_lock
    then show ?thesis using assms by (intro done_by[OF mt_step.mt_empty_lock]) auto
  next
    case MEmpty_read
    then show ?thesis using assms by (intro done_by[OF mt_step.mt_empty_read]) auto
  next
    case (MEmpty_unlock b)
    then show ?thesis using assms by (intro done_by[OF mt_step.mt_empty_unlock]) auto
  qed (use assms mt_inv_knows[OF assms(1,2)] in simp_all)
qed

lemma mt_progress:
  assumes "mt_reachable n s"
  shows "(\<exists>i p s'. mt_at s i p \<and> p \<noteq> MIdle \<and> mt_step s s' \<and> mt_threads s' ! i \<noteq> p)
    \<or> (\<forall>p \<in> set (mt_threads s). p = MIdle \<or> p = MPop_acquire)
       \<and> (MPop_acquire \<in> set (mt_threads s) \<longrightarrow> mt_queue s = [])"
proof -
  note inv = mt_inv_reachable[OF assms]
  show ?thesis
  proof (cases "qlock s")
    case True
    then obtain j where j: "j < length (mt_threads s)" "holds_lock (mt_threads s ! j)"
      using inv count_at_posD[of holds_lock "mt_threads s"] by (auto simp: mt_inv_def)
    then have "mt_at s j (mt_threads s ! j)" "mt_threads s ! j \<noteq> MIdle" "mt_threads s ! j \<noteq> MPop_acquire"
      by (auto simp: mt_at_def)
    then show ?thesis using mt_step_at[OF inv, of j] j(2) by blast
  next
    case unlocked: False
    show ?thesis
    proof (cases "\<exists>i p. mt_at s i p \<and> p \<noteq> MIdle \<and> (p = MPop_acquire \<longrightarrow> 0 < qsize s)")
      case True
      then show ?thesis using mt_step_at[OF inv] unlocked by blast
    next
      case False
      then have stuck: "\<forall>p \<in> set (mt_threads s). p = MIdle \<or> p = MPop_acquire \<and> qsize s = 0"
        by (auto simp: mt_at_def in_set_conv_nth)
      then have "count_at holds_token (mt_threads s) = 0" by (auto simp: count_at_0)
      then have "MPop_acquire \<in> set (mt_threads s) \<longrightarrow> mt_queue s = []"
        using inv stuck by (auto simp: mt_inv_def)
      then show ?thesis using stuck by blast
    qed
  qed
qed

text \<open>
  A run of two threads: thread 0 pushes three items and is about to release the semaphore for the last
  one; thread 1 pops the first and has reached \<open>front()\<close> for the second.
\<close>

definition mt_two :: "nat list \<Rightarrow> bool \<Rightarrow> nat \<Rightarrow> nat mt_pc \<Rightarrow> nat mt_pc \<Rightarrow> nat list \<Rightarrow> nat list \<Rightarrow> nat mt_state" where
  "mt_two q l z p0 p1 a b = \<lparr>mt_queue = q, qlock = l, qsize = z, mt_threads = [p0, p1], mt_pushed = a, mt_popped = b\<rparr>"

lemmas mt_two_simps = mt_two_def mt_at_def mt_goto_def Mt_Queue_pop_def Mt_Queue_push_def nth_Cons'

lemma mt_two_push:
  "mt_step\<^sup>*\<^sup>* (mt_two q False z MIdle p1 a b) (mt_two (q @ [x]) False z MPush_release p1 (a @ [x]) b)"
proof -
  let ?s = "\<lambda>q l p a. mt_two q l z p p1 a b"
  have "mt_step (?s q False MIdle a) (?s q False (MPush_lock x) a)"
    using mt_call_push[of "?s q False MIdle a" 0 x] by (simp add: mt_two_simps)
  moreover have "mt_step (?s q False (MPush_lock x) a) (?s q True (MPush_item x) a)"
    using mt_push_lock[of "?s q False (MPush_lock x) a" 0 x] by (simp add: mt_two_simps)
  moreover have "mt_step (?s q True (MPush_item x) a) (?s q True (MPush_store x q) a)"
    using mt_push_item[of "?s q True (MPush_item x) a" 0 x] by (simp add: mt_two_simps)
  moreover have "mt_step (?s q True (MPush_store x q) a) (?s (q @ [x]) True MPush_unlock (a @ [x]))"
    using mt_push_store[of "?s q True (MPush_store x q) a" 0 x q] by (simp add: mt_two_simps)
  moreover have "mt_step (?s (q @ [x]) True MPush_unlock (a @ [x])) (?s (q @ [x]) False MPush_release (a @ [x]))"
    using mt_push_unlock[of "?s (q @ [x]) True MPush_unlock (a @ [x])" 0] by (simp add: mt_two_simps)
  ultimately show ?thesis by (meson converse_rtranclp_into_rtranclp rtranclp.rtrancl_refl)
qed

lemma mt_two_release: "mt_step (mt_two q l z MPush_release p1 a b) (mt_two q l (Suc z) MIdle p1 a b)"
  using mt_release[of "mt_two q l z MPush_release p1 a b" 0] by (simp add: mt_two_simps)

lemma mt_two_front:
  "mt_step\<^sup>*\<^sup>* (mt_two q False (Suc z) p0 MIdle a b) (mt_two q True z p0 MPop_front a b)"
proof -
  let ?s = "\<lambda>l z p. mt_two q l z p0 p a b"
  have "mt_step (?s False (Suc z) MIdle) (?s False (Suc z) MPop_acquire)"
    using mt_call_pop[of "?s False (Suc z) MIdle" 1] by (simp add: mt_two_simps)
  moreover have "mt_step (?s False (Suc z) MPop_acquire) (?s False z MPop_lock)"
    using mt_acquire[of "?s False (Suc z) MPop_acquire" 1] by (simp add: mt_two_simps)
  moreover have "mt_step (?s False z MPop_lock) (?s True z MPop_front)"
    using mt_pop_lock[of "?s False z MPop_lock" 1] by (simp add: mt_two_simps)
  ultimately show ?thesis by (meson converse_rtranclp_into_rtranclp rtranclp.rtrancl_refl)
qed

lemma mt_two_take:
  "mt_step\<^sup>*\<^sup>* (mt_two (x # r) True z p0 MPop_front a b) (mt_two r False z p0 MIdle a (b @ [x]))"
proof -
  let ?s = "\<lambda>q l p b. mt_two q l z p0 p a b"
  have "mt_step (?s (x # r) True MPop_front b) (?s (x # r) True (MPop_remove x) b)"
    using mt_front[of "?s (x # r) True MPop_front b" 1 x r] by (simp add: mt_two_simps)
  moreover have "mt_step (?s (x # r) True (MPop_remove x) b) (?s (x # r) True (MPop_store x r) b)"
    using mt_remove[of "?s (x # r) True (MPop_remove x) b" 1 x x r] by (simp add: mt_two_simps)
  moreover have "mt_step (?s (x # r) True (MPop_store x r) b) (?s r True (MPop_unlock x) (b @ [x]))"
    using mt_pop_store[of "?s (x # r) True (MPop_store x r) b" 1 x r] by (simp add: mt_two_simps)
  moreover have "mt_step (?s r True (MPop_unlock x) (b @ [x])) (?s r False MIdle (b @ [x]))"
    using mt_pop_unlock[of "?s r True (MPop_unlock x) (b @ [x])" 1 x] by (simp add: mt_two_simps)
  ultimately show ?thesis by (meson converse_rtranclp_into_rtranclp rtranclp.rtrancl_refl)
qed

definition mt_sample :: "nat mt_state" where
  "mt_sample = mt_two [8, 9] True 0 MPush_release MPop_front [7, 8, 9] [7]"

lemma mt_sample_reachable: "mt_reachable 2 mt_sample"
proof -
  have "mt_init 2 = mt_two [] False 0 MIdle MIdle [] []"
    by (simp add: mt_init_def mt_two_def numeral_2_eq_2)
  moreover have "mt_step\<^sup>*\<^sup>* (mt_two [] False 0 MIdle MIdle [] []) (mt_two [7] False (Suc 0) MIdle MIdle [7] [])"
    using mt_two_push[of "[]" 0 MIdle "[]" "[]" 7] mt_two_release by (metis append_Nil rtranclp.rtrancl_into_rtrancl)
  moreover have "mt_step\<^sup>*\<^sup>* (mt_two [7] False (Suc 0) MIdle MIdle [7] [])
      (mt_two [7, 8] False (Suc (Suc 0)) MIdle MIdle [7, 8] [])"
    using mt_two_push[of "[7]" "Suc 0" MIdle "[7]" "[]" 8] mt_two_release
    by (metis append_Cons append_Nil rtranclp.rtrancl_into_rtrancl)
  moreover have "mt_step\<^sup>*\<^sup>* (mt_two [7, 8] False (Suc (Suc 0)) MIdle MIdle [7, 8] [])
      (mt_two [7, 8, 9] False (Suc (Suc 0)) MPush_release MIdle [7, 8, 9] [])"
    using mt_two_push[of "[7, 8]" "Suc (Suc 0)" MIdle "[7, 8]" "[]" 9] by simp
  moreover have "mt_step\<^sup>*\<^sup>* (mt_two [7, 8, 9] False (Suc (Suc 0)) MPush_release MIdle [7, 8, 9] [])
      (mt_two [7, 8, 9] True (Suc 0) MPush_release MPop_front [7, 8, 9] [])" by (rule mt_two_front)
  moreover have "mt_step\<^sup>*\<^sup>* (mt_two [7, 8, 9] True (Suc 0) MPush_release MPop_front [7, 8, 9] [])
      (mt_two [8, 9] False (Suc 0) MPush_release MIdle [7, 8, 9] [7])"
    using mt_two_take[of 7 "[8, 9]" "Suc 0" MPush_release "[7, 8, 9]" "[]"] by simp
  moreover have "mt_step\<^sup>*\<^sup>* (mt_two [8, 9] False (Suc 0) MPush_release MIdle [7, 8, 9] [7]) mt_sample"
    unfolding mt_sample_def by (rule mt_two_front)
  ultimately show ?thesis unfolding mt_reachable_def by (metis rtranclp_trans)
qed

theorem mt_queue_safe_witness:
  "mt_at mt_sample 1 MPop_front \<and> mt_queue mt_sample \<noteq> []
    \<and> mt_at mt_sample 0 MPush_release \<and> qsize mt_sample < 10000
    \<and> mt_pushed mt_sample = [7, 8, 9] \<and> mt_popped mt_sample @ mt_queue mt_sample = [7, 8, 9]"
proof -
  have "mt_at mt_sample 1 MPop_front" "mt_at mt_sample 0 MPush_release" "length (mt_queue mt_sample) \<le> 10000"
    "mt_pushed mt_sample = [7, 8, 9]" by (simp_all add: mt_sample_def mt_two_simps)
  then show ?thesis using mt_queue_safe[OF mt_sample_reachable] by metis
qed

end
