(* ===== verification/Aggregator.thy ===== *)
theory Aggregator
  imports Averages
begin

text \<open>
  \<open>Query_engine::aggregator\<close>: the loop over the sub-intervals of a query, the inner loop over the
  eight bits of the metric mask, and the bytes each metric appends to the result.
\<close>

section \<open>The bytes of one interval\<close>

text \<open>The \<open>switch\<close>: metrics 0 (minimum and maximum price), 1 (mean price) and 2 (total quantity);
  every other bit appends nothing.\<close>

definition metric_case :: "Query_engine \<Rightarrow> nat \<Rightarrow> u64 \<Rightarrow> u64 \<Rightarrow> byte list run" where
  "metric_case e i start_t end_t =
     (if i = 0 then
        bindR (min_max_price_in_range e start_t end_t) (\<lambda>(min_price, max_price).
          Some (Inr (le32 (price min_price) @ [price_exponent min_price] @
                     le32 (price max_price) @ [price_exponent max_price])))
      else if i = 1 then
        bindR (mean_price_in_range e start_t end_t) (\<lambda>mean_price.
          Some (Inr (le32 (price mean_price) @ [price_exponent mean_price])))
      else if i = 2 then
        bindR (total_quantity_in_range e start_t end_t) (\<lambda>total_qty.
          Some (Inr (le32 (quantity total_qty) @ [quantity_exponent total_qty])))
      else Some (Inr []))"

fun metric_loop ::
  "Query_engine \<Rightarrow> i8 \<Rightarrow> u64 \<Rightarrow> u64 \<Rightarrow> nat list \<Rightarrow> byte list \<Rightarrow> byte list run" where
  "metric_loop e chooser start_t end_t [] res = Some (Inr res)"
| "metric_loop e chooser start_t end_t (i # is) res =
     (if bit chooser i
      then bindR (metric_case e i start_t end_t) (\<lambda>bs.
             metric_loop e chooser start_t end_t is (res @ bs))
      else metric_loop e chooser start_t end_t is res)"

section \<open>The loop over the intervals\<close>

definition interval_end :: "u64 \<Rightarrow> u64 \<Rightarrow> u64 \<Rightarrow> u64" where
  "interval_end start_t res end_point =
     (let end_t = start_t + res in if end_t > end_point then end_point else end_t)"

partial_function (option) aggregator_loop ::
  "Query_engine \<Rightarrow> i8 \<Rightarrow> TradeDataQuery \<Rightarrow> u64 \<Rightarrow> byte list \<Rightarrow> byte list run" where
  "aggregator_loop e chooser query start_t res =
     (if start_t < end_time_point query then
        (case metric_loop e chooser start_t
                (interval_end start_t (resolution query) (end_time_point query)) [0..<8] res of
           None \<Rightarrow> None
         | Some (Inl err) \<Rightarrow> Some (Inl err)
         | Some (Inr res') \<Rightarrow>
             aggregator_loop e chooser query (start_t + resolution query) res')
      else Some (Inr res))"

definition aggregator :: "Query_engine \<Rightarrow> i8 \<Rightarrow> TradeDataQuery \<Rightarrow> byte list run" where
  "aggregator e chooser query = aggregator_loop e chooser query (start_time_point query) []"

lemma aggregator_loop_step:
  "start_t < end_time_point query \<Longrightarrow> aggregator_loop e chooser query start_t res =
    bindR (metric_loop e chooser start_t
             (interval_end start_t (resolution query) (end_time_point query)) [0..<8] res)
      (aggregator_loop e chooser query (start_t + resolution query))"
  by (subst aggregator_loop.simps) (simp add: bindR_def split: option.splits sum.splits)

lemma aggregator_loop_done:
  "\<not> start_t < end_time_point query \<Longrightarrow> aggregator_loop e chooser query start_t res = Some (Inr res)"
  by (subst aggregator_loop.simps) simp

section \<open>Accumulation\<close>

definition interval_bytes :: "Query_engine \<Rightarrow> i8 \<Rightarrow> u64 \<Rightarrow> u64 \<Rightarrow> byte list run" where
  "interval_bytes e chooser start_t end_t = metric_loop e chooser start_t end_t [0..<8] []"

lemma metric_loop_append:
  "metric_loop e c s t is (res @ bs) = bindR (metric_loop e c s t is bs) (\<lambda>x. Some (Inr (res @ x)))"
proof (induction "is" arbitrary: bs)
  case Nil
  then show ?case by simp
next
  case (Cons i "is")
  show ?case
  proof (cases "bit c i")
    case True
    then show ?thesis using Cons.IH by (simp add: bindR_assoc)
  next
    case False
    then show ?thesis using Cons.IH by simp
  qed
qed

lemma metric_loop_interval:
  "metric_loop e c s t [0..<8] res = bindR (interval_bytes e c s t) (\<lambda>x. Some (Inr (res @ x)))"
  using metric_loop_append[of e c s t "[0..<8]" res "[]"] by (simp add: interval_bytes_def)

definition metric_width :: "nat \<Rightarrow> nat" where
  "metric_width i = (if i = 0 then 10 else if i = 1 then 5 else if i = 2 then 5 else 0)"

definition set_width :: "i8 \<Rightarrow> nat" where
  "set_width chooser = (\<Sum>i\<leftarrow>[0..<8]. if bit chooser i then metric_width i else 0)"

lemma metric_case_length:
  "metric_case e i s t = Some (Inr bs) \<Longrightarrow> length bs = metric_width i"
  by (auto simp: metric_case_def metric_width_def bindR_eq_Inr split: if_splits)

lemma metric_loop_length:
  "metric_loop e c s t is res = Some (Inr bs) \<Longrightarrow>
    length bs = length res + (\<Sum>i\<leftarrow>is. if bit c i then metric_width i else 0)"
proof (induction "is" arbitrary: res)
  case Nil
  then show ?case by simp
next
  case (Cons i "is")
  then show ?case
    by (auto simp: bindR_eq_Inr metric_case_length split: if_splits)
qed

lemma interval_bytes_length: "interval_bytes e c s t = Some (Inr bs) \<Longrightarrow> length bs = set_width c"
  using metric_loop_length[of e c s t "[0..<8]" "[]"] by (simp add: interval_bytes_def set_width_def)

lemma upt_8: "[0..<8] = [0, 1, 2, 3, 4, 5, 6, 7 :: nat]"
  by code_simp

lemma set_width_eq:
  "set_width c = (if bit c 0 then 10 else 0) + (if bit c 1 then 5 else 0) + (if bit c 2 then 5 else 0)"
  by (simp add: set_width_def upt_8 metric_width_def)

text \<open>Only the three low bits of the mask matter.\<close>

lemma interval_bytes_eq:
  "interval_bytes e c s t =
    bindR (if bit c 0 then metric_case e 0 s t else Some (Inr [])) (\<lambda>b0.
    bindR (if bit c 1 then metric_case e 1 s t else Some (Inr [])) (\<lambda>b1.
    bindR (if bit c 2 then metric_case e 2 s t else Some (Inr [])) (\<lambda>b2.
      Some (Inr (b0 @ b1 @ b2)))))"
  by (simp add: interval_bytes_def upt_8 metric_case_def[of _ 3] metric_case_def[of _ 4]
      metric_case_def[of _ 5] metric_case_def[of _ 6] metric_case_def[of _ 7])

section \<open>The whole query\<close>

text \<open>
  The sub-intervals of \<open>[s, t)\<close> of width \<open>r\<close>, on natural numbers, and the concatenation of
  their results in order, stopping at the first error.
\<close>

function intervals :: "nat \<Rightarrow> nat \<Rightarrow> nat \<Rightarrow> (nat \<times> nat) list" where
  "intervals s t r = (if s < t \<and> 0 < r then (s, min (s + r) t) # intervals (s + r) t r else [])"
  by pat_completeness auto
termination
  by (relation "measure (\<lambda>(s, t, r). t - s)") auto

declare intervals.simps [simp del]

lemma intervals_Cons: "s < t \<Longrightarrow> 0 < r \<Longrightarrow> intervals s t r = (s, min (s + r) t) # intervals (s + r) t r"
  by (simp add: intervals.simps[of s t r])

lemma intervals_Nil: "\<not> s < t \<Longrightarrow> intervals s t r = []"
  by (simp add: intervals.simps[of s t r])

fun concat_intervals :: "(u64 \<Rightarrow> u64 \<Rightarrow> byte list run) \<Rightarrow> (nat \<times> nat) list \<Rightarrow> byte list run" where
  "concat_intervals f [] = Some (Inr [])"
| "concat_intervals f ((s, t) # is) =
     bindR (f (of_nat s) (of_nat t)) (\<lambda>bs.
     bindR (concat_intervals f is) (\<lambda>rest. Some (Inr (bs @ rest))))"

text \<open>A query whose last step does not wrap: \<open>end_time_point + resolution\<close> fits in 64 bits.\<close>

definition no_wrap :: "TradeDataQuery \<Rightarrow> bool" where
  "no_wrap q \<longleftrightarrow> 0 < resolution q \<and> unat (end_time_point q) + unat (resolution q) \<le> 2 ^ 64"

lemma step_no_wrap:
  assumes "no_wrap q" and "s < end_time_point q"
  shows "unat (s + resolution q) = unat s + unat (resolution q)"
    and "interval_end s (resolution q) (end_time_point q)
      = of_nat (min (unat s + unat (resolution q)) (unat (end_time_point q)))"
proof -
  have lt: "unat s < unat (end_time_point q)" using assms(2) by (simp add: word_less_nat_alt)
  then have "unat s + unat (resolution q) < 2 ^ 64" using assms(1) by (simp add: no_wrap_def)
  then show u: "unat (s + resolution q) = unat s + unat (resolution q)"
    by (simp add: unat_word_ariths)
  show "interval_end s (resolution q) (end_time_point q)
      = of_nat (min (unat s + unat (resolution q)) (unat (end_time_point q)))"
    using u by (auto simp: interval_end_def Let_def word_less_nat_alt min_def)
qed

lemma aggregator_loop_eq:
  assumes "no_wrap q"
  shows "aggregator_loop e c q s res =
    bindR (concat_intervals (interval_bytes e c)
             (intervals (unat s) (unat (end_time_point q)) (unat (resolution q))))
      (\<lambda>bs. Some (Inr (res @ bs)))"
proof (induction "unat (end_time_point q) - unat s" arbitrary: s res rule: less_induct)
  case less
  show ?case
  proof (cases "s < end_time_point q")
    case False
    then show ?thesis by (simp add: aggregator_loop_done intervals_Nil word_less_nat_alt)
  next
    case True
    have lt: "unat s < unat (end_time_point q)" using True by (simp add: word_less_nat_alt)
    have r: "0 < unat (resolution q)"
      using assms by (simp add: no_wrap_def word_less_nat_alt)
    note st = step_no_wrap[OF assms True]
    have "unat (end_time_point q) - unat (s + resolution q) < unat (end_time_point q) - unat s"
      using st(1) lt r by simp
    note IH = less[OF this]
    have "concat_intervals (interval_bytes e c)
        (intervals (unat s) (unat (end_time_point q)) (unat (resolution q)))
      = bindR (interval_bytes e c s (interval_end s (resolution q) (end_time_point q))) (\<lambda>bs.
        bindR (concat_intervals (interval_bytes e c)
          (intervals (unat (s + resolution q)) (unat (end_time_point q)) (unat (resolution q))))
          (\<lambda>rest. Some (Inr (bs @ rest))))"
      using lt r st by (simp add: intervals_Cons)
    then show ?thesis
      using True by (simp add: aggregator_loop_step metric_loop_interval bindR_assoc IH)
  qed
qed

lemma aggregator_eq:
  "no_wrap q \<Longrightarrow> aggregator e c q = concat_intervals (interval_bytes e c)
    (intervals (unat (start_time_point q)) (unat (end_time_point q)) (unat (resolution q)))"
  by (simp add: aggregator_def aggregator_loop_eq)

lemma length_intervals:
  assumes "0 < r"
  shows "length (intervals s t r) = (t - s) div r + (if (t - s) mod r \<noteq> 0 then 1 else 0)"
proof (induction "t - s" arbitrary: s rule: less_induct)
  case less
  show ?case
  proof (cases "s < t")
    case False
    then show ?thesis by (simp add: intervals_Nil)
  next
    case True
    show ?thesis
    proof (cases "s + r \<le> t")
      case r: True
      then obtain d where t: "t = s + r + d" using le_Suc_ex by blast
      have "length (intervals (s + r) t r)
          = (t - (s + r)) div r + (if (t - (s + r)) mod r \<noteq> 0 then 1 else 0)"
        using True assms by (intro less) simp
      moreover have "t - (s + r) = d" "t - s = d + r" using t by simp_all
      ultimately show ?thesis using True assms by (simp add: intervals_Cons)
    next
      case False
      then have "(t - s) div r = 0" "(t - s) mod r = t - s" using True by simp_all
      then show ?thesis using False True assms by (simp add: intervals_Cons intervals_Nil)
    qed
  qed
qed

lemma unat_int_ceil:
  assumes "0 < r" and "0 < unat r" 
  shows "unat (int_ceil x r) = unat x div unat r + (if unat x mod unat r \<noteq> 0 then 1 else 0)"
proof -
  have z: "x mod r \<noteq> 0 \<longleftrightarrow> unat x mod unat r \<noteq> 0"
    by (metis unat_0 unat_mod_distrib word_unat_eq_iff)
  have "unat x div unat r + 1 < 2 ^ 64 \<or> unat x mod unat r = 0"
  proof (cases "unat r = 1")
    case False
    then have "2 \<le> unat r" using assms(2) by simp
    then have "unat x div unat r \<le> unat x div 2" by (intro div_le_mono2) auto
    moreover have "unat x < 18446744073709551616" using unat_lt2p[of x] by simp
    ultimately have "unat x div unat r < 18446744073709551615" by linarith
    then show ?thesis by simp
  qed simp
  moreover have "unat x < 2 ^ 64" using unat_lt2p[of x] by simp
  from le_less_trans[OF div_le_dividend this] have "unat x div unat r < 2 ^ 64" .
  ultimately show ?thesis
    using z by (auto simp: int_ceil_def unat_word_ariths unat_div_distrib)
qed

lemma concat_intervals_length:
  "concat_intervals f is = Some (Inr bs) \<Longrightarrow>
    (\<And>s t x. f s t = Some (Inr x) \<Longrightarrow> length x = w) \<Longrightarrow> length bs = length is * w"
proof (induction f "is" arbitrary: bs rule: concat_intervals.induct)
  case (1 f)
  then show ?case by simp
next
  case (2 f s t "is")
  then show ?case by (fastforce simp: bindR_eq_Inr)
qed

lemma aggregator_result_length:
  assumes "no_wrap q" and "start_time_point q \<le> end_time_point q"
    and "aggregator e c q = Some (Inr bs)"
  shows "length bs = unat (int_ceil (end_time_point q - start_time_point q) (resolution q))
    * ((if bit c 0 then 10 else 0) + (if bit c 1 then 5 else 0) + (if bit c 2 then 5 else 0))"
proof -
  have r: "0 < unat (resolution q)" "0 < resolution q"
    using assms(1) by (simp_all add: no_wrap_def word_less_nat_alt)
  have "length bs = length (intervals (unat (start_time_point q)) (unat (end_time_point q))
      (unat (resolution q))) * set_width c"
    using assms(3) unfolding aggregator_eq[OF assms(1)]
    by (rule concat_intervals_length) (rule interval_bytes_length)
  then show ?thesis
    using unat_sub[OF assms(2)]
    by (simp add: length_intervals[OF r(1)] unat_int_ceil[OF r(2,1)] set_width_eq)
qed

section \<open>Termination\<close>

lemma concat_intervals_returns:
  assumes "\<And>s t. f s t \<noteq> None"
  shows "concat_intervals f is \<noteq> None"
  using assms
proof (induction f "is" rule: concat_intervals.induct)
  case (2 f s t "is")
  show ?case
    unfolding concat_intervals.simps by (intro bindR_not_None 2) simp
qed simp

lemma metric_loop_returns:
  assumes "\<And>i. metric_case e i s t \<noteq> None"
  shows "metric_loop e c s t is res \<noteq> None"
proof (induction "is" arbitrary: res)
  case (Cons i "is")
  show ?case
    by (simp only: metric_loop.simps split: if_split)
      (intro conjI impI bindR_not_None assms Cons.IH)
qed simp

lemma metric_case_returns: "metric_case e i s t \<noteq> None"
  unfolding metric_case_def
  by (simp only: split: if_split)
    (intro conjI impI bindR_not_None min_max_returns mean_returns total_returns;
      simp split: prod.splits)

text \<open>C37. Termination: \<open>aggregator\<close> ends, with a result or an exception, for every engine, mask
  and query with a positive resolution whose loop variable does not wrap.\<close>

theorem aggregator_terminates:
  assumes "no_wrap q"
  shows "aggregator e c q \<noteq> None"
  unfolding aggregator_eq[OF assms] interval_bytes_def
  by (intro concat_intervals_returns metric_loop_returns metric_case_returns)

theorem aggregator_terminates_witness:
  "aggregator \<lparr>data = None, trades_size = 3\<rparr> 7
     \<lparr>query_symbol_id = 1, start_time_point = 10, end_time_point = 20, resolution = 4, metrics = 1\<rparr>
   \<noteq> None"
  by (rule aggregator_terminates) (simp add: no_wrap_def)

end
