(* ===== verification/Worker.thy ===== *)
theory Worker
  imports Aggregator
begin

text \<open>
  \<open>worker_thread_loop\<close> of \<open>src/server/server.cc\<close>: the metric mask computed from the query, the
  loop that asks the engine for one sub-interval at a time and accumulates the bytes, and the
  work and result items of \<open>src/server/utils-server.h\<close>.
\<close>

section \<open>Items and mask\<close>

record WorkItem =
  work_fd :: i32
  work_query :: TradeDataQuery

record ResultItem =
  result_fd :: i32
  result_bytes :: "byte list"

definition worker_metric_list :: "u64 \<Rightarrow> i8" where
  "worker_metric_list m =
     (let l0 = 0;
          l1 = (if m AND push_bit 0 1 \<noteq> 0 then l0 OR push_bit 0 1 else l0);
          l2 = (if m AND push_bit 26 1 \<noteq> 0 then l1 OR push_bit 1 1 else l1);
          l3 = (if m AND push_bit 33 1 \<noteq> 0 then l2 OR push_bit 2 1 else l2)
      in l3)"

section \<open>The loop over the sub-intervals\<close>

partial_function (option) worker_loop ::
  "Query_engine \<Rightarrow> i8 \<Rightarrow> TradeDataQuery \<Rightarrow> u64 \<Rightarrow> byte list \<Rightarrow> byte list run" where
  "worker_loop e metric_list query start_t accumulated_buffer =
     (if start_t < end_time_point query then
        (case aggregator e metric_list
                (query\<lparr>start_time_point := start_t,
                       end_time_point := interval_end start_t (resolution query) (end_time_point query)\<rparr>) of
           None \<Rightarrow> None
         | Some (Inl err) \<Rightarrow> Some (Inl err)
         | Some (Inr interval_result) \<Rightarrow>
             worker_loop e metric_list query (start_t + resolution query)
               (accumulated_buffer @ interval_result))
      else Some (Inr accumulated_buffer))"

definition worker_process :: "Query_engine \<Rightarrow> WorkItem \<Rightarrow> ResultItem run" where
  "worker_process e work =
     (let query = work_query work; metric_list = worker_metric_list (metrics query)
      in bindR (worker_loop e metric_list query (start_time_point query) [])
           (\<lambda>buf. Some (Inr \<lparr>result_fd = work_fd work, result_bytes = buf\<rparr>)))"

lemma worker_loop_step:
  "start_t < end_time_point q \<Longrightarrow> worker_loop e c q start_t buf =
    bindR (aggregator e c (q\<lparr>start_time_point := start_t,
        end_time_point := interval_end start_t (resolution q) (end_time_point q)\<rparr>))
      (\<lambda>bs. worker_loop e c q (start_t + resolution q) (buf @ bs))"
  by (subst worker_loop.simps) (simp add: bindR_def split: option.splits sum.splits)

lemma worker_loop_done:
  "\<not> start_t < end_time_point q \<Longrightarrow> worker_loop e c q start_t buf = Some (Inr buf)"
  by (subst worker_loop.simps) simp

section \<open>The mask\<close>

lemma and_push_bit_1: "(m :: u64) AND push_bit n 1 \<noteq> 0 \<longleftrightarrow> bit m n"
  by (simp add: and_exp_eq_0_iff_not_bit push_bit_eq_mult)

lemma one_bit: "n < 8 \<Longrightarrow> bit (push_bit n 1 :: i8) i \<longleftrightarrow> i = n"
  by (auto simp: bit_simps)

lemma metric_list_bits:
  "bit (worker_metric_list m) i \<longleftrightarrow>
    i = 0 \<and> bit m 0 \<or> i = 1 \<and> bit m 26 \<or> i = 2 \<and> bit m 33"
proof -
  have b: "bit (worker_metric_list m) i \<longleftrightarrow>
      bit m 0 \<and> bit (push_bit 0 1 :: i8) i \<or> bit m 26 \<and> bit (push_bit 1 1 :: i8) i
      \<or> bit m 33 \<and> bit (push_bit 2 1 :: i8) i"
    by (simp only: worker_metric_list_def Let_def and_push_bit_1)
      (auto simp: bit_or_iff simp del: push_bit_of_1)
  have o: "bit (push_bit 0 1 :: i8) i \<longleftrightarrow> i = 0" "bit (push_bit 1 1 :: i8) i \<longleftrightarrow> i = 1"
    "bit (push_bit 2 1 :: i8) i \<longleftrightarrow> i = 2"
    by (rule one_bit; simp)+
  show ?thesis unfolding b o by blast
qed

section \<open>One aggregation per sub-interval\<close>

lemma aggregator_one_interval:
  assumes "no_wrap q" and "s < end_time_point q"
  shows "aggregator e c (q\<lparr>start_time_point := s,
      end_time_point := interval_end s (resolution q) (end_time_point q)\<rparr>)
    = interval_bytes e c s (interval_end s (resolution q) (end_time_point q))"
proof -
  let ?t = "interval_end s (resolution q) (end_time_point q)"
  let ?q = "q\<lparr>start_time_point := s, end_time_point := ?t\<rparr>"
  have lt: "unat s < unat (end_time_point q)" using assms(2) by (simp add: word_less_nat_alt)
  have r: "0 < unat (resolution q)" using assms(1) by (simp add: no_wrap_def word_less_nat_alt)
  have "min (unat s + unat (resolution q)) (unat (end_time_point q)) < 2 ^ 64"
    using unat_lt2p[of "end_time_point q"] by simp
  from unat_of_nat_u64[OF this]
  have t: "unat ?t = min (unat s + unat (resolution q)) (unat (end_time_point q))"
    using step_no_wrap(2)[OF assms] by simp
  then have "unat ?t \<le> unat (end_time_point q)" by simp
  then have "no_wrap ?q" using assms(1) unfolding no_wrap_def by simp
  moreover have "intervals (unat s) (unat ?t) (unat (resolution q)) = [(unat s, unat ?t)]"
    using t lt r by (simp add: intervals_Cons intervals_Nil)
  ultimately show ?thesis by (simp add: aggregator_eq)
qed

lemma worker_loop_eq:
  assumes "no_wrap q"
  shows "worker_loop e c q s buf = aggregator_loop e c q s buf"
proof (induction "unat (end_time_point q) - unat s" arbitrary: s buf rule: less_induct)
  case less
  show ?case
  proof (cases "s < end_time_point q")
    case False
    then show ?thesis by (simp add: worker_loop_done aggregator_loop_done)
  next
    case True
    have lt: "unat s < unat (end_time_point q)" using True by (simp add: word_less_nat_alt)
    have r: "0 < unat (resolution q)" using assms by (simp add: no_wrap_def word_less_nat_alt)
    have "unat (end_time_point q) - unat (s + resolution q) < unat (end_time_point q) - unat s"
      using step_no_wrap(1)[OF assms True] lt r by simp
    note IH = less[OF this]
    show ?thesis using True
      by (simp add: worker_loop_step aggregator_loop_step metric_loop_interval bindR_assoc
          aggregator_one_interval[OF assms] IH)
  qed
qed

text \<open>C29. Equivalence: splitting a query into sub-intervals and aggregating each one separately,
  as the worker thread does, gives the same bytes (or the same exception) as one call of
  \<open>aggregator\<close> on the whole query, whenever the resolution is positive and the loop variable
  does not wrap.\<close>

theorem worker_equals_aggregator:
  assumes "no_wrap q"
  shows "worker_loop e c q (start_time_point q) [] = aggregator e c q"
  unfolding aggregator_def by (rule worker_loop_eq[OF assms])

theorem worker_equals_aggregator_witness:
  "let q = \<lparr>query_symbol_id = 1, start_time_point = 10, end_time_point = 20, resolution = 4, metrics = 1\<rparr>
   in worker_loop (new_Query_engine (Some []) 0) 7 q 10 [] = aggregator (new_Query_engine (Some []) 0) 7 q"
  using worker_equals_aggregator[of
    "\<lparr>query_symbol_id = 1, start_time_point = 10, end_time_point = 20, resolution = 4, metrics = 1\<rparr>"
    "new_Query_engine (Some []) 0" 7]
  by (simp add: no_wrap_def)

section \<open>Queries that never finish\<close>

lemma interval_end_0: "s < t \<Longrightarrow> interval_end s 0 t = s"
  by (auto simp: interval_end_def)

lemma aggregator_empty: "\<not> start_time_point q < end_time_point q \<Longrightarrow> aggregator e c q = Some (Inr [])"
  by (simp add: aggregator_def aggregator_loop_done)

lemma worker_loop_resolution_0:
  assumes "worker_loop e c q s buf = Some r"
  shows "\<not> (resolution q = 0 \<and> s < end_time_point q)"
proof (rule worker_loop.raw_induct[where P = "\<lambda>e c q s buf r. \<not> (resolution q = 0 \<and> s < end_time_point q)",
      OF _ assms])
  fix f :: "Query_engine \<Rightarrow> i8 \<Rightarrow> TradeDataQuery \<Rightarrow> u64 \<Rightarrow> byte list \<Rightarrow> byte list run"
  fix e c q s buf y
  assume IH: "\<And>e c q s buf y. f e c q s buf = Some y \<Longrightarrow> \<not> (resolution q = 0 \<and> s < end_time_point q)"
    and eq: "(if s < end_time_point q then
        (case aggregator e c
                (q\<lparr>start_time_point := s,
                   end_time_point := interval_end s (resolution q) (end_time_point q)\<rparr>) of
           None \<Rightarrow> None
         | Some (Inl err) \<Rightarrow> Some (Inl err)
         | Some (Inr interval_result) \<Rightarrow> f e c q (s + resolution q) (buf @ interval_result))
      else Some (Inr buf)) = Some y"
  show "\<not> (resolution q = 0 \<and> s < end_time_point q)"
  proof
    assume a: "resolution q = 0 \<and> s < end_time_point q"
    then have "f e c q s buf = Some y" using eq by (simp add: interval_end_0 aggregator_empty)
    then show False using IH a by blast
  qed
qed

lemma resolution_0_diverges:
  assumes "resolution (work_query w) = 0"
    and "start_time_point (work_query w) < end_time_point (work_query w)"
  shows "worker_process e w = None"
  using worker_loop_resolution_0[of e _ "work_query w" "start_time_point (work_query w)" "[]"] assms
  by (cases "worker_loop e (worker_metric_list (metrics (work_query w))) (work_query w)
      (start_time_point (work_query w)) []") (auto simp: worker_process_def Let_def)

section \<open>Termination and total correctness\<close>

lemma worker_process_eq:
  assumes "no_wrap (work_query w)"
  shows "worker_process e w =
    bindR (aggregator e (worker_metric_list (metrics (work_query w))) (work_query w))
      (\<lambda>buf. Some (Inr \<lparr>result_fd = work_fd w, result_bytes = buf\<rparr>))"
  by (simp add: worker_process_def Let_def worker_loop_eq[OF assms]
      aggregator_def)

text \<open>
  The abstract response: for each sub-interval and each selected metric, the bytes of the value
  computed from the records the interval selects.
\<close>

definition minmax_bytes :: "TradeData list \<Rightarrow> byte list" where
  "minmax_bytes w = (let m = fold minmax_body w minmax_init
     in encode_Price (min_p m) @ encode_Price (max_p m))"

definition mean_bytes :: "TradeData list \<Rightarrow> byte list" where
  "mean_bytes w = (let (m, k) = to_mantissa (mean_of (fold mean_body w (0, 0)))
     in encode_Price \<lparr>price = m, price_exponent = k\<rparr>)"

definition total_bytes :: "TradeData list \<Rightarrow> byte list" where
  "total_bytes w = (let (m, k) = to_mantissa (fold total_body w 0)
     in encode_Quantity \<lparr>quantity = m, quantity_exponent = k\<rparr>)"

definition interval_spec :: "TradeData list \<Rightarrow> i8 \<Rightarrow> u64 \<Rightarrow> u64 \<Rightarrow> byte list" where
  "interval_spec ts c s t = (let w = window_read s t ts in
     (if bit c 0 then minmax_bytes w else []) @
     (if bit c 1 then mean_bytes w else []) @
     (if bit c 2 then total_bytes w else []))"

definition response_spec :: "TradeData list \<Rightarrow> TradeDataQuery \<Rightarrow> byte list" where
  "response_spec ts q = concat (map (\<lambda>(s, t).
       interval_spec ts (worker_metric_list (metrics q)) (of_nat s) (of_nat t))
     (intervals (unat (start_time_point q)) (unat (end_time_point q)) (unat (resolution q))))"

lemma length_interval_spec [simp]: "length (interval_spec ts c s t) = set_width c"
  by (simp add: interval_spec_def minmax_bytes_def mean_bytes_def total_bytes_def set_width_eq
      Let_def split: prod.splits)

lemma interval_bytes_spec:
  assumes "covers t e" and "time_sorted (records e)" and "records e \<noteq> []" and "s < t"
  shows "interval_bytes e c s t = Some (Inr (interval_spec (records e) c s t))"
proof -
  have "metric_case e 0 s t = Some (Inr (minmax_bytes (window_read s t (records e))))"
    by (simp add: metric_case_def min_max_closed[OF assms] minmax_bytes_def encode_Price_def Let_def)
  moreover have "metric_case e 1 s t = Some (Inr (mean_bytes (window_read s t (records e))))"
    by (simp add: metric_case_def mean_closed[OF assms] mean_bytes_def encode_Price_def Let_def
        split: prod.splits)
  moreover have "metric_case e 2 s t = Some (Inr (total_bytes (window_read s t (records e))))"
    by (simp add: metric_case_def total_closed[OF assms] total_bytes_def encode_Quantity_def Let_def
        split: prod.splits)
  ultimately show ?thesis by (simp add: interval_bytes_eq interval_spec_def Let_def)
qed

lemma intervals_bounds:
  "(a, b) \<in> set (intervals s t r) \<Longrightarrow> a < b \<and> b \<le> t"
proof (induction s t r rule: intervals.induct)
  case (1 s t r)
  then show ?case by (auto simp: intervals.simps[of s t r] split: if_splits)
qed

lemma concat_intervals_spec:
  assumes "covers t e" and "time_sorted (records e)" and "records e \<noteq> []"
    and "\<forall>(a, b) \<in> set is. a < b \<and> b \<le> unat t"
  shows "concat_intervals (interval_bytes e c) is =
    Some (Inr (concat (map (\<lambda>(s, t). interval_spec (records e) c (of_nat s) (of_nat t)) is)))"
  using assms(4)
proof (induction "is")
  case Nil
  then show ?case by simp
next
  case (Cons i "is")
  obtain a b where i: "i = (a, b)" by (cases i)
  have ab: "a < b" "b \<le> unat t" using Cons.prems i by auto
  then have "b < 2 ^ 64" using unat_lt2p[of t] by simp
  then have u: "unat (of_nat a :: u64) = a" "unat (of_nat b :: u64) = b"
    using unat_of_nat_u64[of a] unat_of_nat_u64[of b] ab by simp_all
  then have lt: "(of_nat a :: u64) < of_nat b" and le: "of_nat b \<le> t"
    using ab by (simp_all add: word_less_nat_alt word_le_nat_alt)
  from assms(1) le have "covers (of_nat b) e" by (rule covers_mono)
  note interval_bytes_spec[OF this assms(2,3) lt]
  then show ?case using Cons by (simp add: i)
qed

lemma aggregator_spec:
  assumes "covers (end_time_point q) e" and "time_sorted (records e)" and "records e \<noteq> []" and "no_wrap q"
  shows "aggregator e c q = Some (Inr (concat (map (\<lambda>(s, t).
       interval_spec (records e) c (of_nat s) (of_nat t))
     (intervals (unat (start_time_point q)) (unat (end_time_point q)) (unat (resolution q))))))"
proof -
  have "\<forall>(a, b) \<in> set (intervals (unat (start_time_point q)) (unat (end_time_point q))
      (unat (resolution q))). a < b \<and> b \<le> unat (end_time_point q)"
    using intervals_bounds by fastforce
  from concat_intervals_spec[OF assms(1-3) this] show ?thesis
    by (simp add: aggregator_eq[OF assms(4)])
qed

lemma worker_spec:
  assumes "covers (end_time_point (work_query w)) e" and "time_sorted (records e)" and "records e \<noteq> []"
    and "no_wrap (work_query w)"
  shows "worker_process e w =
    Some (Inr \<lparr>result_fd = work_fd w, result_bytes = response_spec (records e) (work_query w)\<rparr>)"
  by (simp add: worker_process_eq[OF assms(4)] aggregator_spec[OF assms] response_spec_def)

text \<open>C8. Refinement: on a time-ordered, nonempty file whose searches are safe up to the end of
  the query (\<open>covers\<close>), the worker never fails on a query whose loop does not wrap; it returns, for the client that asked,
  exactly the bytes of the abstract response (one set per sub-interval, in time order).\<close>

theorem worker_refines_spec:
  assumes "covers (end_time_point (work_query w)) e" and "time_sorted (records e)" and "records e \<noteq> []"
    and "no_wrap (work_query w)"
  shows "worker_process e w =
    Some (Inr \<lparr>result_fd = work_fd w, result_bytes = response_spec (records e) (work_query w)\<rparr>)"
  using assms by (rule worker_spec)

theorem worker_refines_spec_witness:
  "worker_process (open_file 0 sample_trades)
     \<lparr>work_fd = 5, work_query = \<lparr>query_symbol_id = 1, start_time_point = 10, end_time_point = 40,
        resolution = 15, metrics = 1 + 2 ^ 33\<rparr>\<rparr>
   = Some (Inr \<lparr>result_fd = 5, result_bytes = response_spec sample_trades
       \<lparr>query_symbol_id = 1, start_time_point = 10, end_time_point = 40,
        resolution = 15, metrics = 1 + 2 ^ 33\<rparr>\<rparr>)"
  using worker_refines_spec[OF sample_covers, of "\<lparr>work_fd = 5, work_query = \<lparr>query_symbol_id = 1,
      start_time_point = 10, end_time_point = 40, resolution = 15, metrics = 1 + 2 ^ 33\<rparr>\<rparr>"]
    sample_sorted
  by (simp add: no_wrap_def sample_trades_def)

text \<open>Shape of the response: on a time-ordered, nonempty file whose searches are safe up to
  the end of the query (\<open>covers\<close>), \<open>aggregator\<close> returns one set per sub-interval, \<open>int_ceil (end - start) resolution\<close> of
  them, each of 10 bytes for minimum and maximum price plus 5 for the mean price plus 5 for the
  total quantity, as the mask selects.\<close>

theorem aggregator_length:
  assumes "covers (end_time_point q) e" and "time_sorted (records e)" and "records e \<noteq> []"
    and "no_wrap q" and "start_time_point q \<le> end_time_point q"
  shows "\<exists>bs. aggregator e c q = Some (Inr bs)
    \<and> length bs = unat (int_ceil (end_time_point q - start_time_point q) (resolution q))
        * ((if bit c 0 then 10 else 0) + (if bit c 1 then 5 else 0) + (if bit c 2 then 5 else 0))"
  using aggregator_spec[OF assms(1-4)] aggregator_result_length[OF assms(4,5)] by blast

theorem aggregator_length_witness:
  "\<exists>bs. aggregator (open_file 0 sample_trades) 5
      \<lparr>query_symbol_id = 1, start_time_point = 10, end_time_point = 40, resolution = 12, metrics = 0\<rparr>
     = Some (Inr bs) \<and> length bs = 45"
  using aggregator_length[OF sample_covers, of "\<lparr>query_symbol_id = 1, start_time_point = 10,
      end_time_point = 40, resolution = 12, metrics = 0\<rparr>" 5] sample_sorted
  by (simp add: no_wrap_def sample_trades_def int_ceil_def)

section \<open>Queries that end in an exception\<close>

lemma concat_intervals_fails:
  assumes "\<And>s t. f s t \<noteq> None" and "(a, b) \<in> set is" and "f (of_nat a) (of_nat b) = Some (Inl err)"
  shows "\<exists>err. concat_intervals f is = Some (Inl err)"
  using assms(2)
proof (induction "is")
  case (Cons i "is")
  obtain c d where i: "i = (c, d)" by (cases i)
  show ?case
  proof (cases "f (of_nat c) (of_nat d)")
    case None
    then show ?thesis using assms(1) by blast
  next
    case (Some r)
    show ?thesis
    proof (cases r)
      case (Inl err')
      then show ?thesis using Some i by simp
    next
      case (Inr bs)
      then have "(a, b) \<in> set is" using Cons.prems i Some assms(3) by auto
      from Cons.IH[OF this] show ?thesis using Some Inr i by auto
    qed
  qed
qed simp

lemma last_interval:
  "s < t \<Longrightarrow> 0 < r \<Longrightarrow> \<exists>a. a < t \<and> (a, t) \<in> set (intervals s t r)"
proof (induction s t r rule: intervals.induct)
  case (1 s t r)
  show ?case
  proof (cases "s + r < t")
    case True
    then obtain a where "a < t" "(a, t) \<in> set (intervals (s + r) t r)" using 1 by blast
    then show ?thesis using 1(2,3) by (auto simp: intervals_Cons)
  next
    case False
    then have "min (s + r) t = t" by simp
    then show ?thesis using 1(2,3) by (auto simp: intervals_Cons)
  qed
qed

lemma interval_bytes_returns: "interval_bytes e c s t \<noteq> None"
  unfolding interval_bytes_def by (intro metric_loop_returns metric_case_returns)

lemma interval_bytes_crash:
  assumes "31 \<le> length ts" and "length ts < 2 ^ 57" and "s < t"
    and "\<forall>x \<in> set ts. created_at x < t" and "bit c 0 \<or> bit c 1 \<or> bit c 2"
  shows "\<exists>err. interval_bytes (open_file pad ts) c s t = Some (Inl err)"
proof -
  from metrics_crash[OF assms(1-4), of pad] obtain i where
    "min_max_price_in_range (open_file pad ts) s t = Some (Inl (Read_failed i))"
    "total_quantity_in_range (open_file pad ts) s t = Some (Inl (Read_failed i))"
    "mean_price_in_range (open_file pad ts) s t = Some (Inl (Read_failed i))" by blast
  then show ?thesis using assms(5) by (auto simp: interval_bytes_eq metric_case_def)
qed

text \<open>A query for any metric whose range ends after the last trade makes the worker throw.\<close>

lemma worker_crash:
  assumes "31 \<le> length ts" and "length ts < 2 ^ 57" and "no_wrap (work_query w)"
    and "start_time_point (work_query w) < end_time_point (work_query w)"
    and "\<forall>x \<in> set ts. created_at x < end_time_point (work_query w)"
    and "bit (metrics (work_query w)) 0 \<or> bit (metrics (work_query w)) 26 \<or> bit (metrics (work_query w)) 33"
  shows "\<exists>err. worker_process (open_file pad ts) w = Some (Inl err)"
proof -
  let ?q = "work_query w" and ?c = "worker_metric_list (metrics (work_query w))"
  have r: "0 < unat (resolution ?q)" using assms(3) by (simp add: no_wrap_def word_less_nat_alt)
  have lt: "unat (start_time_point ?q) < unat (end_time_point ?q)"
    using assms(4) by (simp add: word_less_nat_alt)
  from last_interval[OF lt r] obtain a where a: "a < unat (end_time_point ?q)"
    "(a, unat (end_time_point ?q)) \<in> set (intervals (unat (start_time_point ?q))
       (unat (end_time_point ?q)) (unat (resolution ?q)))" by blast
  have "a < 2 ^ 64" using a(1) unat_lt2p[of "end_time_point ?q"] by simp
  then have alt: "(of_nat a :: u64) < end_time_point ?q"
    using a(1) unat_of_nat_u64[of a] by (simp add: word_less_nat_alt)
  have "bit ?c 0 \<or> bit ?c 1 \<or> bit ?c 2" using assms(6) by (simp add: metric_list_bits)
  from interval_bytes_crash[OF assms(1,2) alt assms(5) this]
  obtain err where "interval_bytes (open_file pad ts) ?c (of_nat a) (of_nat (unat (end_time_point ?q)))
      = Some (Inl err)" by auto
  from concat_intervals_fails[where f = "interval_bytes (open_file pad ts) ?c", OF interval_bytes_returns a(2) this] show ?thesis
    by (auto simp: worker_process_eq[OF assms(3)] aggregator_eq[OF assms(3)])
qed

section \<open>Wrap-around\<close>

lemma interval_bytes_0: "interval_bytes e 0 s t = Some (Inr [])"
  by (simp add: interval_bytes_eq)

text \<open>A query whose loop variable alternates between \<open>0\<close> and \<open>2 ^ 63\<close>.\<close>

definition half_range :: u64 where "half_range = 2 ^ 63"

lemma half_range: "0 < half_range" "half_range + half_range = 0" "unat half_range = 2 ^ 63" "half_range \<noteq> 0"
  by (simp_all add: half_range_def)

definition alternates :: "TradeDataQuery \<Rightarrow> bool" where
  "alternates q \<longleftrightarrow> start_time_point q = 0 \<and> resolution q = half_range \<and> half_range < end_time_point q"

lemma alternates_intervals:
  assumes "alternates q"
  shows "0 < end_time_point q" and "interval_end 0 (resolution q) (end_time_point q) = half_range"
    and "interval_end half_range (resolution q) (end_time_point q) = 0"
proof -
  have q: "resolution q = half_range" "half_range < end_time_point q" using assms by (simp_all add: alternates_def)
  show "0 < end_time_point q" using half_range(1) q(2) by (rule less_trans)
  then show "interval_end half_range (resolution q) (end_time_point q) = 0"
    by (simp add: interval_end_def q(1) half_range(2))
  show "interval_end 0 (resolution q) (end_time_point q) = half_range"
    using q(2) by (auto simp: interval_end_def q(1))
qed

lemma worker_loop_alternates:
  assumes "worker_loop e c q s buf = Some r"
  shows "\<not> (alternates q \<and> (\<exists>bs. aggregator e c (q\<lparr>start_time_point := 0, end_time_point := half_range\<rparr>) = Some (Inr bs))
    \<and> (s = 0 \<or> s = half_range))" (is "\<not> ?P e c q s")
proof (rule worker_loop.raw_induct[where P = "\<lambda>e c q s buf r. \<not> ?P e c q s", OF _ assms])
  fix f :: "Query_engine \<Rightarrow> i8 \<Rightarrow> TradeDataQuery \<Rightarrow> u64 \<Rightarrow> byte list \<Rightarrow> byte list run"
  fix e c q s buf y
  assume IH: "\<And>e c q s buf y. f e c q s buf = Some y \<Longrightarrow> \<not> ?P e c q s"
    and eq: "(if s < end_time_point q then
        (case aggregator e c
                (q\<lparr>start_time_point := s,
                   end_time_point := interval_end s (resolution q) (end_time_point q)\<rparr>) of
           None \<Rightarrow> None
         | Some (Inl err) \<Rightarrow> Some (Inl err)
         | Some (Inr interval_result) \<Rightarrow> f e c q (s + resolution q) (buf @ interval_result))
      else Some (Inr buf)) = Some y"
  show "\<not> ?P e c q s"
  proof
    assume a: "?P e c q s"
    then obtain bs where bs: "aggregator e c (q\<lparr>start_time_point := 0, end_time_point := half_range\<rparr>) = Some (Inr bs)"
      by blast
    have q: "alternates q" and res: "resolution q = half_range" and lt: "half_range < end_time_point q"
      using a by (simp_all add: alternates_def)
    note i = alternates_intervals[OF q]
    from a have "s = 0 \<or> s = half_range" by blast
    then show False
    proof
      assume s: "s = 0"
      have "f e c q (half_range) (buf @ bs) = Some y"
        using eq unfolding s i(2) bs unfolding res by (simp add: i(1))
      then show False using IH a by blast
    next
      assume s: "s = half_range"
      have none: "aggregator e c (q\<lparr>start_time_point := half_range, end_time_point := 0\<rparr>) = Some (Inr [])"
        by (rule aggregator_empty) simp
      have "f e c q 0 (buf @ []) = Some y"
        using eq unfolding s i(3) none unfolding res by (simp add: lt half_range(2))
      then show False using IH a by blast
    qed
  qed
qed

text \<open>C38. A positive resolution alone does not make the loop end: the worker never comes to an end with a
  query for any metrics that starts at time 0, has resolution \<open>2^63\<close> and ends after \<open>2^63\<close>, over any
  time-ordered, nonempty file whose searches are safe up to time \<open>2^63\<close>: the 64-bit loop variable
  alternates between \<open>0\<close> and \<open>2^63\<close>.\<close>

theorem worker_wrap_diverges:
  assumes "start_time_point (work_query w) = 0" and "resolution (work_query w) = 2 ^ 63"
    and "2 ^ 63 < end_time_point (work_query w)"
    and "covers (2 ^ 63) e" and "time_sorted (records e)" and "records e \<noteq> []"
  shows "worker_process e w = None"
proof -
  let ?q = "work_query w" and ?c = "worker_metric_list (metrics (work_query w))"
  let ?q' = "work_query w\<lparr>start_time_point := 0, end_time_point := half_range\<rparr>"
  note half = assms(2-4)[folded half_range_def]
  have q: "alternates ?q" using assms(1) half by (simp add: alternates_def)
  have "no_wrap ?q'" by (simp add: no_wrap_def half(1) half_range)
  from aggregator_spec[OF _ assms(5,6) this, of ?c] half(3)
  have "\<exists>bs. aggregator e ?c ?q' = Some (Inr bs)" by simp
  then have "worker_loop e ?c ?q 0 [] \<noteq> Some r" for r
    using worker_loop_alternates[of e ?c ?q 0 "[]" r] q by blast
  then have "worker_loop e ?c ?q (start_time_point ?q) [] = None"
    unfolding assms(1) by (cases "worker_loop e ?c ?q 0 []") auto
  then show ?thesis by (simp add: worker_process_def Let_def)
qed

text \<open>Minimum and maximum price over the sample file.\<close>

theorem worker_wrap_diverges_witness:
  "worker_process (open_file 0 sample_trades) \<lparr>work_fd = 7, work_query = \<lparr>query_symbol_id = 1,
     start_time_point = 0, end_time_point = - 1, resolution = 2 ^ 63, metrics = 1\<rparr>\<rparr> = None"
proof (rule worker_wrap_diverges)
  show "2 ^ 63 < end_time_point (work_query \<lparr>work_fd = 7, work_query = \<lparr>query_symbol_id = 1,
     start_time_point = 0, end_time_point = - 1, resolution = 2 ^ 63, metrics = 1\<rparr>\<rparr>)"
    by code_simp
qed (use sample_covers sample_sorted in \<open>simp_all add: sample_trades_def\<close>)

section \<open>The symbol of the query\<close>

text \<open>The symbol of the query plays no role: two queries that differ only in \<open>symbol_id\<close> get
  the same response (the engine never compares it with the symbol of a record).\<close>

theorem worker_ignores_symbol:
  assumes "no_wrap (work_query w)"
  shows "worker_process e (w\<lparr>work_query := (work_query w)\<lparr>query_symbol_id := sid\<rparr>\<rparr>) = worker_process e w"
proof -
  have "no_wrap ((work_query w)\<lparr>query_symbol_id := sid\<rparr>)" using assms by (simp add: no_wrap_def)
  then show ?thesis using assms by (simp add: worker_process_eq aggregator_eq)
qed

theorem worker_ignores_symbol_witness:
  "let q = \<lparr>query_symbol_id = 1, start_time_point = 10, end_time_point = 20, resolution = 4, metrics = 1\<rparr>
   in worker_process (new_Query_engine (Some []) 0) \<lparr>work_fd = 5, work_query = q\<lparr>query_symbol_id := 2\<rparr>\<rparr>
    = worker_process (new_Query_engine (Some []) 0) \<lparr>work_fd = 5, work_query = q\<rparr>"
  using worker_ignores_symbol[of
    "\<lparr>work_fd = 5, work_query = \<lparr>query_symbol_id = 1, start_time_point = 10, end_time_point = 20,
      resolution = 4, metrics = 1\<rparr>\<rparr>" "new_Query_engine (Some []) 0" 2]
  by (simp add: no_wrap_def)

end
