(* ===== verification/Net.thy ===== *)
theory Net
  imports Prelude
begin

text \<open>
  \<open>src/utils/helper/utils.h\<close> and \<open>src/utils/net/net.h\<close> (\<open>net_udp.h\<close> differs only in the type of the
  socket): the check that turns a failed system call into an exception, and socket addresses.
\<close>

definition check_error :: "bool \<Rightarrow> string \<Rightarrow> unit result" where
  "check_error failed msg = (if failed then Inl (Check_error msg) else Inr ())"

lemma check_error_simps [simp]:
  "check_error True msg = Inl (Check_error msg)" "check_error False msg = Inr ()"
  by (simp_all add: check_error_def)

lemma check_error_eq_Inr: "check_error b msg = Inr u \<longleftrightarrow> \<not> b"
  by (simp add: check_error_def)

text \<open>\<open>sock\<close> is what \<open>socket\<close> returned.\<close>

definition create_socket :: "int \<Rightarrow> int result" where
  "create_socket sock = bindE (check_error (sock < 0) ''Socket creation error'') (\<lambda>_. Inr sock)"

record sockaddr_in =
  sin_family :: u16
  sin_port :: u16
  sin_addr :: u32

definition AF_INET :: u16 where "AF_INET = 2"

text \<open>Host to network byte order on a little-endian machine.\<close>

definition htons :: "u16 \<Rightarrow> u16" where
  "htons p = push_bit 8 p OR drop_bit 8 p"

text \<open>\<open>junk\<close> is the uninitialised \<open>sin_addr\<close>.\<close>

definition create_address :: "u32 \<Rightarrow> u16 \<Rightarrow> sockaddr_in" where
  "create_address junk port = \<lparr>sin_family = AF_INET, sin_port = htons port, sin_addr = junk\<rparr>"

lemma htons_bit: "n < 16 \<Longrightarrow> bit (htons p) n \<longleftrightarrow> bit p (if n < 8 then n + 8 else n - 8)"
proof -
  assume n: "n < 16"
  have "\<not> bit p (n + 8)" if "8 \<le> n" using that bit_imp_le_length[of p "n + 8"] by auto
  then show ?thesis using n by (auto simp: htons_def bit_simps add.commute)
qed

lemma htons_htons: "htons (htons p) = p"
proof (rule bit_word_eqI)
  fix n assume "n < LENGTH(16)"
  then have "n < 16" by simp
  then consider "n < 8" | m where "n = m + 8" "m < 8" by (metis Nat.le_imp_diff_is_add
        add_less_cancel_right linorder_not_less numeral_Bit0)
  then show "bit (htons (htons p)) n \<longleftrightarrow> bit p n" by cases (simp_all add: htons_bit)
qed

end
