(* ===== verification/Server.thy ===== *)
theory Server
  imports Worker TS_Queue Net
begin

text \<open>
  \<open>EpollServer\<close> of \<open>src/server/server.h\<close> and \<open>src/server/server.cc\<close>: the state of the main thread
  and one function per handler. The kernel is part of the state as far as the handlers change it
  (which descriptors are open and for which connection, what epoll watches, what was put on the
  wire of each connection); what a system call returns is an argument of the handler.
\<close>

section \<open>State\<close>

record OutgoingBuffer =
  buffer :: "byte list"
  sent_bytes :: nat

text \<open>
  \<open>conn fd\<close> is the connection behind an open descriptor: the kernel gives the number of a closed
  descriptor to a later connection, so a descriptor does not identify a client, \<open>conn fd\<close> does.
  \<open>wire c\<close> are the bytes sent on connection \<open>c\<close>; \<open>next_conn\<close> numbers the connections.
\<close>

record EpollServer =
  server_listen_fd :: i32
  write_buffers :: "i32 \<Rightarrow> OutgoingBuffer option"
  work_queue :: "WorkItem list"
  results_queue :: "ResultItem list"
  interest :: "i32 \<Rightarrow> u32 option"
  conn :: "i32 \<Rightarrow> nat option"
  next_conn :: nat
  wire :: "nat \<Rightarrow> byte list"

definition EPOLLIN :: u32 where "EPOLLIN = 1"
definition EPOLLOUT :: u32 where "EPOLLOUT = 4"
definition EPOLLET :: u32 where "EPOLLET = push_bit 31 1"

text \<open>The errors the code distinguishes.\<close>

datatype errno = EAGAIN | Other_errno

text \<open>Effects on the kernel's side.\<close>

definition close_fd :: "i32 \<Rightarrow> EpollServer \<Rightarrow> EpollServer" where
  "close_fd fd s = s\<lparr>conn := (conn s)(fd := None), interest := (interest s)(fd := None)\<rparr>"

definition epoll_mod :: "i32 \<Rightarrow> u32 \<Rightarrow> EpollServer \<Rightarrow> EpollServer" where
  "epoll_mod fd evs s =
     (if interest s fd = None then s else s\<lparr>interest := (interest s)(fd \<mapsto> evs)\<rparr>)"

definition transmit :: "i32 \<Rightarrow> byte list \<Rightarrow> EpollServer \<Rightarrow> EpollServer" where
  "transmit fd bs s = (case conn s fd of
      None \<Rightarrow> s
    | Some c \<Rightarrow> s\<lparr>wire := (wire s)(c := wire s c @ bs)\<rparr>)"

definition erase_buffer :: "i32 \<Rightarrow> EpollServer \<Rightarrow> EpollServer" where
  "erase_buffer fd s = s\<lparr>write_buffers := (write_buffers s)(fd := None)\<rparr>"

section \<open>Start\<close>

text \<open>
  The system calls of the constructor in order: socket, epoll_create1 (unchecked), the two
  setsockopt, fcntl get and set, bind, epoll_ctl. Each is given by its return value.
\<close>

definition make_non_blocking :: "int \<Rightarrow> int \<Rightarrow> unit result" where
  "make_non_blocking getfl setfl =
     bindE (check_error (getfl = - 1) ''Failed to get socket flags'') (\<lambda>_.
     check_error (setfl = - 1) ''Failed to set socket to non-blocking'')"

definition bind_server :: "int \<Rightarrow> unit result" where
  "bind_server ret = check_error (ret < 0) ''Failed to bind server socket''"

definition add_to_epoll :: "i32 \<Rightarrow> u32 \<Rightarrow> int \<Rightarrow> EpollServer \<Rightarrow> EpollServer result" where
  "add_to_epoll sock evs ret s =
     bindE (check_error (ret = - 1) ''Failed to add socket to epoll'') (\<lambda>_.
     Inr (s\<lparr>interest := (interest s)(sock \<mapsto> evs)\<rparr>))"

record startup_calls =
  ret_socket :: int
  ret_reuseaddr :: int
  ret_reuseport :: int
  ret_getfl :: int
  ret_setfl :: int
  ret_bind :: int
  ret_ctl :: int
  ret_listen :: int

definition empty_server :: "i32 \<Rightarrow> EpollServer" where
  "empty_server fd = \<lparr>server_listen_fd = fd, write_buffers = (\<lambda>_. None), work_queue = [],
     results_queue = [], interest = (\<lambda>_. None), conn = (\<lambda>_. None), next_conn = 0, wire = (\<lambda>_. [])\<rparr>"

definition new_EpollServer :: "startup_calls \<Rightarrow> EpollServer result" where
  "new_EpollServer c =
     bindE (create_socket (ret_socket c)) (\<lambda>fd.
     bindE (check_error (ret_reuseaddr c < 0) ''Failed to set SO_REUSEADDR'') (\<lambda>_.
     bindE (check_error (ret_reuseport c < 0) ''Failed to set SO_REUSEPORT'') (\<lambda>_.
     bindE (make_non_blocking (ret_getfl c) (ret_setfl c)) (\<lambda>_.
     bindE (bind_server (ret_bind c)) (\<lambda>_.
     add_to_epoll (word_of_int fd) EPOLLIN (ret_ctl c) (empty_server (word_of_int fd)))))))"

text \<open>
  The destructor, on the set of the open descriptors of the process; the descriptor of the epoll
  instance, which no other operation reads back, is an argument. Descriptors of connected clients
  stay open.
\<close>

definition delete_EpollServer :: "i32 \<Rightarrow> EpollServer \<Rightarrow> i32 set \<Rightarrow> i32 set" where
  "delete_EpollServer epoll_fd s fds = fds - {server_listen_fd s} - {epoll_fd}"

lemma delete_EpollServer_clients:
  assumes "conn s fd = Some c" and "fd \<noteq> server_listen_fd s" and "fd \<noteq> epoll_fd" and "dom (conn s) \<subseteq> fds"
  shows "fd \<in> delete_EpollServer epoll_fd s fds"
  using assms by (auto simp: delete_EpollServer_def)

text \<open>The head of \<open>run\<close>, before its loop.\<close>

definition start_run :: "startup_calls \<Rightarrow> EpollServer result" where
  "start_run c = bindE (new_EpollServer c) (\<lambda>s.
     bindE (check_error (ret_listen c < 0) ''Failed to listen on server socket'') (\<lambda>_. Inr s))"

section \<open>Accepting\<close>

text \<open>
  What \<open>accept\<close> returns, with the return values of the calls made for the new descriptor
  (fcntl get and set, epoll_ctl).
\<close>

datatype accept_outcome =
    Accepted i32 int int int
  | Accept_failed errno

text \<open>
  The loop \<open>while (true)\<close> over the outcomes of successive calls; \<open>None\<close> when the outcomes end
  before the loop does.
\<close>

fun accept_loop :: "accept_outcome list \<Rightarrow> EpollServer \<Rightarrow> EpollServer run" where
  "accept_loop [] s = None"
| "accept_loop (Accept_failed EAGAIN # _) s = Some (Inr s)"
| "accept_loop (Accept_failed Other_errno # _) s = Some (Inl (Check_error ''Failed to accept connection''))"
| "accept_loop (Accepted fd getfl setfl ctl # outs) s =
     (let s1 = s\<lparr>conn := (conn s)(fd \<mapsto> next_conn s), next_conn := next_conn s + 1\<rparr>
      in bindR (Some (make_non_blocking getfl setfl)) (\<lambda>_.
         bindR (Some (add_to_epoll fd EPOLLIN ctl s1)) (\<lambda>s2.
         accept_loop outs s2)))"

section \<open>Reading\<close>

text \<open>\<open>Received bs left\<close>: \<open>bs\<close> was delivered, and \<open>left\<close> is what the memory of \<open>query\<close> held before.\<close>

datatype recv_outcome =
    Received "byte list" "byte list"
  | Closed
  | Recv_failed errno

text \<open>
  A positive count enqueues the query, also when fewer than \<open>sizeof(TradeDataQuery)\<close> bytes came:
  the rest of the variable \<open>query\<close>, which is not initialised, is what was there before.
\<close>

definition received_query :: "byte list \<Rightarrow> byte list \<Rightarrow> TradeDataQuery" where
  "received_query left bs = decode_TradeDataQuery (bs @ drop (length bs) left)"

fun handle_read :: "i32 \<Rightarrow> recv_outcome list \<Rightarrow> EpollServer \<Rightarrow> EpollServer option" where
  "handle_read fd [] s = None"
| "handle_read fd (Received bs left # outs) s =
     handle_read fd outs
       (s\<lparr>work_queue := TSQueue_push (work_queue s)
            \<lparr>work_fd = fd, work_query = received_query left bs\<rparr>\<rparr>)"
| "handle_read fd (Closed # outs) s = Some (erase_buffer fd (close_fd fd s))"
| "handle_read fd (Recv_failed EAGAIN # outs) s = Some s"
| "handle_read fd (Recv_failed Other_errno # outs) s = Some (erase_buffer fd (close_fd fd s))"

section \<open>Sending\<close>

text \<open>
  \<open>n1\<close> and \<open>n2\<close> are the return values of the two \<open>send\<close> calls and \<open>err\<close> is \<open>errno\<close> after the
  second. The test of \<open>errno\<close> stands behind an identical test that has already returned.
\<close>

definition send_result :: "int \<Rightarrow> int \<Rightarrow> errno \<Rightarrow> ResultItem \<Rightarrow> EpollServer \<Rightarrow> EpollServer" where
  "send_result n1 n2 err result s =
     (let fd = result_fd result;
          buf = result_bytes result;
          count = (of_nat (length buf) :: i32)
      in if n1 < 0 then close_fd fd s
         else let s1 = transmit fd (take (nat n1) (le32 count)) s
         in if n2 < 0 then close_fd fd s1
         else let n2' = (if n2 < 0 then (if err = EAGAIN then 0 else n2) else n2)
         in if n2 < 0 \<and> err \<noteq> EAGAIN then close_fd fd s1
         else let s2 = transmit fd (take (nat n2') buf) s1
         in if nat n2' < length buf
            then epoll_mod fd (EPOLLIN OR EPOLLOUT OR EPOLLET)
                   (s2\<lparr>write_buffers := (write_buffers s2)(fd \<mapsto> \<lparr>buffer = buf, sent_bytes = nat n2'\<rparr>)\<rparr>)
            else s2)"

text \<open>\<open>process_results\<close>: the sends of the results popped one after the other.\<close>

fun process_results :: "(int \<times> int \<times> errno) list \<Rightarrow> EpollServer \<Rightarrow> EpollServer option" where
  "process_results outs s =
     (case TSQueue_pop (results_queue s) of
        None \<Rightarrow> Some s
      | Some (result, rest) \<Rightarrow>
          (case outs of
             [] \<Rightarrow> None
           | (n1, n2, err) # outs' \<Rightarrow>
               process_results outs' (send_result n1 n2 err result (s\<lparr>results_queue := rest\<rparr>))))"

definition handle_write :: "int \<Rightarrow> i32 \<Rightarrow> EpollServer \<Rightarrow> EpollServer" where
  "handle_write n fd s = (case write_buffers s fd of
      None \<Rightarrow> s
    | Some ob \<Rightarrow>
        if n \<ge> 0 then
          (let s1 = transmit fd (take (nat n) (drop (sent_bytes ob) (buffer ob))) s;
               sent = sent_bytes ob + nat n
           in if sent = length (buffer ob)
              then epoll_mod fd (EPOLLIN OR EPOLLET) (erase_buffer fd s1)
              else s1\<lparr>write_buffers := (write_buffers s1)(fd \<mapsto> ob\<lparr>sent_bytes := sent\<rparr>)\<rparr>)
        else erase_buffer fd (close_fd fd s))"

section \<open>The event loop\<close>

record epoll_event =
  ev_fd :: i32
  ev_events :: u32

text \<open>What the system calls return while one event is handled.\<close>

record event_calls =
  accepts :: "accept_outcome list"
  recvs :: "recv_outcome list"
  sends :: int

definition dispatch :: "epoll_event \<Rightarrow> event_calls \<Rightarrow> EpollServer \<Rightarrow> EpollServer run" where
  "dispatch ev c s =
     (if ev_fd ev = server_listen_fd s then accept_loop (accepts c) s
      else if ev_events ev AND EPOLLIN \<noteq> 0 then map_option Inr (handle_read (ev_fd ev) (recvs c) s)
      else if ev_events ev AND EPOLLOUT \<noteq> 0 then Some (Inr (handle_write (sends c) (ev_fd ev) s))
      else Some (Inr s))"

fun dispatch_all :: "(epoll_event \<times> event_calls) list \<Rightarrow> EpollServer \<Rightarrow> EpollServer run" where
  "dispatch_all [] s = Some (Inr s)"
| "dispatch_all ((ev, c) # evs) s = bindR (dispatch ev c s) (dispatch_all evs)"

text \<open>One round of the loop in \<open>run\<close>: \<open>n\<close> is what \<open>epoll_wait\<close> returned with the events \<open>evs\<close>.\<close>

definition run_round :: "int \<Rightarrow> (epoll_event \<times> event_calls) list \<Rightarrow>
    (int \<times> int \<times> errno) list \<Rightarrow> EpollServer \<Rightarrow> EpollServer run" where
  "run_round n evs outs s =
     bindR (Some (check_error (n = - 1) ''epoll_wait failed'')) (\<lambda>_.
     bindR (dispatch_all (take (nat n) evs) s) (\<lambda>s'.
     map_option Inr (process_results outs s')))"

section \<open>What the handlers leave alone\<close>

lemma effects_simps [simp]:
  "work_queue (close_fd fd s) = work_queue s" "work_queue (epoll_mod fd evs s) = work_queue s"
  "work_queue (transmit fd bs s) = work_queue s" "work_queue (erase_buffer fd s) = work_queue s"
  "results_queue (close_fd fd s) = results_queue s" "results_queue (epoll_mod fd evs s) = results_queue s"
  "results_queue (transmit fd bs s) = results_queue s" "results_queue (erase_buffer fd s) = results_queue s"
  "write_buffers (close_fd fd s) = write_buffers s" "write_buffers (epoll_mod fd evs s) = write_buffers s"
  "write_buffers (transmit fd bs s) = write_buffers s"
  "write_buffers (erase_buffer fd s) = (write_buffers s)(fd := None)"
  "conn (close_fd fd s) = (conn s)(fd := None)" "conn (epoll_mod fd evs s) = conn s"
  "conn (transmit fd bs s) = conn s" "conn (erase_buffer fd s) = conn s"
  "interest (close_fd fd s) = (interest s)(fd := None)"
  "server_listen_fd (close_fd fd s) = server_listen_fd s" "server_listen_fd (epoll_mod fd evs s) = server_listen_fd s"
  "server_listen_fd (transmit fd bs s) = server_listen_fd s"
  "server_listen_fd (erase_buffer fd s) = server_listen_fd s"
  "next_conn (close_fd fd s) = next_conn s" "next_conn (epoll_mod fd evs s) = next_conn s"
  "next_conn (transmit fd bs s) = next_conn s" "next_conn (erase_buffer fd s) = next_conn s"
  "wire (close_fd fd s) = wire s" "wire (epoll_mod fd evs s) = wire s" "wire (erase_buffer fd s) = wire s"
  by (simp_all add: close_fd_def epoll_mod_def transmit_def erase_buffer_def split: option.splits)

lemma wire_transmit:
  "conn s fd = Some c \<Longrightarrow> wire (transmit fd bs s) = (wire s)(c := wire s c @ bs)"
  by (simp add: transmit_def)

lemma send_result_unfold:
  "send_result n1 n2 err r s =
    (let fd = result_fd r; buf = result_bytes r;
         s1 = transmit fd (take (nat n1) (le32 (of_nat (length buf)))) s;
         s2 = transmit fd (take (nat n2) buf) s1
     in if n1 < 0 then close_fd fd s
        else if n2 < 0 then close_fd fd s1
        else if nat n2 < length buf
        then epoll_mod fd (EPOLLIN OR EPOLLOUT OR EPOLLET)
               (s2\<lparr>write_buffers := (write_buffers s2)(fd \<mapsto> \<lparr>buffer = buf, sent_bytes = nat n2\<rparr>)\<rparr>)
        else s2)"
  by (simp add: send_result_def Let_def)

lemma send_result_queues [simp]:
  "work_queue (send_result n1 n2 err r s) = work_queue s"
  "results_queue (send_result n1 n2 err r s) = results_queue s"
  by (simp_all add: send_result_unfold Let_def)

lemma handle_write_queues [simp]:
  "work_queue (handle_write n fd s) = work_queue s"
  "results_queue (handle_write n fd s) = results_queue s"
  by (simp_all add: handle_write_def Let_def split: option.splits)

lemma handle_read_effect:
  "handle_read fd outs s = Some s' \<Longrightarrow>
    \<exists>qs. work_queue s' = work_queue s @ qs \<and> (\<forall>w \<in> set qs. work_fd w = fd)
      \<and> results_queue s' = results_queue s
      \<and> (write_buffers s' = write_buffers s \<or> write_buffers s' = (write_buffers s)(fd := None))"
proof (induction fd outs s rule: handle_read.induct)
  case (2 fd bs left outs s)
  then show ?case by (fastforce simp: TSQueue_push_def)
qed auto

lemma accept_loop_effect:
  "accept_loop outs s = Some (Inr s') \<Longrightarrow>
    work_queue s' = work_queue s \<and> results_queue s' = results_queue s \<and> write_buffers s' = write_buffers s"
proof (induction outs s rule: accept_loop.induct)
  case (4 fd getfl setfl ctl outs s)
  then show ?case by (auto simp: bindR_eq_Inr add_to_epoll_def bindE_eq_Inr Let_def)
qed auto

section \<open>Pending writes\<close>

text \<open>A pending buffer always has something left to send.\<close>

definition outgoing_ok :: "EpollServer \<Rightarrow> bool" where
  "outgoing_ok s \<longleftrightarrow> (\<forall>fd ob. write_buffers s fd = Some ob \<longrightarrow> sent_bytes ob < length (buffer ob))"

text \<open>The kernel takes at most what it is offered.\<close>

definition send_within :: "int \<Rightarrow> i32 \<Rightarrow> EpollServer \<Rightarrow> bool" where
  "send_within n fd s \<longleftrightarrow> (case write_buffers s fd of
      None \<Rightarrow> True
    | Some ob \<Rightarrow> n \<le> int (length (buffer ob) - sent_bytes ob))"

lemma outgoing_ok_send_result: "outgoing_ok s \<Longrightarrow> outgoing_ok (send_result n1 n2 err r s)"
  by (auto simp: send_result_unfold outgoing_ok_def Let_def)

lemma outgoing_ok_handle_write:
  "outgoing_ok s \<Longrightarrow> send_within n fd s \<Longrightarrow> outgoing_ok (handle_write n fd s)"
  by (fastforce simp: handle_write_def outgoing_ok_def send_within_def Let_def split: option.splits)

lemma outgoing_ok_subset:
  "outgoing_ok s \<Longrightarrow> write_buffers s' = write_buffers s \<or> write_buffers s' = (write_buffers s)(fd := None) \<Longrightarrow>
    outgoing_ok s'"
  by (auto simp: outgoing_ok_def split: if_splits)

lemma outgoing_ok_dispatch:
  assumes "dispatch ev c s = Some (Inr s')" and "outgoing_ok s" and "send_within (sends c) (ev_fd ev) s"
  shows "outgoing_ok s'"
proof -
  have "outgoing_ok s'" if "handle_read (ev_fd ev) (recvs c) s = Some s'"
    using handle_read_effect[OF that] outgoing_ok_subset[OF assms(2)] by blast
  moreover have "outgoing_ok s'" if "accept_loop (accepts c) s = Some (Inr s')"
    using accept_loop_effect[OF that] outgoing_ok_subset[OF assms(2)] by blast
  ultimately show ?thesis
    using assms outgoing_ok_handle_write[OF assms(2,3)]
    by (auto simp: dispatch_def split: if_splits)
qed

section \<open>Delivery of one response\<close>

definition writes :: "int list \<Rightarrow> i32 \<Rightarrow> EpollServer \<Rightarrow> EpollServer" where
  "writes ns fd s = fold (\<lambda>n. handle_write n fd) ns s"

lemma writes_none: "write_buffers s fd = None \<Longrightarrow> writes ns fd s = s"
  by (induction ns) (simp_all add: writes_def handle_write_def)

lemma writes_pending:
  assumes "write_buffers s fd = Some \<lparr>buffer = buf, sent_bytes = k\<rparr>" and "k < length buf"
    and "conn s fd = Some c" and "\<forall>n \<in> set ns. 0 \<le> n" and "int k + sum_list ns \<le> int (length buf)"
  shows "wire (writes ns fd s) c = wire s c @ take (nat (sum_list ns)) (drop k buf)
    \<and> write_buffers (writes ns fd s) fd =
        (if int k + sum_list ns = int (length buf) then None
         else Some \<lparr>buffer = buf, sent_bytes = nat (int k + sum_list ns)\<rparr>)"
  using assms
proof (induction ns arbitrary: s k)
  case Nil
  then show ?case by (simp add: writes_def)
next
  case (Cons n ns)
  have n: "0 \<le> n" "int k + n + sum_list ns \<le> int (length buf)" using Cons.prems by simp_all
  have sn: "0 \<le> sum_list ns" using Cons.prems(4) by (intro sum_list_nonneg) simp
  have split: "take (nat (n + sum_list ns)) (drop k buf)
      = take (nat n) (drop k buf) @ take (nat (sum_list ns)) (drop (k + nat n) buf)"
    using n(1) sn by (simp add: nat_add_distrib take_add add.commute)
  let ?s = "handle_write n fd s"
  have step: "writes (n # ns) fd s = writes ns fd ?s" by (simp add: writes_def)
  have w: "wire ?s c = wire s c @ take (nat n) (drop k buf)"
    using Cons.prems(1,3) n by (simp add: handle_write_def wire_transmit Let_def)
  show ?case
  proof (cases "k + nat n = length buf")
    case True
    then have none: "write_buffers ?s fd = None"
      using Cons.prems(1) n by (simp add: handle_write_def Let_def)
    have "int k + n = int (length buf)" using True n(1) by linarith
    then have "sum_list ns = 0" using n(2) sn by linarith
    then show ?thesis
      using none w step writes_none[OF none] \<open>int k + n = int (length buf)\<close> by simp
  next
    case False
    then have "write_buffers ?s fd = Some \<lparr>buffer = buf, sent_bytes = k + nat n\<rparr>"
      using Cons.prems(1) n by (simp add: handle_write_def Let_def)
    moreover have "k + nat n < length buf" using False n sn by linarith
    moreover have "conn ?s fd = Some c"
      using Cons.prems(1,3) n by (simp add: handle_write_def Let_def)
    ultimately show ?thesis
      using Cons.IH[of ?s "k + nat n"] Cons.prems(4) n w split step by (simp add: add.assoc)
  qed
qed

lemma delivery:
  assumes "conn s (result_fd r) = Some c" and "write_buffers s (result_fd r) = None"
    and "0 \<le> n2" and "\<forall>n \<in> set ns. 0 \<le> n" and "n2 + sum_list ns \<le> int (length (result_bytes r))"
  shows "let s' = writes ns (result_fd r) (send_result 4 n2 err r s);
      buf = result_bytes r; total = n2 + sum_list ns
    in wire s' c = wire s c @ le32 (of_nat (length buf)) @ take (nat total) buf
      \<and> write_buffers s' (result_fd r) =
          (if total = int (length buf) then None else Some \<lparr>buffer = buf, sent_bytes = nat total\<rparr>)"
proof -
  let ?fd = "result_fd r" and ?buf = "result_bytes r"
  let ?s = "send_result 4 n2 err r s"
  have sn: "0 \<le> sum_list ns" using assms(4) by (intro sum_list_nonneg) simp
  have w: "wire ?s c = wire s c @ le32 (of_nat (length ?buf)) @ take (nat n2) ?buf"
    and cn: "conn ?s ?fd = Some c"
    using assms(1,3) by (simp_all add: send_result_unfold wire_transmit Let_def)
  show ?thesis
  proof (cases "nat n2 < length ?buf")
    case False
    then have none: "write_buffers ?s ?fd = None"
      using assms(2,3) by (simp add: send_result_unfold Let_def)
    have "n2 = int (length ?buf)" "sum_list ns = 0" using False assms(3,5) sn by linarith+
    then show ?thesis using w none writes_none[OF none] by (simp add: Let_def)
  next
    case True
    then have "write_buffers ?s ?fd = Some \<lparr>buffer = ?buf, sent_bytes = nat n2\<rparr>"
      using assms(3) by (simp add: send_result_unfold Let_def)
    from writes_pending[OF this True cn assms(4)] show ?thesis
      using assms(3,5) sn w by (simp add: Let_def nat_add_distrib take_add)
  qed
qed

text \<open>Delivery of a response: once the four bytes of the count are out, the socket may take the
  result in any number of partial sends (the first by \<open>send_result\<close>, the others by \<open>handle_write\<close>);
  what has gone out on the client's connection is always the count followed by a prefix of the
  result, nothing is left pending exactly when the whole result is out, and otherwise the pending
  buffer says how much.\<close>

theorem response_delivery:
  assumes "conn s (result_fd r) = Some c" and "write_buffers s (result_fd r) = None"
    and "0 \<le> n2" and "\<forall>n \<in> set ns. 0 \<le> n" and "n2 + sum_list ns \<le> int (length (result_bytes r))"
  shows "let s' = writes ns (result_fd r) (send_result 4 n2 err r s);
      buf = result_bytes r; total = n2 + sum_list ns
    in wire s' c = wire s c @ le32 (of_nat (length buf)) @ take (nat total) buf
      \<and> write_buffers s' (result_fd r) =
          (if total = int (length buf) then None else Some \<lparr>buffer = buf, sent_bytes = nat total\<rparr>)"
  using assms by (rule delivery)

lemma le32_small: "le32 5 = [5, 0, 0, 0]" "le32 1 = [1, 0, 0, 0]"
  by code_simp+

theorem response_delivery_witness:
  "let s = (empty_server 3)\<lparr>conn := [7 \<mapsto> 0]\<rparr>; r = \<lparr>result_fd = 7, result_bytes = [1, 2, 3, 4, 5]\<rparr>
   in wire (writes [2, 1] 7 (send_result 4 2 EAGAIN r s)) 0 = [5, 0, 0, 0, 1, 2, 3, 4, 5]"
  using response_delivery[of "(empty_server 3)\<lparr>conn := [7 \<mapsto> 0]\<rparr>"
      "\<lparr>result_fd = 7, result_bytes = [1, 2, 3, 4, 5]\<rparr>" 0 2 "[2, 1]" EAGAIN]
  by (simp add: empty_server_def Let_def le32_small)

section \<open>Where delivery goes wrong\<close>

text \<open>A full socket loses the client: when either \<open>send\<close> reports an error, \<open>EAGAIN\<close> included,
  \<open>send_result\<close> closes the connection and drops the response; the code that would buffer it on
  \<open>EAGAIN\<close> is never reached, and a buffer still pending for the descriptor stays behind.\<close>

theorem send_result_error_closes:
  assumes "n1 < 0 \<or> n2 < 0"
  shows "conn (send_result n1 n2 err r s) (result_fd r) = None
    \<and> write_buffers (send_result n1 n2 err r s) = write_buffers s
    \<and> interest (send_result n1 n2 err r s) (result_fd r) = None"
  using assms by (cases "n1 < 0") (simp_all add: send_result_unfold Let_def)

theorem send_result_error_closes_witness:
  "conn (send_result 4 (- 1) EAGAIN \<lparr>result_fd = 7, result_bytes = [1, 2]\<rparr>
     ((empty_server 3)\<lparr>conn := [7 \<mapsto> 0]\<rparr>)) 7 = None"
  using send_result_error_closes[of 4 "- 1" EAGAIN "\<lparr>result_fd = 7, result_bytes = [1, 2]\<rparr>"] by simp

text \<open>C39. A second response while one is pending corrupts the stream. Suppose \<open>n\<close> bytes of the response \<open>r1\<close>,
  not all, go out after its length on an open connection with nothing pending, then \<open>r2\<close> for the same
  descriptor is sent, its length and \<open>m\<close> bytes, and then the main thread writes any number of times, up
  to the end of what is pending. Then the frame of \<open>r2\<close> is in the middle of the bytes of \<open>r1\<close>; if all of
  \<open>r2\<close> was sent at once the rest of \<open>r1\<close> follows it, and otherwise the rest of \<open>r2\<close> does, and the rest
  of \<open>r1\<close> is never sent: when \<open>r2\<close> is complete nothing is pending any more.\<close>

theorem send_result_overtakes_pending:
  assumes "conn s fd = Some c" and "write_buffers s fd = None" and "result_fd r1 = fd" and "result_fd r2 = fd"
    and "0 \<le> n" and "n < int (length (result_bytes r1))" and "0 \<le> m" and "m \<le> int (length (result_bytes r2))"
    and "\<forall>k \<in> set ns. 0 \<le> k"
    and "sum_list ns \<le> (if m < int (length (result_bytes r2)) then int (length (result_bytes r2)) - m
      else int (length (result_bytes r1)) - n)"
    and "t = writes ns fd (send_result 4 m err2 r2 (send_result 4 n err1 r1 s))"
  shows "wire t c = wire s c
      @ le32 (of_nat (length (result_bytes r1))) @ take (nat n) (result_bytes r1)
      @ le32 (of_nat (length (result_bytes r2))) @ take (nat m) (result_bytes r2)
      @ (if m < int (length (result_bytes r2)) then take (nat (sum_list ns)) (drop (nat m) (result_bytes r2))
         else take (nat (sum_list ns)) (drop (nat n) (result_bytes r1)))
    \<and> write_buffers t fd =
        (if m < int (length (result_bytes r2))
         then (if m + sum_list ns = int (length (result_bytes r2)) then None
               else Some \<lparr>buffer = result_bytes r2, sent_bytes = nat (m + sum_list ns)\<rparr>)
         else (if n + sum_list ns = int (length (result_bytes r1)) then None
               else Some \<lparr>buffer = result_bytes r1, sent_bytes = nat (n + sum_list ns)\<rparr>))"
proof -
  let ?s1 = "send_result 4 n err1 r1 s" and ?s2 = "send_result 4 m err2 r2 (send_result 4 n err1 r1 s)"
  have n: "nat n < length (result_bytes r1)" using assms(5,6) by linarith
  have 1: "wire ?s1 c = wire s c @ le32 (of_nat (length (result_bytes r1))) @ take (nat n) (result_bytes r1)"
    "conn ?s1 fd = Some c" "write_buffers ?s1 fd = Some \<lparr>buffer = result_bytes r1, sent_bytes = nat n\<rparr>"
    using assms(1,3,5) n by (simp_all add: send_result_unfold wire_transmit Let_def)
  have 2: "wire ?s2 c = wire ?s1 c @ le32 (of_nat (length (result_bytes r2))) @ take (nat m) (result_bytes r2)"
    "conn ?s2 fd = Some c"
    using 1(2) assms(4,7) by (simp_all add: send_result_unfold[of 4 m] wire_transmit Let_def)
  have buf: "write_buffers ?s2 fd =
      (if m < int (length (result_bytes r2)) then Some \<lparr>buffer = result_bytes r2, sent_bytes = nat m\<rparr>
       else Some \<lparr>buffer = result_bytes r1, sent_bytes = nat n\<rparr>)"
    using 1(3) assms(4,7) by (auto simp: send_result_unfold[of 4 m] Let_def)
  show ?thesis
  proof (cases "m < int (length (result_bytes r2))")
    case True
    with buf have "write_buffers ?s2 fd = Some \<lparr>buffer = result_bytes r2, sent_bytes = nat m\<rparr>" by simp
    from writes_pending[OF this _ 2(2) assms(9)] show ?thesis
      using True 1(1) 2(1) assms(7,10) by (simp add: assms(11))
  next
    case False
    with buf have "write_buffers ?s2 fd = Some \<lparr>buffer = result_bytes r1, sent_bytes = nat n\<rparr>" by simp
    from writes_pending[OF this _ 2(2) assms(9)] show ?thesis
      using False 1(1) 2(1) assms(5,6,10) by (simp add: assms(11))
  qed
qed

text \<open>Both responses are sent in part; the two bytes \<open>8\<close> and \<open>7\<close> of the first are lost.\<close>

theorem send_result_overtakes_pending_witness:
  "let s = (empty_server 3)\<lparr>conn := [7 \<mapsto> 0]\<rparr>;
       r1 = \<lparr>result_fd = 7, result_bytes = [9, 8, 7]\<rparr>; r2 = \<lparr>result_fd = 7, result_bytes = [5, 4, 3, 2, 1]\<rparr>;
       t = writes [3, 1] 7 (send_result 4 1 EAGAIN r2 (send_result 4 1 EAGAIN r1 s))
   in wire t 0 = le32 3 @ [9] @ [5, 0, 0, 0, 5, 4, 3, 2, 1] \<and> write_buffers t 7 = None"
  using send_result_overtakes_pending[of "(empty_server 3)\<lparr>conn := [7 \<mapsto> 0]\<rparr>" 7 0
      "\<lparr>result_fd = 7, result_bytes = [9, 8, 7]\<rparr>" "\<lparr>result_fd = 7, result_bytes = [5, 4, 3, 2, 1]\<rparr>" 1 1 "[3, 1]",
      OF _ _ _ _ _ _ _ _ _ _ refl, of EAGAIN EAGAIN]
  by (simp add: empty_server_def Let_def le32_small)

text \<open>C40. A response can reach the wrong client: when the client of a running query disconnects and
  the kernel gives its descriptor to the next connection, the response to the old query goes out
  on the new connection, because results carry only the descriptor.\<close>

theorem response_to_wrong_client:
  assumes "conn s fd = Some c" and "c < next_conn s" and "result_fd r = fd"
    and "handle_read fd [Closed] s = Some s1"
    and "accept_loop [Accepted fd getfl setfl ctl, Accept_failed EAGAIN] s1 = Some (Inr s2)"
    and "s3 = send_result 4 (int (length (result_bytes r))) err r s2"
  shows "conn s2 fd = Some (next_conn s) \<and> next_conn s \<noteq> c
    \<and> wire s3 (next_conn s) =
        wire s (next_conn s) @ le32 (of_nat (length (result_bytes r))) @ result_bytes r
    \<and> wire s3 c = wire s c"
proof -
  have s1: "wire s1 = wire s" "next_conn s1 = next_conn s"
    using assms(4) by (auto simp: close_fd_def erase_buffer_def)
  have s2: "conn s2 fd = Some (next_conn s)" "wire s2 = wire s"
    using assms(5) s1 by (auto simp: bindR_eq_Inr add_to_epoll_def bindE_eq_Inr Let_def)
  then show ?thesis using assms(2,3,6)
    by (simp add: send_result_unfold wire_transmit Let_def)
qed

theorem response_to_wrong_client_witness:
  "let s = (empty_server 3)\<lparr>conn := [7 \<mapsto> 0], next_conn := 1\<rparr>;
       r = \<lparr>result_fd = 7, result_bytes = [9]\<rparr>;
       s2 = (empty_server 3)\<lparr>conn := [7 \<mapsto> 1], next_conn := 2, interest := [7 \<mapsto> EPOLLIN]\<rparr>
   in handle_read 7 [Closed] s = Some (erase_buffer 7 (close_fd 7 s))
     \<and> wire (send_result 4 1 EAGAIN r s2) 1 = [1, 0, 0, 0, 9] \<and> wire (send_result 4 1 EAGAIN r s2) 0 = []"
proof -
  let ?s = "(empty_server 3)\<lparr>conn := [7 \<mapsto> 0], next_conn := 1\<rparr>"
  let ?s2 = "(empty_server 3)\<lparr>conn := [7 \<mapsto> 1], next_conn := 2, interest := [7 \<mapsto> EPOLLIN]\<rparr>"
  have acc: "accept_loop [Accepted 7 2 0 0, Accept_failed EAGAIN] (erase_buffer 7 (close_fd 7 ?s))
      = Some (Inr ?s2)"
    by (simp add: make_non_blocking_def check_error_def add_to_epoll_def close_fd_def erase_buffer_def
        empty_server_def Let_def fun_upd_idem_iff)
  show ?thesis
    using response_to_wrong_client[of ?s 7 0 "\<lparr>result_fd = 7, result_bytes = [9]\<rparr>" _ 2 0 0 ?s2
        "send_result 4 1 EAGAIN \<lparr>result_fd = 7, result_bytes = [9]\<rparr> ?s2" EAGAIN, OF _ _ _ _ acc]
    by (simp add: Let_def le32_small) (simp add: empty_server_def)
qed

end
