(* ===== verification/Server_System.thy ===== *)
theory Server_System
  imports Server "HOL-Library.Multiset"
begin

text \<open>
  The server process: the main thread with its handlers, the worker threads of
  \<open>worker_thread_loop\<close> and the two queues between them, as a step relation. A step is one call of
  a handler, one \<open>pop\<close> of a worker, or the end of a worker's computation; the kernel and the
  scheduler choose. An exception that leaves a thread ends the process (\<open>std::terminate\<close>), and so
  does the signal \<open>SIGPIPE\<close>, which the kernel raises for a \<open>send\<close> on a connection its peer has reset:
  the server neither handles the signal nor passes \<open>MSG_NOSIGNAL\<close>. The rule \<open>act_hang_up\<close> is such a
  reset, and the rules \<open>act_pipe_result\<close> and \<open>act_pipe_write\<close> are the sends of \<open>send_result\<close> and \<open>handle_write\<close> that end this way.
\<close>

section \<open>State and steps\<close>

datatype worker = Free | Busy WorkItem

text \<open>
  \<open>hung_up\<close> are the connections their peer has reset. \<open>received\<close>, \<open>answered\<close>, \<open>produced\<close> and
  \<open>handled\<close> record the history: the queries taken from clients, those a worker finished, the results
  they gave, and those passed to \<open>send_result\<close>.
\<close>

record system =
  srv :: EpollServer
  workers :: "worker list"
  crashed :: bool
  hung_up :: "nat set"
  received :: "WorkItem list"
  answered :: "WorkItem list"
  produced :: "ResultItem list"
  handled :: "ResultItem list"

definition worker_at :: "system \<Rightarrow> nat \<Rightarrow> worker \<Rightarrow> bool" where
  "worker_at s i w \<longleftrightarrow> i < length (workers s) \<and> workers s ! i = w"

text \<open>
  Who takes a step: the main thread on an event that epoll reports, the main thread on its own
  (a send, of \<open>process_results\<close> or of a pending buffer), a worker, or the peer of a connection.
\<close>

datatype actor = Epoll_event | Main_thread | Worker_thread nat | Peer

text \<open>
  \<open>e\<close> is the engine every worker constructs from the data file. A worker whose computation does not
  end stays \<open>Busy\<close> forever.
\<close>

inductive sys_act :: "Query_engine \<Rightarrow> actor \<Rightarrow> system \<Rightarrow> system \<Rightarrow> bool"
  for e :: Query_engine where
  act_event: "\<not> crashed s \<Longrightarrow> dispatch ev c (srv s) = Some (Inr t) \<Longrightarrow>
    send_within (sends c) (ev_fd ev) (srv s) \<Longrightarrow>
    sys_act e Epoll_event s (s\<lparr>srv := t,
      received := received s @ drop (length (work_queue (srv s))) (work_queue t)\<rparr>)"
| act_event_throws: "\<not> crashed s \<Longrightarrow> dispatch ev c (srv s) = Some (Inl err) \<Longrightarrow>
    sys_act e Epoll_event s (s\<lparr>crashed := True\<rparr>)"
| act_take: "\<not> crashed s \<Longrightarrow> worker_at s i Free \<Longrightarrow> TSQueue_pop (work_queue (srv s)) = Some (w, rest) \<Longrightarrow>
    sys_act e (Worker_thread i) s
      (s\<lparr>srv := (srv s)\<lparr>work_queue := rest\<rparr>, workers := (workers s)[i := Busy w]\<rparr>)"
| act_finish: "\<not> crashed s \<Longrightarrow> worker_at s i (Busy w) \<Longrightarrow> worker_process e w = Some (Inr r) \<Longrightarrow>
    sys_act e (Worker_thread i) s
      (s\<lparr>srv := (srv s)\<lparr>results_queue := TSQueue_push (results_queue (srv s)) r\<rparr>,
        workers := (workers s)[i := Free], answered := answered s @ [w], produced := produced s @ [r]\<rparr>)"
| act_throw: "\<not> crashed s \<Longrightarrow> worker_at s i (Busy w) \<Longrightarrow> worker_process e w = Some (Inl err) \<Longrightarrow>
    sys_act e (Worker_thread i) s (s\<lparr>crashed := True\<rparr>)"
| act_result: "\<not> crashed s \<Longrightarrow> TSQueue_pop (results_queue (srv s)) = Some (r, rest) \<Longrightarrow>
    n1 \<le> 4 \<Longrightarrow> n2 \<le> int (length (result_bytes r)) \<Longrightarrow>
    sys_act e Main_thread s (s\<lparr>srv := send_result n1 n2 err r ((srv s)\<lparr>results_queue := rest\<rparr>),
      handled := handled s @ [r]\<rparr>)"
| act_pipe_result: "\<not> crashed s \<Longrightarrow> TSQueue_pop (results_queue (srv s)) = Some (r, rest) \<Longrightarrow>
    conn (srv s) (result_fd r) = Some k \<Longrightarrow> k \<in> hung_up s \<Longrightarrow>
    sys_act e Main_thread s (s\<lparr>crashed := True\<rparr>)"
| act_pipe_write: "\<not> crashed s \<Longrightarrow> write_buffers (srv s) fd \<noteq> None \<Longrightarrow>
    conn (srv s) fd = Some k \<Longrightarrow> k \<in> hung_up s \<Longrightarrow>
    sys_act e Main_thread s (s\<lparr>crashed := True\<rparr>)"
| act_hang_up: "\<not> crashed s \<Longrightarrow> conn (srv s) fd = Some k \<Longrightarrow>
    sys_act e Peer s (s\<lparr>hung_up := insert k (hung_up s)\<rparr>)"

inductive_cases sys_actE: "sys_act e a s s'"
inductive_cases worker_actE: "sys_act e (Worker_thread i) s s'"

text \<open>A step of the server, and a step of its own threads that no event, client or peer causes.\<close>

definition sys_step :: "Query_engine \<Rightarrow> system \<Rightarrow> system \<Rightarrow> bool" where
  "sys_step e s t \<longleftrightarrow> (\<exists>a. sys_act e a s t)"

definition own_step :: "Query_engine \<Rightarrow> system \<Rightarrow> system \<Rightarrow> bool" where
  "own_step e s t \<longleftrightarrow> (\<exists>a. sys_act e a s t \<and> a \<noteq> Epoll_event \<and> a \<noteq> Peer)"

lemma sys_act_step: "sys_act e a s t \<Longrightarrow> sys_step e s t"
  by (auto simp: sys_step_def)

lemma sys_stepE: "sys_step e s t \<Longrightarrow> (\<And>a. sys_act e a s t \<Longrightarrow> thesis) \<Longrightarrow> thesis"
  by (auto simp: sys_step_def)

lemma own_sys_step: "own_step e s t \<Longrightarrow> sys_step e s t"
  by (auto simp: own_step_def sys_step_def)

lemma own_sys_steps: "(own_step e)\<^sup>*\<^sup>* s t \<Longrightarrow> (sys_step e)\<^sup>*\<^sup>* s t"
  by (rule rtranclp_mono[THEN predicate2D]) (auto intro: own_sys_step)

lemmas sys_event = act_event[THEN sys_act_step]
lemmas sys_take = act_take[THEN sys_act_step]
lemmas sys_finish = act_finish[THEN sys_act_step]
lemmas sys_result = act_result[THEN sys_act_step]

definition sys_init :: "EpollServer \<Rightarrow> nat \<Rightarrow> system" where
  "sys_init s0 n = \<lparr>srv = s0, workers = replicate n Free, crashed = False, hung_up = {},
     received = [], answered = [], produced = [], handled = []\<rparr>"

text \<open>A server as \<open>run\<close> starts it, with \<open>n\<close> worker threads.\<close>

definition sys_reachable :: "Query_engine \<Rightarrow> startup_calls \<Rightarrow> nat \<Rightarrow> system \<Rightarrow> bool" where
  "sys_reachable e c n s \<longleftrightarrow>
     (\<exists>s0. start_run c = Inr s0 \<and> (sys_step e)\<^sup>*\<^sup>* (sys_init s0 n) s)"

section \<open>Invariant\<close>

fun busy_items :: "worker list \<Rightarrow> WorkItem list" where
  "busy_items [] = []"
| "busy_items (Free # ws) = busy_items ws"
| "busy_items (Busy w # ws) = w # busy_items ws"

definition worker_item :: "worker \<Rightarrow> WorkItem multiset" where
  "worker_item w = mset (busy_items [w])"

lemma worker_item_simps [simp]: "worker_item Free = {#}" "worker_item (Busy w) = {#w#}"
  by (simp_all add: worker_item_def)

lemma mset_busy_items: "mset (busy_items ws) = (\<Sum>w\<leftarrow>ws. worker_item w)"
  by (induction ws rule: busy_items.induct) simp_all

lemma busy_update:
  assumes "worker_at s i w"
  shows "mset (busy_items ((workers s)[i := v])) + worker_item w = mset (busy_items (workers s)) + worker_item v"
proof -
  have i: "i < length (workers s)" "workers s ! i = w" using assms by (simp_all add: worker_at_def)
  have u: "mset (busy_items ((workers s)[i := x])) = (\<Sum>w\<leftarrow>take i (workers s). worker_item w)
      + worker_item x + (\<Sum>w\<leftarrow>drop (Suc i) (workers s). worker_item w)" for x
    using i(1) by (simp add: mset_busy_items upd_conv_take_nth_drop ac_simps)
  have "(workers s)[i := w] = workers s" using i by auto
  then show ?thesis using u[of v] u[of w] by (simp add: ac_simps)
qed

definition sys_inv :: "Query_engine \<Rightarrow> system \<Rightarrow> bool" where
  "sys_inv e s \<longleftrightarrow>
     mset (received s) = mset (work_queue (srv s)) + mset (busy_items (workers s)) + mset (answered s)
     \<and> map (worker_process e) (answered s) = map (\<lambda>r. Some (Inr r)) (produced s)
     \<and> produced s = handled s @ results_queue (srv s)
     \<and> outgoing_ok (srv s)"

lemma start_run_state:
  "start_run c = Inr s0 \<Longrightarrow> work_queue s0 = [] \<and> results_queue s0 = [] \<and> write_buffers s0 = (\<lambda>_. None)"
  by (auto simp: start_run_def new_EpollServer_def add_to_epoll_def empty_server_def bindE_eq_Inr)

lemma busy_items_init: "busy_items (replicate n Free) = []"
  by (induction n) simp_all

lemma sys_inv_init: "start_run c = Inr s0 \<Longrightarrow> sys_inv e (sys_init s0 n)"
  using start_run_state[of c s0]
  by (simp add: sys_inv_def sys_init_def busy_items_init outgoing_ok_def)

lemma dispatch_effect:
  assumes "dispatch ev c s = Some (Inr t)"
  shows "\<exists>qs. work_queue t = work_queue s @ qs" and "results_queue t = results_queue s"
  using assms handle_read_effect accept_loop_effect
  by (fastforce simp: dispatch_def split: if_splits)+

lemma pop_Some_iff: "TSQueue_pop q = Some (x, r) \<longleftrightarrow> q = x # r"
  by (auto simp: TSQueue_pop_def split: list.splits)

lemma sys_inv_act: "sys_act e a s s' \<Longrightarrow> sys_inv e s \<Longrightarrow> sys_inv e s'"
proof (induction rule: sys_act.induct)
  case (act_event s ev c t)
  from dispatch_effect[OF act_event(2)] obtain qs where
    "work_queue t = work_queue (srv s) @ qs" "results_queue t = results_queue (srv s)" by blast
  then show ?case
    using act_event(4) outgoing_ok_dispatch[OF act_event(2) _ act_event(3)]
    by (auto simp: sys_inv_def)
next
  case (act_take s i w rest)
  then show ?case using busy_update[of s i Free "Busy w"]
    by (auto simp: sys_inv_def pop_Some_iff outgoing_ok_def)
next
  case (act_finish s i w r)
  then show ?case using busy_update[of s i "Busy w" Free]
    by (auto simp: sys_inv_def TSQueue_push_def outgoing_ok_def)
next
  case (act_result s r rest n1 n2 err)
  then have "outgoing_ok ((srv s)\<lparr>results_queue := rest\<rparr>)" by (simp add: sys_inv_def outgoing_ok_def)
  then show ?case using act_result outgoing_ok_send_result by (auto simp: sys_inv_def pop_Some_iff)
qed (simp_all add: sys_inv_def)

lemma sys_inv_step: "sys_step e s s' \<Longrightarrow> sys_inv e s \<Longrightarrow> sys_inv e s'"
  by (elim sys_stepE) (rule sys_inv_act)

interpretation sys: step_invariant "sys_step e" "\<lambda>s. \<exists>c s0 n. start_run c = Inr s0 \<and> s = sys_init s0 n" "sys_inv e" for e
  by unfold_locales (auto intro: sys_inv_init sys_inv_step)

lemma sys_inv_reachable:
  assumes "sys_reachable e c n s"
  shows "sys_inv e s"
proof -
  obtain s0 where s0: "start_run c = Inr s0" and star: "(sys_step e)\<^sup>*\<^sup>* (sys_init s0 n) s"
    using assms by (auto simp: sys_reachable_def)
  from sys.reachable_inv[OF star] s0 show ?thesis by blast
qed

section \<open>What the process guarantees\<close>

lemma busy_items_set: "worker_at s i (Busy w) \<Longrightarrow> w \<in> set (busy_items (workers s))"
proof -
  have "i < length ws \<Longrightarrow> ws ! i = Busy w \<Longrightarrow> w \<in> set (busy_items ws)" for ws
    by (induction ws arbitrary: i rule: busy_items.induct) (auto simp: nth_Cons split: nat.splits)
  then show "worker_at s i (Busy w) \<Longrightarrow> w \<in> set (busy_items (workers s))" by (simp add: worker_at_def)
qed

text \<open>C10. Conservation: in every reachable state of the server, with any number of workers and any
  interleaving, each received query is waiting, being worked on, or answered, exactly once; the
  results are those of the answered queries, in order, and each was passed to \<open>send_result\<close> or is
  still queued for it; and every pending buffer has bytes left to send.\<close>

theorem server_conserves_queries:
  assumes "sys_reachable e c n s"
  shows "mset (received s) = mset (work_queue (srv s)) + mset (busy_items (workers s)) + mset (answered s)
    \<and> map (worker_process e) (answered s) = map (\<lambda>r. Some (Inr r)) (handled s @ results_queue (srv s))
    \<and> outgoing_ok (srv s)"
  using sys_inv_reachable[OF assms] by (auto simp: sys_inv_def)

lemma server_spec:
  assumes "sys_reachable e c n s" and "time_sorted (records e)" and "records e \<noteq> []"
    and "\<forall>w \<in> set (received s). no_wrap (work_query w) \<and> covers (end_time_point (work_query w)) e"
  shows "handled s @ results_queue (srv s) =
      map (\<lambda>w. \<lparr>result_fd = work_fd w, result_bytes = response_spec (records e) (work_query w)\<rparr>) (answered s)
    \<and> (\<forall>i w. worker_at s i (Busy w) \<longrightarrow> (\<exists>r. worker_process e w = Some (Inr r)))"
proof -
  note inv = sys_inv_reachable[OF assms(1)]
  let ?f = "\<lambda>w. \<lparr>result_fd = work_fd w, result_bytes = response_spec (records e) (work_query w)\<rparr>"
  have m: "mset (received s) = mset (work_queue (srv s)) + mset (busy_items (workers s)) + mset (answered s)"
    using inv by (simp add: sys_inv_def)
  have sets: "set (received s)
      = set (work_queue (srv s)) \<union> set (busy_items (workers s)) \<union> set (answered s)"
    using arg_cong[OF m, of set_mset] by simp
  have f: "worker_process e w = Some (Inr (?f w))" if "w \<in> set (received s)" for w
    using that assms(2-4) by (intro worker_spec) auto
  then have "map (worker_process e) (answered s) = map (\<lambda>w. Some (Inr (?f w))) (answered s)"
    using sets by (intro map_cong) auto
  moreover have "map (worker_process e) (answered s)
      = map (\<lambda>r. Some (Inr r)) (handled s @ results_queue (srv s))"
    using inv by (auto simp: sys_inv_def)
  ultimately have "map (\<lambda>r. Some (Inr r) :: ResultItem run) (handled s @ results_queue (srv s))
      = map (\<lambda>r. Some (Inr r)) (map ?f (answered s))" by (simp add: comp_def)
  then have "handled s @ results_queue (srv s) = map ?f (answered s)"
    by (rule map_injective) (simp add: inj_on_def inj_def)
  moreover have "\<exists>r. worker_process e w = Some (Inr r)" if "worker_at s i (Busy w)" for i w
    using f[of w] sets busy_items_set[OF that] by blast
  ultimately show ?thesis by blast
qed

text \<open>C5. End-to-end refinement: if the data file is time-ordered and nonempty and the searches are
  safe for every received query, none of which wraps, then the results the server hands out are
  exactly the abstract responses to the answered queries, each for the descriptor that asked, and
  no worker ever ends the process.\<close>

theorem server_refines_spec:
  assumes "sys_reachable e c n s" and "time_sorted (records e)" and "records e \<noteq> []"
    and "\<forall>w \<in> set (received s). no_wrap (work_query w) \<and> covers (end_time_point (work_query w)) e"
  shows "handled s @ results_queue (srv s) =
      map (\<lambda>w. \<lparr>result_fd = work_fd w, result_bytes = response_spec (records e) (work_query w)\<rparr>) (answered s)
    \<and> (\<forall>i w. worker_at s i (Busy w) \<longrightarrow> (\<exists>r. worker_process e w = Some (Inr r)))"
  using assms by (rule server_spec)

section \<open>One worker keeps the order\<close>

lemma one_worker_act:
  assumes "sys_act e a s s'"
    and "length (workers s) = 1" and "received s = answered s @ busy_items (workers s) @ work_queue (srv s)"
  shows "length (workers s') = 1 \<and> received s' = answered s' @ busy_items (workers s') @ work_queue (srv s')"
  using assms
proof (induction rule: sys_act.induct)
  case (act_event s ev c t)
  then show ?case using dispatch_effect(1)[OF act_event(2)] by auto
qed (auto simp: worker_at_def pop_Some_iff length_Suc_conv)

interpretation one: step_invariant "sys_step e" "\<lambda>s. \<exists>s0. work_queue s0 = [] \<and> s = sys_init s0 1"
    "\<lambda>s. length (workers s) = 1 \<and> received s = answered s @ busy_items (workers s) @ work_queue (srv s)" for e
  by unfold_locales (auto simp: sys_init_def elim!: sys_stepE dest: one_worker_act)

text \<open>With a single worker thread the responses come in the order of the queries: what was
  received is what was answered, then what the worker holds, then the queue.\<close>

theorem single_worker_order:
  assumes "sys_reachable e c 1 s"
  shows "received s = answered s @ busy_items (workers s) @ work_queue (srv s)"
proof -
  obtain s0 where s0: "start_run c = Inr s0" and star: "(sys_step e)\<^sup>*\<^sup>* (sys_init s0 1) s"
    using assms by (auto simp: sys_reachable_def)
  have "work_queue s0 = []" using start_run_state[OF s0] by simp
  with one.reachable_inv[OF star] show ?thesis by (auto simp: sys_init_def)
qed

section \<open>How a query takes the server down\<close>

lemma act_alive: "sys_act e a s s' \<Longrightarrow> \<not> crashed s"
  by (erule sys_actE)

lemma crashed_stuck: "crashed s \<Longrightarrow> \<not> sys_step e s s'"
  by (auto elim!: sys_stepE dest: act_alive)

text \<open>A worker whose query ends with an exception keeps it until it throws.\<close>

lemma doomed_act:
  assumes "sys_act e a s s'" and "worker_at s i (Busy w)" and "worker_process e w = Some (Inl err)"
  shows "crashed s' \<or> worker_at s' i (Busy w)"
  using assms by (induction rule: sys_act.induct) (auto simp: worker_at_def nth_list_update)

interpretation doomed: step_preorder "sys_step e"
    "\<lambda>s t. (\<exists>err. worker_process e w = Some (Inl err)) \<and> (crashed s \<or> worker_at s i (Busy w)) \<longrightarrow>
       crashed t \<or> worker_at t i (Busy w)" for e i w
  by unfold_locales (auto elim!: sys_stepE dest: doomed_act act_alive)

text \<open>C34. One query for the minimum or maximum price up to the end of the data ends the process: when the
  data file holds at least 31 records (and fewer than 2^57), all created before the end of the query's
  nonempty time range, the arithmetic of the query does not wrap, and worker \<open>i\<close> of a running server
  holds it, then answering the query throws, the throw is a step of that worker, the only one it has,
  and ends the process for good; and however the server runs on, the worker holds the query until
  the process has ended.\<close>

theorem query_kills_server:
  assumes "e = open_file pad ts" and "31 \<le> length ts" and "length ts < 2 ^ 57"
    and "worker_at s i (Busy w)" and "\<not> crashed s"
    and "no_wrap (work_query w)" and "start_time_point (work_query w) < end_time_point (work_query w)"
    and "\<forall>x \<in> set ts. created_at x < end_time_point (work_query w)"
    and "bit (metrics (work_query w)) 0"
  shows "(\<exists>err. worker_process e w = Some (Inl err))
    \<and> (\<forall>s'. sys_act e (Worker_thread i) s s' \<longleftrightarrow> s' = s\<lparr>crashed := True\<rparr>)
    \<and> (\<forall>s'. \<not> sys_step e (s\<lparr>crashed := True\<rparr>) s')
    \<and> (\<forall>t. (sys_step e)\<^sup>*\<^sup>* s t \<longrightarrow> crashed t \<or> worker_at t i (Busy w))"
proof -
  obtain err where err: "worker_process e w = Some (Inl err)"
    using worker_crash[OF assms(2,3,6-8), of pad] assms(1,9) by blast
  have "sys_act e (Worker_thread i) s s' \<longleftrightarrow> s' = s\<lparr>crashed := True\<rparr>" for s'
    using act_throw[OF assms(5,4) err] assms(4) err by (auto simp: worker_at_def elim: worker_actE)
  moreover have "\<not> sys_step e (s\<lparr>crashed := True\<rparr>) s'" for s'
    using crashed_stuck[of "s\<lparr>crashed := True\<rparr>"] by simp
  ultimately show ?thesis using err doomed.steps_rel assms(4) by blast
qed

definition endless :: "worker \<Rightarrow> bool" where
  "endless w = (case w of
      Free \<Rightarrow> False
    | Busy item \<Rightarrow> resolution (work_query item) = 0
        \<and> start_time_point (work_query item) < end_time_point (work_query item))"

lemma endless_act:
  assumes "sys_act e a s s'" and "\<forall>w \<in> set (workers s). endless w"
  shows "workers s' = workers s \<and> answered s' = answered s"
  using assms
proof (induction rule: sys_act.induct)
  case (act_take s i w rest)
  then have "endless Free" using nth_mem[of i "workers s"] by (simp add: worker_at_def)
  then show ?case by (simp add: endless_def)
next
  case (act_finish s i w r)
  then have "endless (Busy w)" using nth_mem[of i "workers s"] by (simp add: worker_at_def)
  then have "worker_process e w = None" by (intro resolution_0_diverges) (simp_all add: endless_def)
  then show ?case using act_finish(3) by simp
qed simp_all

interpretation exhausted_pool: step_preorder "sys_step e"
    "\<lambda>s t. (\<forall>w \<in> set (workers s). endless w) \<longrightarrow> workers t = workers s \<and> answered t = answered s" for e
  by unfold_locales (auto elim!: sys_stepE dest: endless_act)

text \<open>C35. The pool can be exhausted: once every worker holds a query with resolution 0 and a
  nonempty time range, no query is answered any more, whatever else happens.\<close>

theorem pool_exhausted:
  assumes "\<forall>w \<in> set (workers s). endless w" and "(sys_step e)\<^sup>*\<^sup>* s s'"
  shows "workers s' = workers s \<and> answered s' = answered s"
  using exhausted_pool.steps_rel[OF assms(2)] assms(1) by blast

section \<open>A session\<close>

text \<open>
  A server with one worker over the sample file: a client connects (descriptor 7), sends one query
  for the minimum and maximum price, and the worker answers it. The properties above are applied
  to the states of this run.
\<close>

definition sample_query :: TradeDataQuery where
  "sample_query = \<lparr>query_symbol_id = 1, start_time_point = 10, end_time_point = 40, resolution = 30, metrics = 1\<rparr>"

definition sample_item :: WorkItem where
  "sample_item = \<lparr>work_fd = 7, work_query = sample_query\<rparr>"

definition sample_calls :: startup_calls where
  "sample_calls = \<lparr>ret_socket = 3, ret_reuseaddr = 0, ret_reuseport = 0, ret_getfl = 2, ret_setfl = 0,
     ret_bind = 0, ret_ctl = 0, ret_listen = 0\<rparr>"

definition sample_srv0 :: EpollServer where
  "sample_srv0 = (empty_server 3)\<lparr>interest := [3 \<mapsto> EPOLLIN]\<rparr>"

definition sample_srv1 :: EpollServer where
  "sample_srv1 = (empty_server 3)\<lparr>interest := [3 \<mapsto> EPOLLIN, 7 \<mapsto> EPOLLIN], conn := [7 \<mapsto> 0], next_conn := 1\<rparr>"

lemma sample_start: "start_run sample_calls = Inr sample_srv0"
  by (simp add: start_run_def new_EpollServer_def sample_calls_def create_socket_def check_error_def
      make_non_blocking_def bind_server_def add_to_epoll_def sample_srv0_def empty_server_def)

lemma sample_accept:
  "dispatch \<lparr>ev_fd = 3, ev_events = EPOLLIN\<rparr>
     \<lparr>accepts = [Accepted 7 2 0 0, Accept_failed EAGAIN], recvs = [], sends = 0\<rparr> sample_srv0
   = Some (Inr sample_srv1)"
  by (simp add: dispatch_def sample_srv0_def sample_srv1_def empty_server_def make_non_blocking_def
      check_error_def add_to_epoll_def Let_def)

lemma sample_read:
  "dispatch \<lparr>ev_fd = 7, ev_events = EPOLLIN\<rparr>
     \<lparr>accepts = [], recvs = [Received (encode_TradeDataQuery [] sample_query) [], Recv_failed EAGAIN], sends = 0\<rparr>
     sample_srv1
   = Some (Inr (sample_srv1\<lparr>work_queue := [sample_item]\<rparr>))"
  by (simp add: dispatch_def sample_srv1_def empty_server_def EPOLLIN_def received_query_def
      TSQueue_push_def sample_item_def)

definition sample_waiting :: system where
  "sample_waiting = (sys_init (sample_srv1\<lparr>work_queue := [sample_item]\<rparr>) 1)\<lparr>received := [sample_item]\<rparr>"

definition sample_busy :: system where
  "sample_busy = (sys_init sample_srv1 1)\<lparr>workers := [Busy sample_item], received := [sample_item]\<rparr>"

lemma sample_takes: "sys_step e sample_waiting sample_busy"
  using sys_take[of sample_waiting 0 sample_item "[]" e]
  by (simp add: sample_waiting_def sample_busy_def sys_init_def worker_at_def TSQueue_pop_def
      sample_srv1_def empty_server_def)

lemma sample_busy_steps: "(sys_step e)\<^sup>*\<^sup>* (sys_init sample_srv0 1) sample_busy"
proof -
  let ?s1 = "sys_init sample_srv1 1"
  have 1: "sys_step e (sys_init sample_srv0 1) ?s1"
    using sys_event[of "sys_init sample_srv0 1" _ _ sample_srv1 e] sample_accept
    by (fastforce simp: sys_init_def send_within_def sample_srv0_def sample_srv1_def empty_server_def)
  have 2: "sys_step e ?s1 sample_waiting"
    using sys_event[of ?s1 _ _ "sample_srv1\<lparr>work_queue := [sample_item]\<rparr>" e] sample_read
    by (fastforce simp: sys_init_def sample_waiting_def send_within_def sample_srv1_def empty_server_def)
  show ?thesis using 1 2 sample_takes by (meson converse_rtranclp_into_rtranclp rtranclp.rtrancl_refl)
qed

lemma sample_busy_reachable: "sys_reachable e sample_calls 1 sample_busy"
  unfolding sys_reachable_def using sample_start sample_busy_steps by blast

abbreviation sample_engine :: Query_engine where
  "sample_engine \<equiv> open_file 0 sample_trades"

definition sample_response :: ResultItem where
  "sample_response = \<lparr>result_fd = 7, result_bytes = response_spec sample_trades sample_query\<rparr>"

definition sample_answered :: system where
  "sample_answered = (sys_init (sample_srv1\<lparr>results_queue := [sample_response]\<rparr>) 1)
     \<lparr>received := [sample_item], answered := [sample_item], produced := [sample_response]\<rparr>"

lemma sample_item_ok: "no_wrap (work_query sample_item)"
  by (simp add: no_wrap_def sample_item_def sample_query_def)

lemma sample_work: "worker_process sample_engine sample_item = Some (Inr sample_response)"
  using worker_spec[OF sample_covers _ _ sample_item_ok] sample_sorted
  by (simp add: sample_response_def sample_item_def sample_trades_def)

lemma sample_finishes: "sys_step sample_engine sample_busy sample_answered"
  using sys_finish[of sample_busy 0 sample_item sample_engine sample_response] sample_work
  by (simp add: sample_busy_def sample_answered_def sys_init_def worker_at_def TSQueue_push_def
      sample_srv1_def empty_server_def)

lemma sample_answered_reachable: "sys_reachable sample_engine sample_calls 1 sample_answered"
  unfolding sys_reachable_def using sample_start sample_busy_steps sample_finishes
  by (meson rtranclp.rtrancl_into_rtrancl)

theorem server_conserves_queries_witness:
  "mset (received sample_busy) = mset (work_queue (srv sample_busy))
    + mset (busy_items (workers sample_busy)) + mset (answered sample_busy)"
  using server_conserves_queries[OF sample_busy_reachable] by blast

theorem server_refines_spec_witness:
  "handled sample_answered @ results_queue (srv sample_answered) =
    [\<lparr>result_fd = 7, result_bytes = response_spec sample_trades sample_query\<rparr>]"
  using server_refines_spec[OF sample_answered_reachable] sample_sorted sample_covers sample_item_ok
  by (simp add: sample_answered_def sys_init_def) (simp add: sample_item_def sample_trades_def)

theorem single_worker_order_witness:
  "received sample_busy = answered sample_busy @ busy_items (workers sample_busy) @ work_queue (srv sample_busy)"
  using sample_busy_reachable by (rule single_worker_order)

theorem query_kills_server_witness:
  "let e = open_file 0 (replicate 31 (hd sample_trades))
   in (\<exists>err. worker_process e sample_item = Some (Inl err))
     \<and> sys_act e (Worker_thread 0) sample_busy (sample_busy\<lparr>crashed := True\<rparr>)"
proof -
  have "worker_at sample_busy 0 (Busy sample_item)" "\<not> crashed sample_busy"
    by (simp_all add: worker_at_def sample_busy_def sys_init_def)
  from query_kills_server[OF refl _ _ this sample_item_ok, of "replicate 31 (hd sample_trades)" 0]
  show ?thesis by (auto simp: sample_item_def sample_query_def sample_trades_def Let_def)
qed

definition sample_exhausted :: system where
  "sample_exhausted = (sys_init sample_srv1 1)\<lparr>workers :=
     [Busy \<lparr>work_fd = 7, work_query = sample_query\<lparr>resolution := 0\<rparr>\<rparr>]\<rparr>"

text \<open>A query that arrives when the only worker is lost stays in the queue.\<close>

theorem pool_exhausted_witness:
  "\<exists>s'. (sys_step sample_engine)\<^sup>*\<^sup>* sample_exhausted s' \<and> received s' = [sample_item]
    \<and> workers s' = workers sample_exhausted \<and> answered s' = []"
proof -
  let ?s' = "sample_exhausted\<lparr>srv := sample_srv1\<lparr>work_queue := [sample_item]\<rparr>, received := [sample_item]\<rparr>"
  have step: "sys_step sample_engine sample_exhausted ?s'"
    using sys_event[of sample_exhausted _ _ "sample_srv1\<lparr>work_queue := [sample_item]\<rparr>"
        sample_engine] sample_read
    by (fastforce simp: sys_init_def sample_exhausted_def send_within_def sample_srv1_def empty_server_def)
  have "\<forall>w \<in> set (workers sample_exhausted). endless w"
    by (simp add: sample_exhausted_def endless_def sys_init_def sample_query_def)
  from pool_exhausted[OF this r_into_rtranclp[of "sys_step sample_engine", OF step]] step
  show ?thesis by (intro exI[of _ ?s']) (auto simp: sample_exhausted_def sys_init_def)
qed

end
