(* ===== verification/Service.thy ===== *)
theory Service
  imports Server_System "HOL-Library.Sublist"
begin

text \<open>
  What the running server does beyond the conservation of queries: the well-formedness of its state
  (which connections and descriptors it refers to), that what was sent stays sent, that it can always
  get on with its work, and two ways in which the answers a client sees need not be those of its
  queries in order: several workers, and a read that returns part of a query.
\<close>

section \<open>Well-formed server states\<close>

text \<open>
  Every connection of an open descriptor has been accepted, is behind that descriptor only, and is
  watched by epoll; nothing is on the wire of a connection that does not exist yet.
\<close>

definition srv_typed :: "EpollServer \<Rightarrow> bool" where
  "srv_typed s \<longleftrightarrow>
     (\<forall>fd c. conn s fd = Some c \<longrightarrow> c < next_conn s \<and> interest s fd \<noteq> None
        \<and> (\<forall>fd'. conn s fd' = Some c \<longrightarrow> fd' = fd))
     \<and> (\<forall>c. next_conn s \<le> c \<longrightarrow> wire s c = [])"

text \<open>
  A handler keeps the state well formed and takes nothing back from a wire. The rules of the
  collection \<open>handler\<close> compose this along the body of a handler.
\<close>

definition handler_ok :: "EpollServer \<Rightarrow> EpollServer \<Rightarrow> bool" where
  "handler_ok s t \<longleftrightarrow> srv_typed s \<longrightarrow> srv_typed t \<and> (\<forall>c. prefix (wire s c) (wire t c))"

named_theorems handler

lemma handler_ok_refl [handler]: "handler_ok s s"
  by (simp add: handler_ok_def)

lemma handler_ok_trans: "handler_ok s t \<Longrightarrow> handler_ok t u \<Longrightarrow> handler_ok s u"
  unfolding handler_ok_def by (meson prefix_order.trans)

lemma handler_ok_close [handler]: "handler_ok s t \<Longrightarrow> handler_ok s (close_fd fd t)"
  by (auto simp: handler_ok_def srv_typed_def close_fd_def)

lemma handler_ok_mod [handler]: "handler_ok s t \<Longrightarrow> handler_ok s (epoll_mod fd evs t)"
  by (auto simp: handler_ok_def srv_typed_def epoll_mod_def)

lemma handler_ok_transmit [handler]: "handler_ok s t \<Longrightarrow> handler_ok s (transmit fd bs t)"
  unfolding handler_ok_def srv_typed_def transmit_def
  by (cases "conn t fd") (fastforce intro: prefix_order.trans dest: leD)+

lemma handler_ok_fields [handler]:
  "handler_ok s t \<Longrightarrow> handler_ok s (erase_buffer fd t)"
  "handler_ok s t \<Longrightarrow> handler_ok s (t\<lparr>write_buffers := wb\<rparr>)"
  "handler_ok s t \<Longrightarrow> handler_ok s (t\<lparr>work_queue := q\<rparr>)"
  "handler_ok s t \<Longrightarrow> handler_ok s (t\<lparr>results_queue := rq\<rparr>)"
  by (simp_all add: handler_ok_def srv_typed_def erase_buffer_def)

lemma handler_ok_accept:
  "handler_ok s (s\<lparr>conn := (conn s)(fd \<mapsto> next_conn s), next_conn := Suc (next_conn s),
     interest := (interest s)(fd \<mapsto> evs)\<rparr>)"
  by (fastforce simp: handler_ok_def srv_typed_def less_Suc_eq)

lemma handler_ok_send_result: "handler_ok s t \<Longrightarrow> handler_ok s (send_result n1 n2 err r t)"
  by (auto simp: send_result_unfold Let_def intro!: handler)

lemma handler_ok_handle_write: "handler_ok s (handle_write n fd s)"
  by (auto simp: handle_write_def Let_def intro!: handler split: option.split)

lemma handler_ok_handle_read: "handle_read fd outs s = Some t \<Longrightarrow> handler_ok s t"
proof (induction fd outs s rule: handle_read.induct)
  case (2 fd bs left outs s)
  then show ?case by (auto intro: handler_ok_trans[OF handler_ok_fields(3)[OF handler_ok_refl]])
qed (auto intro!: handler)

lemma handler_ok_accept_loop: "accept_loop outs s = Some (Inr t) \<Longrightarrow> handler_ok s t"
proof (induction outs s rule: accept_loop.induct)
  case (4 fd getfl setfl ctl outs s)
  then show ?case
    by (auto simp: bindR_eq_Inr add_to_epoll_def bindE_eq_Inr Let_def
        intro: handler_ok_trans[OF handler_ok_accept])
qed (auto intro: handler)

lemma handler_ok_dispatch: "dispatch ev c s = Some (Inr t) \<Longrightarrow> handler_ok s t"
  by (auto simp: dispatch_def split: if_splits
      intro: handler handler_ok_accept_loop handler_ok_handle_read handler_ok_handle_write)

lemma handler_ok_act: "sys_act e a s t \<Longrightarrow> handler_ok (srv s) (srv t)"
  by (induction rule: sys_act.induct)
    (auto intro: handler handler_ok_dispatch handler_ok_send_result)

lemma handler_ok_step: "sys_step e s t \<Longrightarrow> handler_ok (srv s) (srv t)"
  by (elim sys_stepE) (rule handler_ok_act)

interpretation handlers: step_preorder "sys_step e" "\<lambda>s t. handler_ok (srv s) (srv t)" for e
  by unfold_locales (blast intro: handler handler_ok_trans handler_ok_step)+

lemmas handler_ok_steps = handlers.steps_rel

lemma srv_typed_start: "start_run c = Inr s0 \<Longrightarrow> srv_typed s0"
  by (auto simp: start_run_def new_EpollServer_def add_to_epoll_def empty_server_def bindE_eq_Inr
      srv_typed_def)

lemma srv_typed_reachable: "sys_reachable e c n s \<Longrightarrow> srv_typed (srv s)"
  using handler_ok_steps srv_typed_start by (fastforce simp: sys_reachable_def handler_ok_def sys_init_def)

text \<open>C17. Every reachable state of the server is well formed: the connection behind an open descriptor was
  accepted, is behind no other descriptor and is watched by epoll, nothing was sent on a connection
  that does not exist yet, and a pending buffer is neither empty nor finished. Whatever happens
  afterwards, the bytes sent on a connection stay a prefix of those sent later.\<close>

theorem server_state_typed:
  assumes "sys_reachable e c n s" and "(sys_step e)\<^sup>*\<^sup>* s t"
  shows "srv_typed (srv t) \<and> outgoing_ok (srv t) \<and> (\<forall>c. prefix (wire (srv s) c) (wire (srv t) c))"
proof -
  have "sys_reachable e c n t"
    using assms by (auto simp: sys_reachable_def intro: rtranclp_trans)
  then show ?thesis
    using sys_inv_reachable srv_typed_reachable[OF assms(1)] handler_ok_steps[OF assms(2)]
    by (auto simp: sys_inv_def handler_ok_def)
qed

theorem server_state_typed_witness: "srv_typed (srv sample_answered) \<and> outgoing_ok (srv sample_answered)"
  using server_state_typed[OF sample_answered_reachable] by blast

section \<open>The server can get on\<close>

text \<open>What is left to do: two steps for a waiting query, one for a query at work or a result.\<close>

definition pending_work :: "system \<Rightarrow> nat" where
  "pending_work s = 3 * length (work_queue (srv s)) + 2 * length (busy_items (workers s))
     + length (results_queue (srv s))"

lemma busy_items_Nil: "busy_items ws = [] \<longleftrightarrow> (\<forall>w \<in> set ws. w = Free)"
  by (induction ws rule: busy_items.induct) auto

lemma busy_items_Cons: "busy_items ws \<noteq> [] \<Longrightarrow> \<exists>i w. i < length ws \<and> ws ! i = Busy w"
proof -
  assume "busy_items ws \<noteq> []"
  then obtain i where "i < length ws" "ws ! i \<noteq> Free" using busy_items_Nil by (metis in_set_conv_nth)
  then show ?thesis by (cases "ws ! i") auto
qed

lemma busy_length_update:
  assumes "worker_at s i w"
  shows "length (busy_items ((workers s)[i := v])) + size (worker_item w)
    = length (busy_items (workers s)) + size (worker_item v)"
  using arg_cong[OF busy_update[OF assms, of v], of size] by simp

text \<open>Queries that end with a result.\<close>

definition answerable :: "Query_engine \<Rightarrow> system \<Rightarrow> bool" where
  "answerable e s \<longleftrightarrow> (\<forall>w \<in> set (work_queue (srv s)) \<union> set (busy_items (workers s)).
     \<exists>r. worker_process e w = Some (Inr r))"

lemma busy_items_elem: "w \<in> set (busy_items ws) \<longleftrightarrow> Busy w \<in> set ws"
  by (induction ws rule: busy_items.induct) auto

lemma busy_items_update: "set (busy_items (ws[i := v])) \<subseteq> set (busy_items ws) \<union> set (busy_items [v])"
  using set_update_subset_insert[of ws i v] by (cases v) (auto simp: busy_items_elem)

text \<open>A step after which the server is as able to go on as before and has less to do.\<close>

definition serves :: "Query_engine \<Rightarrow> system \<Rightarrow> system \<Rightarrow> bool" where
  "serves e s t \<longleftrightarrow> received t = received s \<and> \<not> crashed t \<and> workers t \<noteq> [] \<and> answerable e t
     \<and> pending_work t < pending_work s"

lemma queues_same:
  "s\<lparr>work_queue := work_queue s, results_queue := rq\<rparr> = s\<lparr>results_queue := rq\<rparr>"
  "s\<lparr>work_queue := q, results_queue := results_queue s\<rparr> = s\<lparr>work_queue := q\<rparr>"
  for s :: EpollServer
  by simp_all

lemma worker_progress:
  assumes "\<not> crashed s" and "workers s \<noteq> []" and "answerable e s"
    and "work_queue (srv s) \<noteq> [] \<or> busy_items (workers s) \<noteq> []"
  shows "\<exists>t i. sys_act e (Worker_thread i) s t \<and> serves e s t \<and> handled t = handled s
    \<and> srv t = (srv s)\<lparr>work_queue := work_queue (srv t), results_queue := results_queue (srv t)\<rparr>"
proof (cases "busy_items (workers s) = []")
  case False
  then obtain i w where i: "worker_at s i (Busy w)" using busy_items_Cons[OF False] by (auto simp: worker_at_def)
  obtain r where r: "worker_process e w = Some (Inr r)"
    using assms(3) busy_items_set[OF i] by (auto simp: answerable_def)
  show ?thesis
    by (intro exI conjI, rule act_finish[OF assms(1) i r])
      (use busy_length_update[OF i, of Free] assms(1-3) busy_items_update[of "workers s" i Free]
        in \<open>auto simp: queues_same serves_def pending_work_def TSQueue_push_def answerable_def\<close>)
next
  case True
  then have free: "worker_at s 0 Free"
    using assms(2) busy_items_Nil[of "workers s"] by (simp add: worker_at_def)
  obtain w rest where q: "work_queue (srv s) = w # rest"
    using assms(4) True by (cases "work_queue (srv s)") auto
  then have "TSQueue_pop (work_queue (srv s)) = Some (w, rest)" by (simp add: pop_Some_iff)
  then show ?thesis
    by (intro exI conjI, rule act_take[OF assms(1) free])
      (use busy_length_update[OF free, of "Busy w"] assms(1-3) q busy_items_update[of "workers s" 0 "Busy w"]
        in \<open>auto simp: queues_same serves_def pending_work_def answerable_def\<close>)
qed

text \<open>A result that is sent whole.\<close>

definition sent_whole :: "ResultItem \<Rightarrow> ResultItem list \<Rightarrow> system \<Rightarrow> system" where
  "sent_whole r rest s = s\<lparr>srv := send_result 4 (int (length (result_bytes r))) EAGAIN r
     ((srv s)\<lparr>results_queue := rest\<rparr>), handled := handled s @ [r]\<rparr>"

lemma result_progress:
  assumes "\<not> crashed s" and "workers s \<noteq> []" and "answerable e s" and "results_queue (srv s) = r # rest"
  shows "serves e s (sent_whole r rest s)"
  using assms by (simp add: serves_def sent_whole_def pending_work_def answerable_def)

lemma service_step:
  assumes "\<not> crashed s" and "workers s \<noteq> []" and "answerable e s" and "pending_work s \<noteq> 0"
  shows "\<exists>t. sys_step e s t \<and> serves e s t"
proof (cases "results_queue (srv s)")
  case Nil
  then have "work_queue (srv s) \<noteq> [] \<or> busy_items (workers s) \<noteq> []"
    using assms(4) by (auto simp: pending_work_def)
  then show ?thesis using worker_progress[OF assms(1-3)] by (blast intro: sys_act_step)
next
  case (Cons r rest)
  have "sys_step e s (sent_whole r rest s)"
    using Cons sys_result[OF assms(1), of r rest 4 "int (length (result_bytes r))" e EAGAIN]
    by (simp add: sent_whole_def pop_Some_iff)
  then show ?thesis using result_progress[OF assms(1-3) Cons] by blast
qed

interpretation service: step_progress "sys_step e" "\<lambda>s t. received t = received s"
    "\<lambda>s. \<not> crashed s \<and> workers s \<noteq> [] \<and> answerable e s" pending_work for e
  by unfold_locales (auto dest!: service_step simp: serves_def)

interpretation pool: step_preorder "sys_step e" "\<lambda>s t. length (workers t) = length (workers s)" for e
  by unfold_locales (auto elim!: sys_stepE elim: sys_actE)

lemma reachable_workers:
  assumes "sys_reachable e c n s" and "0 < n"
  shows "workers s \<noteq> []"
proof -
  obtain s0 where "(sys_step e)\<^sup>*\<^sup>* (sys_init s0 n) s" using assms(1) by (auto simp: sys_reachable_def)
  from pool.steps_rel[OF this] show ?thesis using assms(2) by (auto simp: sys_init_def)
qed

lemma reachable_answerable:
  assumes "sys_reachable e c n s" and "time_sorted (records e)" and "records e \<noteq> []"
    and "\<forall>w \<in> set (received s). no_wrap (work_query w) \<and> covers (end_time_point (work_query w)) e"
  shows "answerable e s"
proof -
  have m: "mset (received s) = mset (work_queue (srv s)) + mset (busy_items (workers s)) + mset (answered s)"
    using sys_inv_reachable[OF assms(1)] by (simp add: sys_inv_def)
  have "set (work_queue (srv s)) \<union> set (busy_items (workers s)) \<subseteq> set (received s)"
    using arg_cong[OF m, of set_mset] by auto
  then show ?thesis unfolding answerable_def using worker_spec assms(2-4) by blast
qed

text \<open>The server never gets stuck on queries it can answer: from every reachable state of a server that
  runs with at least one worker over a time-ordered, nonempty file, if the queries received neither
  wrap nor reach the unsafe end of the file, the workers and the main thread can go on until every
  received query is answered with its abstract response and every result has been handed to the
  socket.\<close>

theorem server_can_answer:
  assumes "sys_reachable e c n s" and "\<not> crashed s" and "0 < n"
    and "time_sorted (records e)" and "records e \<noteq> []"
    and "\<forall>w \<in> set (received s). no_wrap (work_query w) \<and> covers (end_time_point (work_query w)) e"
  shows "\<exists>t. (sys_step e)\<^sup>*\<^sup>* s t \<and> mset (answered t) = mset (received s)
    \<and> handled t = map (\<lambda>w. \<lparr>result_fd = work_fd w,
        result_bytes = response_spec (records e) (work_query w)\<rparr>) (answered t)"
proof -
  obtain t where t: "(sys_step e)\<^sup>*\<^sup>* s t" "received t = received s" "pending_work t = 0"
    using service.reaches_goal[of s e] assms(2) reachable_workers[OF assms(1,3)]
      reachable_answerable[OF assms(1,4-6)] by blast
  have reach: "sys_reachable e c n t"
    using assms(1) t(1) by (auto simp: sys_reachable_def intro: rtranclp_trans)
  have "work_queue (srv t) = []" "busy_items (workers t) = []" "results_queue (srv t) = []"
    using t(3) by (simp_all add: pending_work_def)
  moreover have "mset (answered t) = mset (received s)"
    using sys_inv_reachable[OF reach] t(2) calculation by (simp add: sys_inv_def)
  ultimately show ?thesis
    using server_spec[OF reach assms(4,5)] assms(6) t by (intro exI[of _ t]) auto
qed

theorem server_can_answer_witness:
  "\<exists>t. (sys_step sample_engine)\<^sup>*\<^sup>* sample_busy t \<and> mset (answered t) = {#sample_item#}
    \<and> handled t = map (\<lambda>w. \<lparr>result_fd = work_fd w,
        result_bytes = response_spec sample_trades (work_query w)\<rparr>) (answered t)"
proof -
  have ok: "\<not> crashed sample_busy" "received sample_busy = [sample_item]"
    by (simp_all add: sample_busy_def sys_init_def)
  then have "\<forall>w \<in> set (received sample_busy). no_wrap (work_query w)
      \<and> covers (end_time_point (work_query w)) sample_engine"
    using sample_item_ok sample_covers by simp
  from server_can_answer[OF sample_busy_reachable ok(1) _ _ _ this] show ?thesis
    using ok(2) sample_sorted by (simp add: sample_trades_def)
qed

section \<open>Answers out of order\<close>

lemma finish_two:
  assumes "\<not> crashed s" and "worker_at s i (Busy w)" and "worker_at s j (Busy w')" and "i \<noteq> j"
    and "worker_process e w = Some (Inr r)" and "worker_process e w' = Some (Inr r')"
  shows "\<exists>t. (sys_step e)\<^sup>*\<^sup>* s t \<and> answered t = answered s @ [w, w']
    \<and> results_queue (srv t) = results_queue (srv s) @ [r, r']"
proof -
  note 1 = sys_finish[OF assms(1,2,5)]
  let ?u = "s\<lparr>srv := (srv s)\<lparr>results_queue := TSQueue_push (results_queue (srv s)) r\<rparr>,
      workers := (workers s)[i := Free], answered := answered s @ [w], produced := produced s @ [r]\<rparr>"
  have "\<not> crashed ?u" "worker_at ?u j (Busy w')" using assms(1,3,4) by (simp_all add: worker_at_def)
  note 2 = sys_finish[OF this assms(6)]
  show ?thesis
    by (rule exI, rule conjI, rule converse_rtranclp_into_rtranclp[OF 1 r_into_rtranclp[of "sys_step e", OF 2]])
      (simp add: TSQueue_push_def)
qed

text \<open>C25. With two workers or more the answers to the queries of one client can come in either order: when
  two workers hold queries that end with a result, the server can go on to queue the two results in
  the one order or in the other. A result carries the descriptor and the bytes only, so a client
  that sends a second query before the first is answered cannot tell which answer is which.\<close>

theorem workers_reorder:
  assumes "\<not> crashed s" and "worker_at s i (Busy w)" and "worker_at s j (Busy w')" and "i \<noteq> j"
    and "worker_process e w = Some (Inr r)" and "worker_process e w' = Some (Inr r')"
  shows "(\<exists>t. (sys_step e)\<^sup>*\<^sup>* s t \<and> answered t = answered s @ [w, w']
      \<and> results_queue (srv t) = results_queue (srv s) @ [r, r'])
    \<and> (\<exists>t. (sys_step e)\<^sup>*\<^sup>* s t \<and> answered t = answered s @ [w', w]
      \<and> results_queue (srv t) = results_queue (srv s) @ [r', r])"
  using finish_two[OF assms] finish_two[OF assms(1,3,2) not_sym[OF assms(4)] assms(6,5)] by blast

text \<open>A client that sends two queries at once, and two workers.\<close>

definition sample_item2 :: WorkItem where
  "sample_item2 = \<lparr>work_fd = 7, work_query = sample_query\<lparr>resolution := 10\<rparr>\<rparr>"

definition sample_response2 :: ResultItem where
  "sample_response2 = \<lparr>result_fd = 7, result_bytes = response_spec sample_trades (work_query sample_item2)\<rparr>"

lemma sample_work2: "worker_process sample_engine sample_item2 = Some (Inr sample_response2)"
proof -
  have "no_wrap (work_query sample_item2)" by (simp add: no_wrap_def sample_item2_def sample_query_def)
  from worker_spec[OF sample_covers _ _ this] show ?thesis
    using sample_sorted by (simp add: sample_response2_def sample_item2_def sample_trades_def)
qed

definition sample_two :: system where
  "sample_two = (sys_init sample_srv1 2)
     \<lparr>workers := [Busy sample_item, Busy sample_item2], received := [sample_item, sample_item2]\<rparr>"

lemma sample_two_reachable: "sys_reachable e sample_calls 2 sample_two"
proof -
  let ?q = "[sample_item, sample_item2]"
  let ?s1 = "sys_init sample_srv1 2"
  let ?s2 = "?s1\<lparr>srv := sample_srv1\<lparr>work_queue := ?q\<rparr>, received := ?q\<rparr>"
  let ?s3 = "?s2\<lparr>srv := sample_srv1\<lparr>work_queue := [sample_item2]\<rparr>, workers := [Busy sample_item, Free]\<rparr>"
  have 1: "sys_step e (sys_init sample_srv0 2) ?s1"
    using sys_event[of "sys_init sample_srv0 2" _ _ sample_srv1 e] sample_accept
    by (fastforce simp: sys_init_def send_within_def sample_srv0_def sample_srv1_def empty_server_def)
  have rd: "dispatch \<lparr>ev_fd = 7, ev_events = EPOLLIN\<rparr>
      \<lparr>accepts = [], recvs = [Received (encode_TradeDataQuery [] sample_query) [],
         Received (encode_TradeDataQuery [] (sample_query\<lparr>resolution := 10\<rparr>)) [], Recv_failed EAGAIN], sends = 0\<rparr>
      sample_srv1 = Some (Inr (sample_srv1\<lparr>work_queue := ?q\<rparr>))"
    by (simp add: dispatch_def sample_srv1_def empty_server_def EPOLLIN_def received_query_def
        TSQueue_push_def sample_item_def sample_item2_def)
  have 2: "sys_step e ?s1 ?s2"
    using sys_event[of ?s1 _ _ "sample_srv1\<lparr>work_queue := ?q\<rparr>" e] rd
    by (fastforce simp: sys_init_def send_within_def sample_srv1_def empty_server_def)
  have two: "replicate 2 Free = [Free, Free]" by (simp add: numeral_2_eq_2)
  have 3: "sys_step e ?s2 ?s3"
    using sys_take[of ?s2 0 sample_item "[sample_item2]" e]
    by (simp add: sys_init_def worker_at_def TSQueue_pop_def two)
  have 4: "sys_step e ?s3 sample_two"
    using sys_take[of ?s3 1 sample_item2 "[]" e]
    by (simp add: sample_two_def sys_init_def worker_at_def TSQueue_pop_def sample_srv1_def empty_server_def)
  show ?thesis unfolding sys_reachable_def using sample_start 1 2 3 4
    by (meson converse_rtranclp_into_rtranclp rtranclp.rtrancl_refl)
qed

theorem workers_reorder_witness:
  "sys_reachable sample_engine sample_calls 2 sample_two
    \<and> (\<exists>t. (sys_step sample_engine)\<^sup>*\<^sup>* sample_two t
        \<and> results_queue (srv t) = [sample_response2, sample_response])"
proof -
  have "\<not> crashed sample_two" "worker_at sample_two 0 (Busy sample_item)"
    "worker_at sample_two 1 (Busy sample_item2)" "results_queue (srv sample_two) = []"
    by (simp_all add: sample_two_def sys_init_def worker_at_def sample_srv1_def empty_server_def)
  with workers_reorder[OF this(1-3) _ sample_work sample_work2] sample_two_reachable
  show ?thesis by auto
qed

section \<open>Queries in pieces\<close>

text \<open>C24. A query that arrives in two pieces becomes two wrong queries: when the first \<open>recv\<close> returns the
  first eight bytes of a query and the next one the other 32, the server enqueues two work items
  for the descriptor. The first has the symbol of the query and uninitialised memory for everything
  else; the second has every field of the query moved to the field before it, and uninitialised
  memory for the metrics.\<close>

theorem short_read_splits_query:
  assumes "length left1 = 40" and "length left2 = 40"
    and "msg = encode_TradeDataQuery pad q"
    and "handle_read fd [Received (take 8 msg) left1, Received (drop 8 msg) left2, Recv_failed EAGAIN] s = Some t"
  shows "t = s\<lparr>work_queue := work_queue s @
     [\<lparr>work_fd = fd, work_query = (decode_TradeDataQuery left1)\<lparr>query_symbol_id := query_symbol_id q\<rparr>\<rparr>,
      \<lparr>work_fd = fd, work_query = \<lparr>query_symbol_id = ucast (start_time_point q),
         start_time_point = end_time_point q, end_time_point = resolution q, resolution = metrics q,
         metrics = get64 (drop 32 left2)\<rparr>\<rparr>]\<rparr>"
proof -
  define p where "p = take 4 (pad @ replicate 4 (0 :: byte))"
  then have p: "length p = 4" by simp
  have m8: "take 8 msg = le32 (query_symbol_id q) @ p"
    "drop 8 msg = le64 (start_time_point q) @ le64 (end_time_point q) @ le64 (resolution q) @ le64 (metrics q)"
    by (simp_all add: assms(3) encode_TradeDataQuery_def p_def)
  have first: "received_query left1 (take 8 msg)
      = (decode_TradeDataQuery left1)\<lparr>query_symbol_id := query_symbol_id q\<rparr>"
    using assms(1) p by (simp add: received_query_def decode_TradeDataQuery_def m8)
  have second: "received_query left2 (drop 8 msg) = \<lparr>query_symbol_id = ucast (start_time_point q),
         start_time_point = end_time_point q, end_time_point = resolution q, resolution = metrics q,
         metrics = get64 (drop 32 left2)\<rparr>"
    using assms(2) by (simp add: received_query_def decode_TradeDataQuery_def m8 get32_le64)
  show ?thesis using assms(4) first second by (auto simp: TSQueue_push_def)
qed

theorem short_read_splits_query_witness:
  "let msg = encode_TradeDataQuery [] sample_query;
       t = sample_srv1\<lparr>work_queue := [
         \<lparr>work_fd = 7, work_query = (decode_TradeDataQuery (replicate 40 0))\<lparr>query_symbol_id := 1\<rparr>\<rparr>,
         \<lparr>work_fd = 7, work_query = \<lparr>query_symbol_id = 10, start_time_point = 40, end_time_point = 30,
            resolution = 1, metrics = get64 (replicate 8 0)\<rparr>\<rparr>]\<rparr>
   in handle_read 7 [Received (take 8 msg) (replicate 40 0), Received (drop 8 msg) (replicate 40 0),
        Recv_failed EAGAIN] sample_srv1 = Some t"
proof -
  let ?msg = "encode_TradeDataQuery [] sample_query"
  obtain t where t: "handle_read 7 [Received (take 8 ?msg) (replicate 40 0),
      Received (drop 8 ?msg) (replicate 40 0), Recv_failed EAGAIN] sample_srv1 = Some t" by simp
  from short_read_splits_query[OF _ _ refl this] t show ?thesis
    by (simp add: sample_query_def sample_srv1_def empty_server_def)
qed

end
