(* ===== verification/Delivery.thy ===== *)
theory Delivery
  imports Service
begin

text \<open>
  What the clients of the running server get on their connections. A run is orderly when the kernel
  hands out descriptors that are not in use and refuses to send on those that are closed, the length of
  a response is sent whole or not at all, and no response is sent to a descriptor while an earlier one
  is pending. Under any such run, with failing sends, partial writes of any size, any number of clients
  and workers and any interleaving, the bytes on each connection are the framed responses handed to
  it, one after the other.
\<close>

section \<open>Orderly runs\<close>

definition frame :: "byte list \<Rightarrow> byte list" where
  "frame buf = le32 (of_nat (length buf)) @ buf"

text \<open>The kernel gives a new connection a descriptor that is not open.\<close>

fun fresh_accepts :: "accept_outcome list \<Rightarrow> i32 set \<Rightarrow> bool" where
  "fresh_accepts [] fds = True"
| "fresh_accepts (Accept_failed _ # _) fds = True"
| "fresh_accepts (Accepted fd _ _ _ # outs) fds = (fd \<notin> fds \<and> fresh_accepts outs (insert fd fds))"

text \<open>
  A step of the system together with the log of the results handed to each connection: an event, a
  step of a worker, a result sent (or failing to be sent) to an open connection with nothing pending,
  or a result for a client that has gone (the first \<open>send\<close> fails).
\<close>

inductive deliver_step :: "Query_engine \<Rightarrow> system \<times> (nat \<Rightarrow> ResultItem list) \<Rightarrow>
    system \<times> (nat \<Rightarrow> ResultItem list) \<Rightarrow> bool" for e where
  dl_event: "\<not> crashed s \<Longrightarrow> dispatch ev c (srv s) = Some (Inr t) \<Longrightarrow>
    send_within (sends c) (ev_fd ev) (srv s) \<Longrightarrow> fresh_accepts (accepts c) (dom (conn (srv s))) \<Longrightarrow>
    deliver_step e (s, L) (s\<lparr>srv := t,
      received := received s @ drop (length (work_queue (srv s))) (work_queue t)\<rparr>, L)"
| dl_worker: "sys_step e s t \<Longrightarrow> srv t = (srv s)\<lparr>work_queue := q, results_queue := rq\<rparr> \<Longrightarrow>
    handled t = handled s \<Longrightarrow> deliver_step e (s, L) (t, L)"
| dl_send: "\<not> crashed s \<Longrightarrow> TSQueue_pop (results_queue (srv s)) = Some (r, rest) \<Longrightarrow>
    conn (srv s) (result_fd r) = Some c \<Longrightarrow> write_buffers (srv s) (result_fd r) = None \<Longrightarrow>
    n1 < 0 \<or> n1 = 4 \<Longrightarrow> n2 \<le> int (length (result_bytes r)) \<Longrightarrow>
    deliver_step e (s, L) (s\<lparr>srv := send_result n1 n2 err r ((srv s)\<lparr>results_queue := rest\<rparr>),
      handled := handled s @ [r]\<rparr>, L(c := L c @ [r]))"
| dl_gone: "\<not> crashed s \<Longrightarrow> TSQueue_pop (results_queue (srv s)) = Some (r, rest) \<Longrightarrow>
    conn (srv s) (result_fd r) = None \<Longrightarrow> n1 < 0 \<Longrightarrow> n2 \<le> int (length (result_bytes r)) \<Longrightarrow>
    deliver_step e (s, L) (s\<lparr>srv := send_result n1 n2 err r ((srv s)\<lparr>results_queue := rest\<rparr>),
      handled := handled s @ [r]\<rparr>, L)"

lemma deliver_sys_step: "deliver_step e sL tL \<Longrightarrow> sys_step e (fst sL) (fst tL)"
  by (induction rule: deliver_step.induct) (auto intro: sys_event sys_result)

section \<open>Invariant\<close>

lemma subseq_map_split:
  assumes "subseq xs (map f ys)"
  obtains zs where "subseq zs ys" "xs = map f zs"
  using assms by (auto simp: subseq_conv_nths nths_map)

definition pending :: "EpollServer \<Rightarrow> i32 \<Rightarrow> byte list" where
  "pending s fd = (case write_buffers s fd of None \<Rightarrow> [] | Some ob \<Rightarrow> drop (sent_bytes ob) (buffer ob))"

text \<open>
  The bytes on a connection and those that wait for its descriptor make up the framed results of
  the log; a descriptor that is not open has nothing waiting.
\<close>

definition delivered :: "EpollServer \<Rightarrow> (nat \<Rightarrow> ResultItem list) \<Rightarrow> bool" where
  "delivered s L \<longleftrightarrow> srv_typed s
     \<and> (\<forall>fd. conn s fd = None \<longrightarrow> write_buffers s fd = None)
     \<and> (\<forall>c. next_conn s \<le> c \<longrightarrow> L c = [])
     \<and> (\<forall>c. prefix (wire s c) (concat (map (frame \<circ> result_bytes) (L c))))
     \<and> (\<forall>fd c. conn s fd = Some c \<longrightarrow>
          wire s c @ pending s fd = concat (map (frame \<circ> result_bytes) (L c))
          \<and> (\<forall>r \<in> set (L c). result_fd r = fd))"

lemma delivered_open:
  assumes "delivered s L" and "conn s fd = Some c"
  shows "wire s c @ pending s fd = concat (map (frame \<circ> result_bytes) (L c))"
    and "\<forall>r \<in> set (L c). result_fd r = fd"
  using assms by (simp_all add: delivered_def)

lemma delivered_queues: "delivered s L \<Longrightarrow> delivered (s\<lparr>work_queue := q\<rparr>) L"
  "delivered s L \<Longrightarrow> delivered (s\<lparr>results_queue := rq\<rparr>) L"
  by (simp_all add: delivered_def srv_typed_def pending_def)

lemma delivered_close: "delivered s L \<Longrightarrow> delivered (erase_buffer fd (close_fd fd s)) L"
  by (auto simp: delivered_def srv_typed_def pending_def close_fd_def erase_buffer_def)

lemma delivered_handle_read: "handle_read fd outs s = Some t \<Longrightarrow> delivered s L \<Longrightarrow> delivered t L"
  by (induction fd outs s rule: handle_read.induct) (auto intro: delivered_queues delivered_close)

lemma delivered_accept:
  assumes "delivered s L" and "conn s fd = None"
  shows "delivered (s\<lparr>conn := (conn s)(fd \<mapsto> next_conn s), next_conn := Suc (next_conn s),
     interest := (interest s)(fd \<mapsto> evs)\<rparr>) L"
proof -
  have "wire s (next_conn s) = []" "L (next_conn s) = []" "write_buffers s fd = None"
    using assms by (simp_all add: delivered_def srv_typed_def)
  moreover have "srv_typed (s\<lparr>conn := (conn s)(fd \<mapsto> next_conn s), next_conn := Suc (next_conn s),
     interest := (interest s)(fd \<mapsto> evs)\<rparr>)"
    using assms(1) handler_ok_accept by (simp add: delivered_def handler_ok_def)
  ultimately show ?thesis using assms by (auto simp: delivered_def pending_def)
qed

text \<open>A loop of accepts keeps what every accept of a fresh descriptor keeps.\<close>

lemma accept_loop_keeps:
  assumes "accept_loop outs s = Some (Inr t)" and "fresh_accepts outs (dom (conn s))" and "P s"
    and "\<And>s fd. P s \<Longrightarrow> conn s fd = None \<Longrightarrow> P (s\<lparr>conn := (conn s)(fd \<mapsto> next_conn s),
      next_conn := Suc (next_conn s), interest := (interest s)(fd \<mapsto> EPOLLIN)\<rparr>)"
  shows "P t"
  using assms(1-3)
proof (induction outs s rule: accept_loop.induct)
  case (4 fd getfl setfl ctl outs s)
  let ?s = "s\<lparr>conn := (conn s)(fd \<mapsto> next_conn s), next_conn := Suc (next_conn s),
     interest := (interest s)(fd \<mapsto> EPOLLIN)\<rparr>"
  have fd: "conn s fd = None" using 4(3) by auto
  have dom: "dom (\<lambda>fd'. if fd' = fd then Some (next_conn s) else conn s fd') = insert fd (dom (conn s))"
    by auto
  have "P ?s" using assms(4)[OF 4(4) fd] .
  then show ?case
    using 4(1)[where xb = ?s] 4(2,3) dom
    by (auto simp: bindR_eq_Inr add_to_epoll_def bindE_eq_Inr Let_def)
qed auto

lemma delivered_accept_loop:
  "accept_loop outs s = Some (Inr t) \<Longrightarrow> fresh_accepts outs (dom (conn s)) \<Longrightarrow> delivered s L \<Longrightarrow> delivered t L"
  by (erule (2) accept_loop_keeps) (rule delivered_accept)

text \<open>A handler that sends on one connection and changes the pending bytes of its descriptor only.\<close>

lemma delivered_update:
  assumes "delivered s L" and "conn s fd = Some c" and "srv_typed t"
    and "conn t = conn s" and "next_conn t = next_conn s" and "wire t = (wire s)(c := w)"
    and "\<And>fd'. fd' \<noteq> fd \<Longrightarrow> write_buffers t fd' = write_buffers s fd'"
    and "w @ pending t fd = concat (map (frame \<circ> result_bytes) rs)" and "\<forall>r \<in> set rs. result_fd r = fd"
  shows "delivered t (L(c := rs))"
proof -
  have po: "pending t fd' = pending s fd'" if "fd' \<noteq> fd" for fd'
    using assms(7)[OF that] by (simp add: pending_def)
  have uniq: "fd' = fd" if "conn s fd' = Some c" for fd'
    using assms(1,2) that by (auto simp: delivered_def srv_typed_def)
  have "c < next_conn s" using assms(1,2) by (simp add: delivered_def srv_typed_def)
  moreover have "prefix w (concat (map (frame \<circ> result_bytes) rs))" using assms(8) by (metis prefixI)
  moreover have "write_buffers t fd' = None" if "conn s fd' = None" for fd'
  proof -
    have "fd' \<noteq> fd" using that assms(2) by auto
    then show ?thesis using that assms(1,7) by (simp add: delivered_def)
  qed
  moreover have "wire t c' @ pending t fd' = concat (map (frame \<circ> result_bytes) ((L(c := rs)) c'))
      \<and> (\<forall>r \<in> set ((L(c := rs)) c'). result_fd r = fd')" if "conn s fd' = Some c'" for fd' c'
  proof (cases "c' = c")
    case True
    then show ?thesis using uniq that assms(6,8,9) by auto
  next
    case False
    then have "fd' \<noteq> fd" using that assms(2) by auto
    then show ?thesis using False that assms(1,6) po by (simp add: delivered_def)
  qed
  ultimately show ?thesis using assms(1,3-6) by (simp add: delivered_def)
qed

lemma delivered_write:
  assumes "delivered s L" and "send_within n fd s"
  shows "delivered (handle_write n fd s) L"
proof (cases "write_buffers s fd")
  case None
  then show ?thesis using assms(1) by (simp add: handle_write_def)
next
  case (Some ob)
  then obtain c where c: "conn s fd = Some c" using assms(1) by (force simp: delivered_def)
  show ?thesis
  proof (cases "0 \<le> n")
    case False
    then show ?thesis using delivered_close[OF assms(1)] Some by (simp add: handle_write_def)
  next
    case True
    let ?t = "handle_write n fd s"
    have wire: "conn ?t = conn s" "next_conn ?t = next_conn s"
      "wire ?t = (wire s)(c := wire s c @ take (nat n) (pending s fd))"
      using True Some c
      by (simp_all add: handle_write_def Let_def pending_def transmit_def epoll_mod_def erase_buffer_def)
    have rest: "pending ?t fd = drop (nat n) (pending s fd)"
      using True Some assms(2) by (auto simp: handle_write_def Let_def pending_def send_within_def add.commute)
    have others: "write_buffers ?t fd' = write_buffers s fd'" if "fd' \<noteq> fd" for fd'
      using that True Some by (simp add: handle_write_def Let_def)
    have "srv_typed ?t" using handler_ok_handle_write[of s n fd] assms(1)
      by (simp add: handler_ok_def delivered_def)
    moreover have "wire s c @ pending s fd = concat (map (frame \<circ> result_bytes) (L c))"
      "\<forall>r \<in> set (L c). result_fd r = fd"
      using delivered_open[OF assms(1) c] .
    ultimately have "delivered ?t (L(c := L c))"
      using delivered_update[OF assms(1) c _ wire others, of "L c"] rest by simp
    then show ?thesis by simp
  qed
qed

lemma delivered_send:
  assumes "delivered s L" and "conn s (result_fd r) = Some c" and "write_buffers s (result_fd r) = None"
    and "0 \<le> n2" and "n2 \<le> int (length (result_bytes r))"
  shows "delivered (send_result 4 n2 err r s) (L(c := L c @ [r]))"
proof -
  let ?t = "send_result 4 n2 err r s" and ?fd = "result_fd r"
  have wire: "conn ?t = conn s" "next_conn ?t = next_conn s"
    "wire ?t = (wire s)(c := wire s c @ le32 (of_nat (length (result_bytes r))) @ take (nat n2) (result_bytes r))"
    using assms(2,4) by (simp_all add: send_result_unfold Let_def transmit_def epoll_mod_def)
  have rest: "pending ?t ?fd = drop (nat n2) (result_bytes r)"
    using assms(3,4) by (auto simp: send_result_unfold Let_def pending_def)
  have others: "write_buffers ?t fd' = write_buffers s fd'" if "fd' \<noteq> ?fd" for fd'
    using that by (simp add: send_result_unfold Let_def)
  have "srv_typed ?t" using handler_ok_send_result[of s s 4 n2 err r] assms(1)
    by (simp add: handler_ok_def delivered_def srv_typed_def)
  moreover have "wire s c = concat (map (frame \<circ> result_bytes) (L c))" "\<forall>r' \<in> set (L c). result_fd r' = ?fd"
    using assms(1-3) delivered_open[OF assms(1,2)] by (simp_all add: pending_def)
  then have "(wire s c @ le32 (of_nat (length (result_bytes r))) @ take (nat n2) (result_bytes r)) @ pending ?t ?fd
      = concat (map (frame \<circ> result_bytes) (L c @ [r]))" "\<forall>r' \<in> set (L c @ [r]). result_fd r' = ?fd"
    unfolding rest by (simp_all add: frame_def)
  ultimately show ?thesis using delivered_update[OF assms(1,2) _ wire others] by blast
qed

text \<open>A send that fails closes the connection, whose bytes stay a prefix of what it was to get.\<close>

lemma delivered_hang_up:
  assumes "delivered s L" and "conn s fd = Some c" and "write_buffers s fd = None"
    and "prefix bs (concat (map (frame \<circ> result_bytes) rs))"
  shows "delivered (close_fd fd (transmit fd bs s)) (L(c := L c @ rs))"
proof -
  let ?t = "close_fd fd (transmit fd bs s)"
  have others: "conn ?t = (conn s)(fd := None)" "next_conn ?t = next_conn s" "write_buffers ?t = write_buffers s"
    using assms(2) by (simp_all add: close_fd_def transmit_def)
  have "srv_typed ?t"
    using handler_ok_close[OF handler_ok_transmit[OF handler_ok_refl]] assms(1)
    by (auto simp: handler_ok_def delivered_def)
  moreover have "c < next_conn s" "\<And>fd'. conn s fd' = Some c \<Longrightarrow> fd' = fd"
    using assms(1,2) by (auto simp: delivered_def srv_typed_def)
  moreover have "prefix (wire s c @ bs) (concat (map (frame \<circ> result_bytes) (L c @ rs)))"
    using delivered_open(1)[OF assms(1,2)] assms(3,4) by (simp add: pending_def)
  ultimately show ?thesis
    using assms(1,3) by (auto simp: delivered_def wire_transmit[OF assms(2)] others pending_def)
qed

lemma delivered_result:
  assumes "delivered s L" and "conn s (result_fd r) = Some c" and "write_buffers s (result_fd r) = None"
    and "n1 < 0 \<or> n1 = 4" and "n2 \<le> int (length (result_bytes r))"
  shows "delivered (send_result n1 n2 err r s) (L(c := L c @ [r]))"
proof -
  consider "n1 < 0" | "n1 = 4" "n2 < 0" | "n1 = 4" "0 \<le> n2" using assms(4) by linarith
  then show ?thesis
  proof cases
    case 1
    then show ?thesis using delivered_hang_up[OF assms(1-3), of "[]" "[r]"] assms(2)
      by (simp add: send_result_unfold Let_def transmit_def)
  next
    case 2
    then show ?thesis
      using delivered_hang_up[OF assms(1-3), of "le32 (of_nat (length (result_bytes r)))" "[r]"]
      by (simp add: send_result_unfold Let_def frame_def)
  next
    case 3
    then show ?thesis using delivered_send[OF assms(1-3) _ assms(5)] by simp
  qed
qed

lemma delivered_gone:
  assumes "delivered s L" and "conn s (result_fd r) = None" and "n1 < 0"
  shows "delivered (send_result n1 n2 err r s) L"
proof -
  let ?fd = "result_fd r"
  have "delivered (erase_buffer ?fd (close_fd ?fd s)) L" using delivered_close[OF assms(1)] .
  moreover have "erase_buffer ?fd (close_fd ?fd s) = close_fd ?fd s"
    using assms(1,2) by (simp add: erase_buffer_def close_fd_def delivered_def fun_upd_idem)
  ultimately show ?thesis using assms(3) by (simp add: send_result_unfold Let_def)
qed

lemma delivered_dispatch:
  assumes "dispatch ev c s = Some (Inr t)" and "send_within (sends c) (ev_fd ev) s"
    and "fresh_accepts (accepts c) (dom (conn s))" and "delivered s L"
  shows "delivered t L"
  using assms delivered_accept_loop[OF _ assms(3,4)] delivered_handle_read[OF _ assms(4)]
    delivered_write[OF assms(4,2)]
  by (auto simp: dispatch_def split: if_splits)

text \<open>The log holds results that were handed to the socket.\<close>

definition deliver_inv :: "system \<times> (nat \<Rightarrow> ResultItem list) \<Rightarrow> bool" where
  "deliver_inv sL \<longleftrightarrow> delivered (srv (fst sL)) (snd sL) \<and> (\<forall>c. subseq (snd sL c) (handled (fst sL)))"

lemma deliver_inv_step: "deliver_step e sL tL \<Longrightarrow> deliver_inv sL \<Longrightarrow> deliver_inv tL"
proof (induction rule: deliver_step.induct)
  case (dl_event s ev c t L)
  then show ?case by (auto simp: deliver_inv_def intro: delivered_dispatch)
next
  case (dl_worker s t q rq L)
  then show ?case by (auto simp: deliver_inv_def intro: delivered_queues)
next
  case (dl_send s r rest c n1 n2 L err)
  then show ?case by (auto simp: deliver_inv_def intro!: delivered_result delivered_queues)
next
  case (dl_gone s r rest n1 n2 L err)
  then show ?case by (auto simp: deliver_inv_def intro!: delivered_gone delivered_queues)
qed

lemma deliver_inv_init: "start_run c = Inr s0 \<Longrightarrow> deliver_inv (sys_init s0 n, \<lambda>_. [])"
  using srv_typed_start[of c s0] start_run_state[of c s0]
  by (auto simp: deliver_inv_def delivered_def sys_init_def pending_def srv_typed_def start_run_def
      new_EpollServer_def add_to_epoll_def empty_server_def bindE_eq_Inr)

interpretation orderly: step_invariant "deliver_step e"
    "\<lambda>sL. \<exists>c s0 n. start_run c = Inr s0 \<and> sL = (sys_init s0 n, \<lambda>_. [])" deliver_inv for e
  by unfold_locales (auto intro: deliver_inv_init deliver_inv_step)

interpretation projection: simulation "deliver_step e"
    "\<lambda>sL. \<exists>c s0 n. start_run c = Inr s0 \<and> sL = (sys_init s0 n, \<lambda>_. [])" deliver_inv "sys_step e" fst for e
  by unfold_locales (auto dest: deliver_sys_step)

section \<open>What the clients get\<close>

text \<open>C4. Delivery to every client at once: in an orderly run of the server over a time-ordered, nonempty
  file, with queries that neither wrap nor reach the unsafe end of the file, the bytes sent on every
  connection are, from the first, the framed abstract responses to queries that were answered,
  one after the other and never mixed, cut at most inside the last; they are cut nowhere when
  nothing is pending for the descriptor of the connection, and all of them answer queries that came
  from that descriptor.\<close>

theorem server_delivers_responses:
  assumes "start_run c0 = Inr s0" and "(deliver_step e)\<^sup>*\<^sup>* (sys_init s0 n, \<lambda>_. []) (s, L)"
    and "time_sorted (records e)" and "records e \<noteq> []"
    and "\<forall>w \<in> set (received s). no_wrap (work_query w) \<and> covers (end_time_point (work_query w)) e"
  shows "\<exists>ws. subseq ws (answered s)
    \<and> prefix (wire (srv s) c) (concat (map (\<lambda>w. frame (response_spec (records e) (work_query w))) ws))
    \<and> (\<forall>fd. conn (srv s) fd = Some c \<longrightarrow> (\<forall>w \<in> set ws. work_fd w = fd)
        \<and> wire (srv s) c @ pending (srv s) fd
          = concat (map (\<lambda>w. frame (response_spec (records e) (work_query w))) ws))"
proof -
  let ?f = "\<lambda>w. \<lparr>result_fd = work_fd w, result_bytes = response_spec (records e) (work_query w)\<rparr>"
  have inv: "deliver_inv (s, L)" using orderly.reachable_inv[OF assms(2)] assms(1) by blast
  have "sys_reachable e c0 n s"
    using projection.reachable_simulates[OF assms(2)] assms(1) by (auto simp: sys_reachable_def)
  from server_spec[OF this assms(3-5)]
  have "handled s @ results_queue (srv s) = map ?f (answered s)" by blast
  then have "subseq (handled s) (map ?f (answered s))" by (metis prefixI prefix_imp_subseq)
  then have "subseq (L c) (map ?f (answered s))"
    using inv subseq_order.trans by (auto simp: deliver_inv_def)
  then obtain ws where ws: "subseq ws (answered s)" "L c = map ?f ws" by (rule subseq_map_split)
  have frames: "concat (map (frame \<circ> result_bytes) (L c))
      = concat (map (\<lambda>w. frame (response_spec (records e) (work_query w))) ws)"
    by (simp add: ws(2) comp_def)
  have fds: "\<forall>w \<in> set ws. work_fd w = fd" if "\<forall>r \<in> set (L c). result_fd r = fd" for fd
    using that by (simp add: ws(2))
  have del: "delivered (srv s) L" using inv by (simp add: deliver_inv_def)
  then have "prefix (wire (srv s) c) (concat (map (frame \<circ> result_bytes) (L c)))"
    unfolding delivered_def by blast
  moreover have "(\<forall>w \<in> set ws. work_fd w = fd)
      \<and> wire (srv s) c @ pending (srv s) fd = concat (map (frame \<circ> result_bytes) (L c))"
    if "conn (srv s) fd = Some c" for fd
    using delivered_open[OF del that] fds[of fd] by simp
  ultimately show ?thesis
    using ws(1) unfolding frames by (intro exI[of _ ws] conjI allI impI) simp_all
qed

text \<open>One client, one query, and a response of which the kernel takes two bytes at first.\<close>

lemma sample_response_length: "length (response_spec sample_trades sample_query) = 10"
  by (simp add: response_spec_def sample_query_def intervals.simps interval_spec_def metric_list_bits
      minmax_bytes_def Let_def split: prod.splits)

definition sample_sent :: system where
  "sample_sent = sample_answered
     \<lparr>srv := send_result 4 2 EAGAIN sample_response sample_srv1, handled := [sample_response]\<rparr>"

lemma deliver_event:
  assumes "srv s = v" and "dispatch ev c v = Some (Inr t)" and "\<not> crashed s"
    and "send_within (sends c) (ev_fd ev) v" and "fresh_accepts (accepts c) (dom (conn v))"
    and "s' = s\<lparr>srv := t, received := received s @ drop (length (work_queue v)) (work_queue t)\<rparr>"
  shows "deliver_step e (s, L) (s', L)"
  using dl_event[of s ev c t e L] assms by simp

lemma sample_init_srv: "srv (sys_init s n) = s"
  by (simp add: sys_init_def)

lemma sample_sent_steps:
  "(deliver_step sample_engine)\<^sup>*\<^sup>* (sys_init sample_srv0 1, \<lambda>_. [])
     (sample_sent, (\<lambda>_. [])(0 := [sample_response]))"
proof -
  let ?L = "\<lambda>_ :: nat. [] :: ResultItem list"
  have 1: "deliver_step sample_engine (sys_init sample_srv0 1, ?L) (sys_init sample_srv1 1, ?L)"
    by (rule deliver_event[OF sample_init_srv sample_accept])
      (simp_all add: sys_init_def send_within_def sample_srv0_def sample_srv1_def empty_server_def)
  have 2: "deliver_step sample_engine (sys_init sample_srv1 1, ?L) (sample_waiting, ?L)"
    by (rule deliver_event[OF sample_init_srv sample_read])
      (simp_all add: sys_init_def sample_waiting_def send_within_def sample_srv1_def empty_server_def)
  have 3: "deliver_step sample_engine (sample_waiting, ?L) (sample_busy, ?L)"
    by (rule dl_worker[OF sample_takes, where q = "[]" and rq = "[]"])
      (simp_all add: sample_waiting_def sample_busy_def sys_init_def sample_srv1_def empty_server_def)
  have 4: "deliver_step sample_engine (sample_busy, ?L) (sample_answered, ?L)"
    by (rule dl_worker[OF sample_finishes, where q = "[]" and rq = "[sample_response]"])
      (simp_all add: sample_answered_def sample_busy_def sys_init_def sample_srv1_def empty_server_def)
  have "2 \<le> length (result_bytes sample_response)" using sample_response_length by (simp add: sample_response_def)
  then have 5: "deliver_step sample_engine (sample_answered, ?L) (sample_sent, ?L(0 := [sample_response]))"
    using dl_send[of sample_answered sample_response "[]" 0 4 2 sample_engine ?L EAGAIN]
    by (simp add: sample_answered_def sample_sent_def sample_response_def sys_init_def TSQueue_pop_def
        sample_srv1_def empty_server_def)
  show ?thesis using 1 2 3 4 5 by (meson converse_rtranclp_into_rtranclp rtranclp.rtrancl_refl)
qed

theorem server_delivers_responses_witness:
  "\<exists>ws. subseq ws [sample_item] \<and> wire (srv sample_sent) 0 @ pending (srv sample_sent) 7
     = concat (map (\<lambda>w. frame (response_spec sample_trades (work_query w))) ws)"
proof -
  have "received sample_sent = [sample_item]" "answered sample_sent = [sample_item]"
    "conn (srv sample_sent) 7 = Some 0"
    by (simp_all add: sample_sent_def sample_answered_def send_result_unfold Let_def sample_srv1_def)
  with server_delivers_responses[OF sample_start sample_sent_steps, of 0]
  show ?thesis using sample_sorted sample_covers sample_item_ok by (auto simp: sample_trades_def)
qed

end
