(* ===== verification/Pipelined.thy ===== *)
theory Pipelined
  imports Delivery
begin

text \<open>
  Clients that send further queries before the first is answered. The responses on a connection then
  are those to the queries of its client, each at most once, in some order; with one worker they are
  in the order of the queries. Both are instances of one argument, the locale \<open>arrival\<close>, whose
  parameter says how much of the order the workers keep.
\<close>

section \<open>Steps\<close>

text \<open>\<open>Q c\<close> are the queries sent on connection \<open>c\<close> so far, \<open>L c\<close> the results handed to it.\<close>

type_synonym loop_state = "system \<times> (nat \<Rightarrow> TradeDataQuery list) \<times> (nat \<Rightarrow> ResultItem list)"

text \<open>
  A client may send any number of queries at any time. It hangs up only when its queries are answered,
  and a send that fails is the last one its connection was waiting for; otherwise an answer could go
  to the next client with the same descriptor. As in \<open>deliver_step\<close>, no response is sent while
  another is pending for the descriptor.
\<close>

definition query_reads :: "(byte list \<times> TradeDataQuery \<times> byte list) list \<Rightarrow> recv_outcome list" where
  "query_reads qs = map (\<lambda>(pad, q, left). Received (encode_TradeDataQuery pad q) left) qs @ [Recv_failed EAGAIN]"

definition query_items :: "i32 \<Rightarrow> (byte list \<times> TradeDataQuery \<times> byte list) list \<Rightarrow> WorkItem list" where
  "query_items fd qs = map (\<lambda>(pad, q, left). \<lparr>work_fd = fd, work_query = q\<rparr>) qs"

inductive pipe_step :: "Query_engine \<Rightarrow> loop_state \<Rightarrow> loop_state \<Rightarrow> bool" for e where
  pp_accept: "\<not> crashed s \<Longrightarrow> dispatch ev c (srv s) = Some (Inr t) \<Longrightarrow> ev_fd ev = server_listen_fd (srv s) \<Longrightarrow>
    send_within (sends c) (ev_fd ev) (srv s) \<Longrightarrow> fresh_accepts (accepts c) (dom (conn (srv s))) \<Longrightarrow>
    pipe_step e (s, Q, L) (s\<lparr>srv := t\<rparr>, Q, L)"
| pp_query: "\<not> crashed s \<Longrightarrow> fd \<noteq> server_listen_fd (srv s) \<Longrightarrow> conn (srv s) fd = Some k \<Longrightarrow>
    handle_read fd (query_reads qs) (srv s) = Some t \<Longrightarrow>
    pipe_step e (s, Q, L) (s\<lparr>srv := t, received := received s @ query_items fd qs\<rparr>,
      Q(k := Q k @ map (fst \<circ> snd) qs), L)"
| pp_hang_up: "\<not> crashed s \<Longrightarrow> fd \<noteq> server_listen_fd (srv s) \<Longrightarrow> conn (srv s) fd = Some k \<Longrightarrow>
    length (L k) = length (Q k) \<Longrightarrow> out = Closed \<or> out = Recv_failed Other_errno \<Longrightarrow>
    handle_read fd [out] (srv s) = Some t \<Longrightarrow> pipe_step e (s, Q, L) (s\<lparr>srv := t\<rparr>, Q, L)"
| pp_write: "\<not> crashed s \<Longrightarrow> fd \<noteq> server_listen_fd (srv s) \<Longrightarrow> send_within n fd (srv s) \<Longrightarrow>
    0 \<le> n \<or> (\<forall>k. conn (srv s) fd = Some k \<longrightarrow> length (L k) = length (Q k)) \<Longrightarrow>
    pipe_step e (s, Q, L) (s\<lparr>srv := handle_write n fd (srv s)\<rparr>, Q, L)"
| pp_worker: "sys_step e s t \<Longrightarrow> srv t = (srv s)\<lparr>work_queue := q, results_queue := rq\<rparr> \<Longrightarrow>
    received t = received s \<Longrightarrow> handled t = handled s \<Longrightarrow> pipe_step e (s, Q, L) (t, Q, L)"
| pp_result: "\<not> crashed s \<Longrightarrow> TSQueue_pop (results_queue (srv s)) = Some (r, rest) \<Longrightarrow>
    conn (srv s) (result_fd r) = Some k \<Longrightarrow> write_buffers (srv s) (result_fd r) = None \<Longrightarrow>
    n1 < 0 \<or> n1 = 4 \<Longrightarrow> n2 \<le> int (length (result_bytes r)) \<Longrightarrow>
    n1 = 4 \<and> 0 \<le> n2 \<or> length (Q k) = Suc (length (L k)) \<Longrightarrow>
    pipe_step e (s, Q, L) (s\<lparr>srv := send_result n1 n2 err r ((srv s)\<lparr>results_queue := rest\<rparr>),
      handled := handled s @ [r]\<rparr>, Q, L(k := L k @ [r]))"

lemma handle_read_queries:
  "handle_read fd (query_reads qs) s = Some (s\<lparr>work_queue := work_queue s @ query_items fd qs\<rparr>)"
proof (induction qs arbitrary: s)
  case Nil
  then show ?case by (simp add: query_reads_def query_items_def)
next
  case (Cons x qs)
  obtain pad q left where x: "x = (pad, q, left)" by (cases x)
  from Cons[of "s\<lparr>work_queue := work_queue s @ [\<lparr>work_fd = fd, work_query = q\<rparr>]\<rparr>"] show ?case
    by (simp add: x query_reads_def query_items_def received_query_def TSQueue_push_def)
qed

lemma accept_loop_conn:
  assumes "accept_loop outs s = Some (Inr t)" and "fresh_accepts outs (dom (conn s))"
  shows "next_conn s \<le> next_conn t
    \<and> (\<forall>fd. conn t fd = conn s fd \<or> conn s fd = None \<and> (\<exists>c \<ge> next_conn s. conn t fd = Some c))"
  using assms by (rule accept_loop_keeps) (auto simp: le_Suc_eq, metis option.distinct(1))

text \<open>Every step is one of an orderly run.\<close>

lemma pipe_deliver_step:
  "pipe_step e x y \<Longrightarrow> deliver_step e (fst x, snd (snd x)) (fst y, snd (snd y))"
proof (induction rule: pipe_step.induct)
  case (pp_accept s ev c t Q L)
  have "work_queue t = work_queue (srv s)"
    using pp_accept(2,3) accept_loop_effect by (fastforce simp: dispatch_def)
  then show ?case using dl_event[OF pp_accept(1,2,4,5)] by simp
next
  case (pp_query s fd k qs t Q L)
  show ?case
    by (simp, rule deliver_event[OF refl, of "\<lparr>ev_fd = fd, ev_events = EPOLLIN\<rparr>"
          "\<lparr>accepts = [], recvs = query_reads qs, sends = 0\<rparr>"])
      (use pp_query in \<open>auto simp: dispatch_def EPOLLIN_def send_within_def handle_read_queries
        split: option.split\<close>)
next
  case (pp_hang_up s fd k L Q out t)
  show ?case
    by (simp, rule deliver_event[OF refl, of "\<lparr>ev_fd = fd, ev_events = EPOLLIN\<rparr>"
          "\<lparr>accepts = [], recvs = [out], sends = 0\<rparr>"])
      (use pp_hang_up in \<open>auto simp: dispatch_def EPOLLIN_def send_within_def split: option.split\<close>)
next
  case (pp_write s fd n L Q)
  then show ?case
    using dl_event[of s "\<lparr>ev_fd = fd, ev_events = EPOLLOUT\<rparr>" "\<lparr>accepts = [], recvs = [], sends = n\<rparr>"
        "handle_write n fd (srv s)" e L]
    by (simp add: dispatch_def EPOLLIN_def EPOLLOUT_def)
next
  case (pp_worker s t q rq Q L)
  then show ?case using dl_worker[OF pp_worker(1,2,4)] by simp
next
  case (pp_result s r rest k n1 n2 Q L err)
  then show ?case unfolding fst_conv snd_conv by (intro dl_send)
qed

lemma start_run_conn: "start_run c = Inr s0 \<Longrightarrow> conn s0 = (\<lambda>_. None)"
  by (auto simp: start_run_def new_EpollServer_def add_to_epoll_def empty_server_def bindE_eq_Inr)

section \<open>Jobs\<close>

text \<open>
  What is on the way for each descriptor, in the order in which one worker would deliver it: a query
  that waits or is being answered counts as the result it will get.
\<close>

type_synonym job = "i32 \<times> ResultItem run"

definition due :: "Query_engine \<Rightarrow> i32 \<Rightarrow> TradeDataQuery \<Rightarrow> job" where
  "due e fd q = (fd, worker_process e \<lparr>work_fd = fd, work_query = q\<rparr>)"

definition made :: "ResultItem \<Rightarrow> job" where
  "made r = (result_fd r, Some (Inr r))"

definition jobs_list :: "Query_engine \<Rightarrow> system \<Rightarrow> i32 \<Rightarrow> job list" where
  "jobs_list e s fd = filter (\<lambda>j. fst j = fd) (map made (results_queue (srv s))
     @ map (\<lambda>w. (work_fd w, worker_process e w)) (busy_items (workers s) @ work_queue (srv s)))"

lemma worker_process_fd: "worker_process e w = Some (Inr r) \<Longrightarrow> result_fd r = work_fd w"
  by (auto simp: worker_process_def bindR_eq_Inr Let_def)

lemma jobs_cong:
  "work_queue (srv t) = work_queue (srv s) \<Longrightarrow> results_queue (srv t) = results_queue (srv s) \<Longrightarrow>
    workers t = workers s \<Longrightarrow> jobs_list e t fd = jobs_list e s fd"
  by (simp add: jobs_list_def)

lemma jobs_query:
  "srv t = (srv s)\<lparr>work_queue := work_queue (srv s) @ query_items fd qs\<rparr> \<Longrightarrow> workers t = workers s \<Longrightarrow>
    jobs_list e t fd' = jobs_list e s fd' @ (if fd' = fd then map (due e fd \<circ> fst \<circ> snd) qs else [])"
  by (induction qs arbitrary: s t)
    (auto simp: jobs_list_def query_items_def due_def comp_def case_prod_unfold filter_empty_conv)

lemma jobs_result:
  "results_queue (srv s) = r # rest \<Longrightarrow> work_queue (srv t) = work_queue (srv s) \<Longrightarrow>
    results_queue (srv t) = rest \<Longrightarrow> workers t = workers s \<Longrightarrow>
    jobs_list e s fd = (if fd = result_fd r then [made r] else []) @ jobs_list e t fd"
  by (simp add: jobs_list_def made_def)

text \<open>
  A step of a worker changes nothing but the order; the end of an answer moves it behind the results
  that wait, which is no change when there is only one worker.
\<close>

lemma worker_step_cases:
  assumes "sys_step e s t" and "received t = received s" and "handled t = handled s"
  obtains (same) "work_queue (srv t) = work_queue (srv s)" "results_queue (srv t) = results_queue (srv s)"
      "workers t = workers s"
  | (take) i w rest where "worker_at s i Free" "work_queue (srv s) = w # rest" "work_queue (srv t) = rest"
      "results_queue (srv t) = results_queue (srv s)" "workers t = (workers s)[i := Busy w]"
  | (finish) i w r where "worker_at s i (Busy w)" "worker_process e w = Some (Inr r)"
      "work_queue (srv t) = work_queue (srv s)" "results_queue (srv t) = results_queue (srv s) @ [r]"
      "workers t = (workers s)[i := Free]"
  using assms(1)
proof (elim sys_stepE)
  fix a assume "sys_act e a s t"
  then show thesis
  proof (cases rule: sys_act.cases)
    case (act_event ev c u)
    obtain qs where "work_queue u = work_queue (srv s) @ qs" "results_queue u = results_queue (srv s)"
      using dispatch_effect[OF act_event(4)] by blast
    then show ?thesis using assms(2) act_event(2) by (intro that(1)) simp_all
  next
    case (act_take i w rest)
    then show ?thesis by (intro that(2)) (simp_all add: pop_Some_iff)
  next
    case (act_finish i w r)
    then show ?thesis by (intro that(3)) (simp_all add: TSQueue_push_def)
  qed (use assms in \<open>auto intro!: that(1)\<close>)
qed

lemma jobs_worker_mset:
  assumes "sys_step e s t" and "received t = received s" and "handled t = handled s"
  shows "mset (jobs_list e t fd) = mset (jobs_list e s fd)"
  using assms
proof (cases rule: worker_step_cases)
  case same
  then show ?thesis by (simp add: jobs_list_def)
next
  case (take i w rest)
  then show ?thesis using busy_update[OF take(1), of "Busy w"] by (simp add: jobs_list_def)
next
  case (finish i w r)
  have "mset (busy_items (workers s)) = add_mset w (mset (busy_items ((workers s)[i := Free])))"
    using busy_update[OF finish(1), of Free] by simp
  then show ?thesis
    using finish worker_process_fd[OF finish(2)] by (simp add: jobs_list_def made_def)
qed

lemma jobs_worker_one:
  assumes "sys_step e s t" and "received t = received s" and "handled t = handled s"
    and "length (workers s) = 1"
  shows "jobs_list e t fd = jobs_list e s fd"
  using assms(1-3)
proof (cases rule: worker_step_cases)
  case same
  then show ?thesis by (simp add: jobs_list_def)
next
  case (take i w rest)
  obtain v where v: "workers s = [v]" using assms(4) by (auto simp: length_Suc_conv)
  then show ?thesis using take by (auto simp: jobs_list_def worker_at_def)
next
  case (finish i w r)
  obtain v where v: "workers s = [v]" using assms(4) by (auto simp: length_Suc_conv)
  then show ?thesis
    using finish worker_process_fd[OF finish(2)] by (auto simp: jobs_list_def worker_at_def made_def)
qed

section \<open>Arrival of the answers\<close>

text \<open>
  \<open>rel\<close> relates the jobs of a descriptor in the order they will arrive to those in the order of the
  queries, and is kept by the workers in the systems \<open>ok\<close>.
\<close>

locale arrival =
  fixes e :: Query_engine and ok :: "system \<Rightarrow> bool" and rel :: "job list \<Rightarrow> job list \<Rightarrow> bool"
  assumes rel_refl: "rel xs xs"
    and rel_trans: "rel xs ys \<Longrightarrow> rel ys zs \<Longrightarrow> rel xs zs"
    and rel_append: "rel xs ys \<Longrightarrow> rel (us @ xs @ vs) (us @ ys @ vs)"
    and rel_mset: "rel xs ys \<Longrightarrow> mset xs = mset ys"
    and worker_rel: "sys_step e s t \<Longrightarrow> ok s \<Longrightarrow> received t = received s \<Longrightarrow> handled t = handled s \<Longrightarrow>
      rel (jobs_list e t fd) (jobs_list e s fd)"
    and ok_workers: "length (workers t) = length (workers s) \<Longrightarrow> ok s \<Longrightarrow> ok t"
begin

text \<open>
  What was handed to an open connection, followed by what is on the way for its descriptor, are the
  answers to its queries; the same holds of a closed one with jobs that are gone.
\<close>

definition inv :: "loop_state \<Rightarrow> bool" where
  "inv = (\<lambda>(s, Q, L). deliver_inv (s, L) \<and> ok s
     \<and> (\<forall>fd. conn (srv s) fd = None \<longrightarrow> jobs_list e s fd = [])
     \<and> (\<forall>fd k. conn (srv s) fd = Some k \<longrightarrow> rel (map made (L k) @ jobs_list e s fd) (map (due e fd) (Q k)))
     \<and> (\<forall>k. next_conn (srv s) \<le> k \<longrightarrow> Q k = [])
     \<and> (\<forall>k. \<exists>fd js. rel (map made (L k) @ js) (map (due e fd) (Q k))))"

lemma invD:
  assumes "inv (s, Q, L)"
  shows "delivered (srv s) L" and "ok s" and "conn (srv s) fd = None \<Longrightarrow> jobs_list e s fd = []"
    and "conn (srv s) fd = Some k \<Longrightarrow> rel (map made (L k) @ jobs_list e s fd) (map (due e fd) (Q k))"
    and "next_conn (srv s) \<le> k \<Longrightarrow> Q k = []" and "next_conn (srv s) \<le> k \<Longrightarrow> L k = []"
    and "\<exists>fd js. rel (map made (L k) @ js) (map (due e fd) (Q k))"
  using assms by (auto simp: inv_def deliver_inv_def delivered_def)

text \<open>It is enough to look at the open descriptors, when a connection that closes changes nothing.\<close>

lemma inv_step:
  assumes "pipe_step e x (t, Q', L')" and "inv (s, Q, L)" and "x = (s, Q, L)"
    and "length (workers t) = length (workers s)"
    and "\<And>fd. conn (srv t) fd = None \<Longrightarrow> jobs_list e t fd = []"
    and "\<And>fd k. conn (srv t) fd = Some k \<Longrightarrow> rel (map made (L' k) @ jobs_list e t fd) (map (due e fd) (Q' k))"
    and "\<And>k. next_conn (srv t) \<le> k \<Longrightarrow> Q' k = []"
    and "\<And>k. k \<notin> ran (conn (srv t)) \<Longrightarrow> \<exists>fd js. rel (map made (L' k) @ js) (map (due e fd) (Q' k))"
  shows "inv (t, Q', L')"
proof -
  have "deliver_inv (t, L')"
    using deliver_inv_step[OF pipe_deliver_step[OF assms(1)]] assms(2,3) by (simp add: inv_def)
  moreover have "ok t" using ok_workers assms(2,4) by (simp add: inv_def)
  moreover have "\<exists>fd js. rel (map made (L' k) @ js) (map (due e fd) (Q' k))" for k
    using assms(6,8) by (cases "k \<in> ran (conn (srv t))") (auto simp: ran_def)
  ultimately show ?thesis using assms(5-7) by (simp add: inv_def)
qed

text \<open>As many results as queries: nothing is on the way.\<close>

lemma rel_length: "rel xs ys \<Longrightarrow> length xs = length ys"
  using rel_mset mset_eq_length by blast

lemma all_answered:
  "inv (s, Q, L) \<Longrightarrow> conn (srv s) fd = Some k \<Longrightarrow> length (L k) = length (Q k) \<Longrightarrow> jobs_list e s fd = []"
  using invD(4) rel_length by fastforce

lemma inv_accept:
  assumes "pipe_step e (s, Q, L) (s\<lparr>srv := t\<rparr>, Q, L)" and "inv (s, Q, L)"
    and "accept_loop outs (srv s) = Some (Inr t)" and "fresh_accepts outs (dom (conn (srv s)))"
  shows "inv (s\<lparr>srv := t\<rparr>, Q, L)"
proof (rule inv_step[OF assms(1,2) refl])
  have c: "next_conn (srv s) \<le> next_conn t"
    "\<And>fd. conn t fd = conn (srv s) fd \<or> conn (srv s) fd = None \<and> (\<exists>c \<ge> next_conn (srv s). conn t fd = Some c)"
    using accept_loop_conn[OF assms(3,4)] by blast+
  have j: "jobs_list e (s\<lparr>srv := t\<rparr>) fd = jobs_list e s fd" for fd
    using accept_loop_effect[OF assms(3)] by (intro jobs_cong) simp_all
  show "jobs_list e (s\<lparr>srv := t\<rparr>) fd = []" if "conn (srv (s\<lparr>srv := t\<rparr>)) fd = None" for fd
    using c(2)[of fd] that invD(3)[OF assms(2)] by (auto simp: j)
  show "rel (map made (L k) @ jobs_list e (s\<lparr>srv := t\<rparr>) fd) (map (due e fd) (Q k))"
    if "conn (srv (s\<lparr>srv := t\<rparr>)) fd = Some k" for fd k
  proof (cases "conn (srv s) fd")
    case None
    then have "next_conn (srv s) \<le> k" using c(2)[of fd] that by auto
    then show ?thesis using invD(3)[OF assms(2) None] invD(5,6)[OF assms(2)] by (simp add: j rel_refl)
  next
    case (Some k')
    then show ?thesis using invD(4)[OF assms(2)] c(2)[of fd] that by (simp add: j)
  qed
  show "Q k = []" if "next_conn (srv (s\<lparr>srv := t\<rparr>)) \<le> k" for k
    using that c(1) invD(5)[OF assms(2)] by simp
qed (use invD(7)[OF assms(2)] in simp_all)

lemma inv_query:
  assumes "pipe_step e (s, Q, L) (t, Q(k := Q k @ map (fst \<circ> snd) qs), L)" and "inv (s, Q, L)"
    and "conn (srv s) fd = Some k"
    and "srv t = (srv s)\<lparr>work_queue := work_queue (srv s) @ query_items fd qs\<rparr>" and "workers t = workers s"
  shows "inv (t, Q(k := Q k @ map (fst \<circ> snd) qs), L)"
proof (rule inv_step[OF assms(1,2) refl])
  have ty: "srv_typed (srv s)" using invD(1)[OF assms(2)] by (simp add: delivered_def)
  then have k: "k < next_conn (srv s)" "\<And>fd'. conn (srv s) fd' = Some k \<Longrightarrow> fd' = fd"
    using assms(3) by (auto simp: srv_typed_def)
  note j = jobs_query[OF assms(4,5), of e]
  show "jobs_list e t fd' = []" if "conn (srv t) fd' = None" for fd'
    using that assms(3,4) invD(3)[OF assms(2)] by (auto simp: j)
  show "rel (map made (L k') @ jobs_list e t fd') (map (due e fd') ((Q(k := Q k @ map (fst \<circ> snd) qs)) k'))"
    if "conn (srv t) fd' = Some k'" for fd' k'
  proof -
    have s: "conn (srv s) fd' = Some k'" using that assms(4) by simp
    show ?thesis
    proof (cases "k' = k")
      case True
      then show ?thesis
        using rel_append[OF invD(4)[OF assms(2) s], of "[]" "map (due e fd) (map (fst \<circ> snd) qs)"] k(2) s
        by (simp add: j comp_assoc)
    next
      case False
      then have "fd' \<noteq> fd" using s assms(3) by auto
      then show ?thesis using False invD(4)[OF assms(2) s] by (simp add: j)
    qed
  qed
  show "(Q(k := Q k @ map (fst \<circ> snd) qs)) k' = []" if "next_conn (srv t) \<le> k'" for k'
    using that k(1) assms(4) invD(5)[OF assms(2)] by simp
  show "\<exists>fd js. rel (map made (L k') @ js) (map (due e fd) ((Q(k := Q k @ map (fst \<circ> snd) qs)) k'))"
    if "k' \<notin> ran (conn (srv t))" for k'
    using that assms(3,4) invD(7)[OF assms(2)] by (auto simp: ran_def)
qed (simp add: assms(5))

text \<open>A step that at most closes a connection with nothing on the way.\<close>

lemma inv_close:
  assumes "pipe_step e (s, Q, L) (t, Q, L)" and "inv (s, Q, L)"
    and "conn (srv t) = conn (srv s) \<or> conn (srv t) = (conn (srv s))(fd := None)
      \<and> (\<forall>k. conn (srv s) fd = Some k \<longrightarrow> length (L k) = length (Q k))"
    and "next_conn (srv t) = next_conn (srv s)"
    and "work_queue (srv t) = work_queue (srv s)" "results_queue (srv t) = results_queue (srv s)"
    and "workers t = workers s"
  shows "inv (t, Q, L)"
proof (rule inv_step[OF assms(1,2) refl])
  note j = jobs_cong[OF assms(5-7), of e]
  show "jobs_list e t fd' = []" if "conn (srv t) fd' = None" for fd'
    using that assms(3) invD(3)[OF assms(2)] all_answered[OF assms(2)]
    by (cases "conn (srv s) fd'") (auto simp: j split: if_splits)
  show "rel (map made (L k') @ jobs_list e t fd') (map (due e fd') (Q k'))"
    if "conn (srv t) fd' = Some k'" for fd' k'
    using that assms(3) invD(4)[OF assms(2)] by (auto simp: j split: if_splits)
qed (use assms(4,7) invD(5,7)[OF assms(2)] in simp_all)

lemma inv_worker:
  assumes "pipe_step e (s, Q, L) (t, Q, L)" and "inv (s, Q, L)" and "sys_step e s t"
    and "srv t = (srv s)\<lparr>work_queue := q, results_queue := rq\<rparr>" and "received t = received s"
    and "handled t = handled s"
  shows "inv (t, Q, L)"
proof (rule inv_step[OF assms(1,2) refl])
  have r: "rel (jobs_list e t fd) (jobs_list e s fd)" for fd
    using worker_rel[OF assms(3) invD(2)[OF assms(2)] assms(5,6)] .
  show "jobs_list e t fd = []" if "conn (srv t) fd = None" for fd
    using that assms(4) invD(3)[OF assms(2), of fd] rel_length[OF r, of fd] by simp
  show "rel (map made (L k) @ jobs_list e t fd) (map (due e fd) (Q k))" if "conn (srv t) fd = Some k" for fd k
    using rel_trans[OF rel_append[OF r, of "map made (L k)" _ "[]", simplified]] that assms(4)
      invD(4)[OF assms(2)] by simp
qed (use assms(3,4) invD(5,7)[OF assms(2)] in \<open>auto elim!: sys_stepE elim: sys_actE\<close>)

lemma inv_result:
  assumes "pipe_step e (s, Q, L) (t, Q, L(k := L k @ [r]))" and "inv (s, Q, L)"
    and "results_queue (srv s) = r # rest" and "conn (srv s) (result_fd r) = Some k"
    and "n1 = 4 \<and> 0 \<le> n2 \<or> length (Q k) = Suc (length (L k))"
    and "srv t = send_result n1 n2 err r ((srv s)\<lparr>results_queue := rest\<rparr>)" and "workers t = workers s"
  shows "inv (t, Q, L(k := L k @ [r]))"
proof (rule inv_step[OF assms(1,2) refl])
  let ?fd = "result_fd r"
  have ty: "srv_typed (srv s)" using invD(1)[OF assms(2)] by (simp add: delivered_def)
  then have k: "k < next_conn (srv s)" "\<And>fd. conn (srv s) fd = Some k \<Longrightarrow> fd = ?fd"
    using assms(4) by (auto simp: srv_typed_def)
  have j: "jobs_list e s fd = (if fd = ?fd then [made r] else []) @ jobs_list e t fd" for fd
    by (rule jobs_result[OF assms(3)]) (simp_all add: assms(6,7))
  have rk: "rel (map made (L k @ [r]) @ jobs_list e t ?fd) (map (due e ?fd) (Q k))"
    using invD(4)[OF assms(2,4)] by (simp add: j)
  have last: "jobs_list e t ?fd = []" if "conn (srv t) \<noteq> conn (srv s)"
  proof -
    have "length (Q k) = Suc (length (L k))"
      using that assms(5) by (auto simp: assms(6) send_result_unfold Let_def)
    then show ?thesis using rel_length[OF rk] by simp
  qed
  have c: "conn (srv t) = conn (srv s) \<or> conn (srv t) = (conn (srv s))(?fd := None)"
    by (simp add: assms(6) send_result_unfold Let_def)
  show "jobs_list e t fd = []" if "conn (srv t) fd = None" for fd
  proof (cases "fd = ?fd")
    case True
    then have "conn (srv t) \<noteq> conn (srv s)" using that assms(4) by force
    then show ?thesis using last True by simp
  next
    case False
    then show ?thesis using that c invD(3)[OF assms(2), of fd] j[of fd] by auto
  qed
  show "rel (map made ((L(k := L k @ [r])) k') @ jobs_list e t fd) (map (due e fd) (Q k'))"
    if "conn (srv t) fd = Some k'" for fd k'
  proof -
    have s: "conn (srv s) fd = Some k'" using that c by (auto split: if_splits)
    show ?thesis
    proof (cases "k' = k")
      case True
      then show ?thesis using rk k(2) s by simp
    next
      case False
      then have "fd \<noteq> ?fd" using s assms(4) by auto
      then show ?thesis using False invD(4)[OF assms(2) s] by (simp add: j)
    qed
  qed
  show "Q k' = []" if "next_conn (srv t) \<le> k'" for k'
    using that invD(5)[OF assms(2)] by (simp add: assms(6) send_result_unfold Let_def split: if_splits)
  show "\<exists>fd js. rel (map made ((L(k := L k @ [r])) k') @ js) (map (due e fd) (Q k'))"
    if "k' \<notin> ran (conn (srv t))" for k'
    using rk invD(7)[OF assms(2)] by (cases "k' = k") auto
qed (simp add: assms(7))

lemma inv_pipe_step: "pipe_step e x y \<Longrightarrow> inv x \<Longrightarrow> inv y"
proof -
  assume step: "pipe_step e x y" and inv: "inv x"
  from step show "inv y"
  proof (cases rule: pipe_step.cases)
    case (pp_accept s ev c t Q L)
    have "accept_loop (accepts c) (srv s) = Some (Inr t)" using pp_accept(4,5) by (simp add: dispatch_def)
    then show ?thesis using inv_accept step inv pp_accept by blast
  next
    case (pp_query s fd k qs t Q L)
    have "t = (srv s)\<lparr>work_queue := work_queue (srv s) @ query_items fd qs\<rparr>"
      using pp_query(6) handle_read_queries[of fd qs "srv s"] by simp
    then show ?thesis using inv_query[of s Q L _ k qs fd] step inv pp_query(1,2,5) by simp
  next
    case (pp_hang_up s fd k L Q out t)
    have "t = erase_buffer fd (close_fd fd (srv s))" using pp_hang_up(7,8) by auto
    then show ?thesis using inv_close[of s Q L _ fd] step inv pp_hang_up by simp
  next
    case (pp_write s fd n L Q)
    have "conn (handle_write n fd (srv s)) = conn (srv s)
        \<or> n < 0 \<and> conn (handle_write n fd (srv s)) = (conn (srv s))(fd := None)"
      by (auto simp: handle_write_def Let_def split: option.split)
    moreover have "next_conn (handle_write n fd (srv s)) = next_conn (srv s)"
      by (simp add: handle_write_def Let_def split: option.split)
    ultimately show ?thesis using inv_close[of s Q L _ fd] step inv pp_write by auto
  next
    case (pp_worker s t q rq Q L)
    then show ?thesis using inv_worker[of s Q L t q rq] step inv by simp
  next
    case (pp_result s r rest k n1 n2 Q L err)
    have "results_queue (srv s) = r # rest" using pp_result(4) by (simp add: pop_Some_iff)
    then show ?thesis using inv_result[of s Q L _ k r rest n1 n2 err] step inv pp_result by simp
  qed
qed

lemma inv_init: "start_run c = Inr s0 \<Longrightarrow> ok (sys_init s0 n) \<Longrightarrow> inv (sys_init s0 n, \<lambda>_. [], \<lambda>_. [])"
  using deliver_inv_init[of c s0 n] start_run_state[of c s0] start_run_conn[of c s0]
  by (auto simp: inv_def jobs_list_def sys_init_def busy_items_init intro: rel_refl)

lemma inv_steps:
  assumes "(pipe_step e)\<^sup>*\<^sup>* x y" and "inv x"
  shows "inv y"
  using assms by (induction rule: rtranclp_induct) (auto intro: inv_pipe_step)

lemma reachable_rel:
  assumes "start_run c0 = Inr s0" and "ok (sys_init s0 n)"
    and "(pipe_step e)\<^sup>*\<^sup>* (sys_init s0 n, \<lambda>_. [], \<lambda>_. []) (s, Q, L)"
  shows "delivered (srv s) L" and "\<exists>fd js. rel (map made (L c) @ js) (map (due e fd) (Q c))"
    and "conn (srv s) fd = Some c \<Longrightarrow> rel (map made (L c) @ jobs_list e s fd) (map (due e fd) (Q c))"
  using invD[OF inv_steps[OF assms(3) inv_init[OF assms(1,2)]]] by blast+

end

text \<open>Any number of workers: the same answers, in some order. One worker: the same order.\<close>

interpretation any_order: arrival e "\<lambda>_. True" "\<lambda>xs ys. mset xs = mset ys" for e
  by unfold_locales (auto intro: jobs_worker_mset)

interpretation query_order: arrival e "\<lambda>s. length (workers s) = 1" "(=)" for e
  by unfold_locales (auto intro: jobs_worker_one)

interpretation pipelined: simulation "pipe_step e"
    "\<lambda>x. \<exists>c s0 n. start_run c = Inr s0 \<and> x = (sys_init s0 n, \<lambda>_. [], \<lambda>_. [])" "\<lambda>_. True" "sys_step e" fst for e
  using deliver_sys_step pipe_deliver_step by unfold_locales fastforce+

section \<open>What pipelined clients get\<close>

lemma concat_take_prefix: "prefix (concat (map f (take n xs))) (concat (map f xs))"
  by (metis append_take_drop_id concat_append map_append prefixI)

text \<open>The bytes of a job that ends with a result.\<close>

definition job_bytes :: "job \<Rightarrow> byte list" where
  "job_bytes j = (case snd j of Some (Inr r) \<Rightarrow> result_bytes r | _ \<Rightarrow> [])"

lemma map_job_bytes_made: "map (job_bytes \<circ> made) rs = map result_bytes rs"
  by (simp add: job_bytes_def made_def)

lemma map_job_bytes_due:
  assumes "time_sorted (records e)" and "records e \<noteq> []"
    and "\<forall>q \<in> set qs. no_wrap q \<and> covers (end_time_point q) e"
  shows "map (job_bytes \<circ> due e fd) qs = map (response_spec (records e)) qs"
proof (rule map_cong[OF refl])
  fix q assume "q \<in> set qs"
  then show "(job_bytes \<circ> due e fd) q = response_spec (records e) q"
    using worker_spec[of "\<lparr>work_fd = fd, work_query = q\<rparr>" e] assms by (simp add: job_bytes_def due_def)
qed

lemma jobs_list_idle: "pending_work s = 0 \<Longrightarrow> jobs_list e s fd = []"
  by (simp add: pending_work_def jobs_list_def)

lemma delivered_wire:
  assumes "delivered s L"
  shows "prefix (wire s c) (concat (map frame (map result_bytes (L c))))"
    and "conn s fd = Some c \<Longrightarrow> wire s c @ pending s fd = concat (map frame (map result_bytes (L c)))"
  using assms unfolding delivered_def map_map by blast+

text \<open>C19. Clients that do not wait, in runs of \<open>pipe_step\<close>, that is, when every
  read of the server ends between two queries, a client hangs up only when all its queries are answered,
  the kernel hands out descriptors that are not open, the 4 bytes of a length are sent whole or not at
  all, a send fails only for the last answer its connection waits for, and (which the code does not
  ensure) a result is sent only when no earlier one is pending for its descriptor. With any
  number of workers and clients that send any number of queries at any time, over a time-ordered,
  nonempty file, if the queries on a connection neither wrap nor reach the unsafe end of the file, the
  bytes on that connection are, from the first, framed abstract responses to queries of that connection,
  none answered more often than it was asked, cut at most inside the last one; while the connection is
  open they are cut only by what is pending for it, and when the server has nothing left to do every
  query is among the answered ones.\<close>

theorem pipelined_answers:
  assumes "start_run c0 = Inr s0" and "(pipe_step e)\<^sup>*\<^sup>* (sys_init s0 n, \<lambda>_. [], \<lambda>_. []) (s, Q, L)"
    and "time_sorted (records e)" and "records e \<noteq> []"
    and "\<forall>q \<in> set (Q c). no_wrap q \<and> covers (end_time_point q) e"
  shows "\<exists>bs. mset bs \<subseteq># mset (map (response_spec (records e)) (Q c))
    \<and> prefix (wire (srv s) c) (concat (map frame bs))
    \<and> (\<forall>fd. conn (srv s) fd = Some c \<longrightarrow> wire (srv s) c @ pending (srv s) fd = concat (map frame bs)
        \<and> (pending_work s = 0 \<longrightarrow> mset bs = mset (map (response_spec (records e)) (Q c))))"
proof -
  note reach = any_order.reachable_rel[OF assms(1) TrueI assms(2)]
  have bytes: "mset (map result_bytes (L c) @ map job_bytes js) = mset (map (response_spec (records e)) (Q c))"
    if "mset (map made (L c) @ js) = mset (map (due e fd) (Q c))" for fd js
    using arg_cong[OF that, of "image_mset job_bytes"] map_job_bytes_due[OF assms(3-5), of fd]
      map_job_bytes_made[of "L c"] by (simp flip: mset_map add: map_map)
  from reach(2)[of c] bytes have "mset (map result_bytes (L c)) \<subseteq># mset (map (response_spec (records e)) (Q c))"
    by (metis mset_append mset_subset_eq_add_left)
  moreover have "mset (map result_bytes (L c)) = mset (map (response_spec (records e)) (Q c))"
    if "conn (srv s) fd = Some c" "pending_work s = 0" for fd
    using bytes[OF reach(3)[OF that(1)]] jobs_list_idle[OF that(2)] by simp
  ultimately show ?thesis using delivered_wire[OF reach(1)] by blast
qed

text \<open>C20. One worker keeps the order for clients that do not wait, in runs of \<open>pipe_step\<close>, that is, when every
  read of the server ends between two queries, a client hangs up only when all its queries are answered,
  the kernel hands out descriptors that are not open, the 4 bytes of a length are sent whole or not at
  all, a send fails only for the last answer its connection waits for, and (which the code does not
  ensure) a result is sent only when no earlier one is pending for its descriptor. Over a
  time-ordered, nonempty file, if the queries on a connection neither wrap nor reach the unsafe end of
  the file, what is on the connection is a prefix of the framed abstract responses to the queries sent
  on it, in the order they were sent; while the connection is open it is cut only by what is pending for
  it, and nothing is missing when the server has nothing left to do.\<close>

theorem one_worker_in_order:
  assumes "start_run c0 = Inr s0" and "(pipe_step e)\<^sup>*\<^sup>* (sys_init s0 1, \<lambda>_. [], \<lambda>_. []) (s, Q, L)"
    and "time_sorted (records e)" and "records e \<noteq> []"
    and "\<forall>q \<in> set (Q c). no_wrap q \<and> covers (end_time_point q) e"
  shows "prefix (wire (srv s) c) (concat (map (frame \<circ> response_spec (records e)) (Q c)))
    \<and> (\<forall>fd. conn (srv s) fd = Some c \<longrightarrow> wire (srv s) c @ pending (srv s) fd
          = concat (map (frame \<circ> response_spec (records e)) (take (length (L c)) (Q c)))
        \<and> (pending_work s = 0 \<longrightarrow> length (L c) = length (Q c)))"
proof -
  have "length (workers (sys_init s0 1)) = 1" by (simp add: sys_init_def)
  note reach = query_order.reachable_rel[OF assms(1) this assms(2)]
  have bytes: "map result_bytes (L c) @ map job_bytes js = map (response_spec (records e)) (Q c)"
    if "map made (L c) @ js = map (due e fd) (Q c)" for fd js
    using arg_cong[OF that, of "map job_bytes"] map_job_bytes_due[OF assms(3-5), of fd]
      map_job_bytes_made[of "L c"] by simp
  from reach(2)[of c] obtain fd' js where js: "map made (L c) @ js = map (due e fd') (Q c)" by blast
  have "map result_bytes (L c) = map (response_spec (records e)) (take (length (L c)) (Q c))"
    using arg_cong[OF bytes[OF js], of "take (length (L c))"] by (simp add: take_map)
  then have part: "map frame (map result_bytes (L c)) = map (frame \<circ> response_spec (records e)) (take (length (L c)) (Q c))"
    by simp
  have "length (L c) = length (Q c)" if "conn (srv s) fd = Some c" "pending_work s = 0" for fd
    using arg_cong[OF reach(3)[OF that(1)], of length] jobs_list_idle[OF that(2)] by simp
  then show ?thesis
    using delivered_wire(1)[OF reach(1), of c] delivered_wire(2)[OF reach(1), where c = c]
      concat_take_prefix prefix_order.trans unfolding part by blast
qed

section \<open>Two queries at once\<close>

text \<open>A client sends two queries in one write; with two workers the second is answered first.\<close>

abbreviation sample_asks :: "nat \<Rightarrow> TradeDataQuery list" where
  "sample_asks \<equiv> (\<lambda>_. [])(0 := [sample_query, sample_query\<lparr>resolution := 10\<rparr>])"

definition sample_asked :: "nat \<Rightarrow> system" where
  "sample_asked n = (sys_init (sample_srv1\<lparr>work_queue := [sample_item, sample_item2]\<rparr>) n)
     \<lparr>received := [sample_item, sample_item2]\<rparr>"

lemma sample_asked_steps:
  "(pipe_step sample_engine)\<^sup>*\<^sup>* (sys_init sample_srv0 n, \<lambda>_. [], \<lambda>_. []) (sample_asked n, sample_asks, \<lambda>_. [])"
proof -
  let ?L = "\<lambda>_ :: nat. [] :: ResultItem list" and ?N = "\<lambda>_ :: nat. [] :: TradeDataQuery list"
  have 1: "pipe_step sample_engine (sys_init sample_srv0 n, ?N, ?L) (sys_init sample_srv1 n, ?N, ?L)"
    using pp_accept[of "sys_init sample_srv0 n", unfolded sample_init_srv, OF _ sample_accept]
    by (simp add: sys_init_def send_within_def sample_srv0_def sample_srv1_def empty_server_def)
  have 2: "pipe_step sample_engine (sys_init sample_srv1 n, ?N, ?L) (sample_asked n, sample_asks, ?L)"
    using pp_query[of "sys_init sample_srv1 n" 7 0 "[([], sample_query, []), ([], sample_query\<lparr>resolution := 10\<rparr>, [])]"
        "sample_srv1\<lparr>work_queue := [sample_item, sample_item2]\<rparr>" sample_engine ?N ?L]
    by (simp add: handle_read_queries)
      (simp add: sys_init_def query_items_def sample_asked_def sample_srv1_def empty_server_def
        sample_item_def sample_item2_def)
  show ?thesis using 1 2 by (meson converse_rtranclp_into_rtranclp rtranclp.rtrancl_refl)
qed

definition sample_first :: system where
  "sample_first = sent_whole sample_response [] ((sample_asked 1)
     \<lparr>srv := sample_srv1\<lparr>work_queue := [sample_item2], results_queue := [sample_response]\<rparr>,
       answered := [sample_item], produced := [sample_response]\<rparr>)"

text \<open>A worker takes the query in front and finishes it, and the result is sent whole.\<close>

lemma pipe_take:
  assumes "\<not> crashed s" and "worker_at s i Free" and "work_queue (srv s) = w # rest"
  shows "pipe_step e (s, Q, L) (s\<lparr>srv := (srv s)\<lparr>work_queue := rest\<rparr>, workers := (workers s)[i := Busy w]\<rparr>, Q, L)"
  by (rule pp_worker[OF sys_take[OF assms(1,2)], where q = rest and rq = "results_queue (srv s)"])
    (simp_all add: assms(3) pop_Some_iff)

lemma pipe_finish:
  assumes "\<not> crashed s" and "worker_at s i (Busy w)" and "worker_process e w = Some (Inr r)"
  shows "pipe_step e (s, Q, L) (s\<lparr>srv := (srv s)\<lparr>results_queue := results_queue (srv s) @ [r]\<rparr>,
      workers := (workers s)[i := Free], answered := answered s @ [w], produced := produced s @ [r]\<rparr>, Q, L)"
  by (rule pp_worker[where q = "work_queue (srv s)" and rq = "results_queue (srv s) @ [r]"])
    (use sys_finish[OF assms] in \<open>simp_all add: TSQueue_push_def\<close>)

lemma pipe_send:
  assumes "\<not> crashed s" and "results_queue (srv s) = r # rest" and "conn (srv s) (result_fd r) = Some k"
    and "write_buffers (srv s) (result_fd r) = None"
  shows "pipe_step e (s, Q, L) (sent_whole r rest s, Q, L(k := L k @ [r]))"
  unfolding sent_whole_def by (rule pp_result[OF assms(1) _ assms(3,4)]) (simp_all add: assms(2) pop_Some_iff)

lemma sample_first_steps:
  "(pipe_step sample_engine)\<^sup>*\<^sup>* (sys_init sample_srv0 1, \<lambda>_. [], \<lambda>_. [])
     (sample_first, sample_asks, (\<lambda>_. [])(0 := [sample_response]))"
proof -
  let ?L = "\<lambda>_ :: nat. [] :: ResultItem list"
  let ?s1 = "(sample_asked 1)\<lparr>srv := sample_srv1\<lparr>work_queue := [sample_item2]\<rparr>, workers := [Busy sample_item]\<rparr>"
  let ?s2 = "(sample_asked 1)\<lparr>srv := sample_srv1\<lparr>work_queue := [sample_item2], results_queue := [sample_response]\<rparr>,
       answered := [sample_item], produced := [sample_response]\<rparr>"
  have 1: "pipe_step sample_engine (sample_asked 1, sample_asks, ?L) (?s1, sample_asks, ?L)"
    using pipe_take[of "sample_asked 1" 0 sample_item "[sample_item2]" sample_engine sample_asks ?L]
    by (simp add: sample_asked_def sys_init_def worker_at_def)
  have 2: "pipe_step sample_engine (?s1, sample_asks, ?L) (?s2, sample_asks, ?L)"
    using pipe_finish[of ?s1 0 sample_item sample_engine sample_response sample_asks ?L] sample_work
    by (simp add: sample_asked_def sys_init_def worker_at_def sample_srv1_def empty_server_def)
  have 3: "pipe_step sample_engine (?s2, sample_asks, ?L) (sample_first, sample_asks, ?L(0 := [sample_response]))"
    using pipe_send[of ?s2 sample_response "[]" 0 sample_engine sample_asks ?L]
    by (simp add: sample_first_def sample_asked_def sys_init_def sample_response_def sample_srv1_def empty_server_def)
  show ?thesis using sample_asked_steps 1 2 3 by (meson rtranclp.rtrancl_into_rtrancl)
qed

definition sample_second :: system where
  "sample_second = sent_whole sample_response2 [] ((sample_asked 2)
     \<lparr>srv := sample_srv1\<lparr>results_queue := [sample_response2]\<rparr>, workers := [Busy sample_item, Free],
       answered := [sample_item2], produced := [sample_response2]\<rparr>)"

lemma sample_second_steps:
  "(pipe_step sample_engine)\<^sup>*\<^sup>* (sys_init sample_srv0 2, \<lambda>_. [], \<lambda>_. [])
     (sample_second, sample_asks, (\<lambda>_. [])(0 := [sample_response2]))"
proof -
  let ?L = "\<lambda>_ :: nat. [] :: ResultItem list"
  let ?s1 = "(sample_asked 2)\<lparr>srv := sample_srv1\<lparr>work_queue := [sample_item2]\<rparr>, workers := [Busy sample_item, Free]\<rparr>"
  let ?s2 = "(sample_asked 2)\<lparr>srv := sample_srv1, workers := [Busy sample_item, Busy sample_item2]\<rparr>"
  let ?s3 = "(sample_asked 2)\<lparr>srv := sample_srv1\<lparr>results_queue := [sample_response2]\<rparr>,
       workers := [Busy sample_item, Free], answered := [sample_item2], produced := [sample_response2]\<rparr>"
  have two: "replicate 2 Free = [Free, Free]" by (simp add: numeral_2_eq_2)
  have 1: "pipe_step sample_engine (sample_asked 2, sample_asks, ?L) (?s1, sample_asks, ?L)"
    using pipe_take[of "sample_asked 2" 0 sample_item "[sample_item2]" sample_engine sample_asks ?L]
    by (simp add: sample_asked_def sys_init_def worker_at_def two)
  have 2: "pipe_step sample_engine (?s1, sample_asks, ?L) (?s2, sample_asks, ?L)"
    using pipe_take[of ?s1 1 sample_item2 "[]" sample_engine sample_asks ?L]
    by (simp add: sample_asked_def sys_init_def worker_at_def sample_srv1_def empty_server_def)
  have 3: "pipe_step sample_engine (?s2, sample_asks, ?L) (?s3, sample_asks, ?L)"
    using pipe_finish[of ?s2 1 sample_item2 sample_engine sample_response2 sample_asks ?L] sample_work2
    by (simp add: sample_asked_def sys_init_def worker_at_def sample_srv1_def empty_server_def)
  have 4: "pipe_step sample_engine (?s3, sample_asks, ?L) (sample_second, sample_asks, ?L(0 := [sample_response2]))"
    using pipe_send[of ?s3 sample_response2 "[]" 0 sample_engine sample_asks ?L]
    by (simp add: sample_second_def sample_asked_def sys_init_def sample_response2_def sample_item2_def
        sample_srv1_def empty_server_def)
  show ?thesis using sample_asked_steps 1 2 3 4 by (meson rtranclp.rtrancl_into_rtrancl)
qed

lemma sample_asks_ok: "\<forall>q \<in> set (sample_asks 0). no_wrap q \<and> covers (end_time_point q) sample_engine"
  using sample_item_ok sample_covers by (simp add: sample_item_def no_wrap_def sample_query_def)

lemma sample_records: "records sample_engine \<noteq> []" "time_sorted (records sample_engine)"
  using sample_sorted by (simp_all add: sample_trades_def)

theorem pipelined_answers_witness:
  "\<exists>bs. mset bs \<subseteq># {# response_spec sample_trades sample_query,
        response_spec sample_trades (sample_query\<lparr>resolution := 10\<rparr>) #}
     \<and> wire (srv sample_second) 0 @ pending (srv sample_second) 7 = concat (map frame bs)"
proof -
  have "conn (srv sample_second) 7 = Some 0"
    by (simp add: sample_second_def sent_whole_def send_result_unfold Let_def sample_srv1_def sample_asked_def)
  with pipelined_answers[OF sample_start sample_second_steps sample_records(2,1) sample_asks_ok]
  show ?thesis by auto
qed

theorem one_worker_in_order_witness:
  "prefix (wire (srv sample_first) 0) (frame (response_spec sample_trades sample_query)
     @ frame (response_spec sample_trades (sample_query\<lparr>resolution := 10\<rparr>)))"
  using one_worker_in_order[OF sample_start sample_first_steps sample_records(2,1) sample_asks_ok] by simp

end
