(* ===== verification/Client.thy ===== *)
theory Client
  imports Net Trade_Data
begin

text \<open>
  \<open>client::Client\<close> of \<open>src/client/client.cc\<close>: connecting, sending a query, and \<open>read_struct\<close>, which
  reads a count and then that many elements. What \<open>recv\<close> delivers is a list of outcomes, one per
  call: \<open>None\<close> for an error, \<open>Some bs\<close> for the bytes it put into the variable (\<open>Some []\<close> when the
  server has closed the connection). A function is \<open>None\<close> when the outcomes end first: the client
  then sits in a blocking \<open>recv\<close>.
\<close>

section \<open>Connecting\<close>

text \<open>\<open>pton\<close> is the address \<open>inet_pton\<close> computed, \<open>None\<close> when it returned 0 or less.\<close>

definition create_server_address :: "u32 option \<Rightarrow> u32 \<Rightarrow> u16 \<Rightarrow> sockaddr_in result" where
  "create_server_address pton junk port =
     (let address = create_address junk port in case pton of
        None \<Rightarrow> Inl (Check_error ''Invalid address/ Address not supported'')
      | Some a \<Rightarrow> Inr (address\<lparr>sin_addr := a\<rparr>))"

definition connect_to_server :: "int \<Rightarrow> unit result" where
  "connect_to_server err_code = check_error (err_code < 0) ''Connection Failed.''"

text \<open>
  The object and its life: the constructor opens a descriptor (\<open>fds\<close> are the open descriptors of the
  process), the destructor closes it. The destructor of an object whose constructor threw does not
  run, so the descriptor of a socket that could not be connected stays open.
\<close>

record Client =
  client_socket :: int

definition new_Client :: "int \<Rightarrow> u32 option \<Rightarrow> u32 \<Rightarrow> int \<Rightarrow> u16 \<Rightarrow> Client result" where
  "new_Client sock pton junk ret port =
     bindE (create_socket sock) (\<lambda>fd.
     bindE (create_server_address pton junk port) (\<lambda>address.
     bindE (connect_to_server ret) (\<lambda>_. Inr \<lparr>client_socket = fd\<rparr>)))"

definition new_Client_fds :: "int \<Rightarrow> int set \<Rightarrow> int set" where
  "new_Client_fds sock fds = (if sock < 0 then fds else insert sock fds)"

definition get_socket_fd :: "Client \<Rightarrow> int" where
  "get_socket_fd c = client_socket c"

definition delete_Client :: "Client \<Rightarrow> int set \<Rightarrow> int set" where
  "delete_Client c fds = fds - {client_socket c}"

lemma Client_lifetime:
  assumes "new_Client sock pton junk ret port = Inr c" and "sock \<notin> fds"
  shows "delete_Client c (new_Client_fds sock fds) = fds" and "get_socket_fd c = sock"
  using assms by (auto simp: new_Client_def create_socket_def delete_Client_def new_Client_fds_def
      get_socket_fd_def bindE_eq_Inr check_error_eq_Inr)

lemma Client_leak:
  assumes "0 \<le> sock" and "pton = None \<or> ret < 0"
  shows "\<exists>err. new_Client sock pton junk ret port = Inl err" and "sock \<in> new_Client_fds sock fds"
  using assms by (auto simp: new_Client_def create_socket_def create_server_address_def
      connect_to_server_def new_Client_fds_def Let_def split: option.splits)

section \<open>Messages\<close>

text \<open>The bytes of the query that go out; a partial send is not noticed.\<close>

definition send_message :: "byte list \<Rightarrow> int \<Rightarrow> TradeDataQuery \<Rightarrow> byte list result" where
  "send_message pad bytes_sent message =
     bindE (check_error (bytes_sent < 0) ''Send failed on client socket.'') (\<lambda>_.
     Inr (take (nat bytes_sent) (encode_TradeDataQuery pad message)))"

text \<open>
  The loop over the elements. The vector is zero-initialised, so what \<open>recv\<close> does not fill is zero.
\<close>

fun read_elements :: "nat \<Rightarrow> (byte list \<Rightarrow> 'a) \<Rightarrow> nat \<Rightarrow> byte list option list \<Rightarrow> 'a list run" where
  "read_elements sz dec 0 outs = Some (Inr [])"
| "read_elements sz dec (Suc k) [] = None"
| "read_elements sz dec (Suc k) (None # outs) = Some (Inl (Check_error ''Failed reading a Result struct.''))"
| "read_elements sz dec (Suc k) (Some bs # outs) =
     bindR (read_elements sz dec k outs) (\<lambda>xs.
       Some (Inr (dec (bs @ replicate (sz - length bs) 0) # xs)))"

text \<open>
  \<open>junk\<close> are the bytes of the uninitialised \<open>count\<close>. A negative count becomes a huge \<open>size_t\<close> and
  the vector's constructor throws.
\<close>

definition read_struct :: "nat \<Rightarrow> (byte list \<Rightarrow> 'a) \<Rightarrow> byte list \<Rightarrow> byte list option list \<Rightarrow> 'a list run" where
  "read_struct sz dec junk outs = (case outs of
      [] \<Rightarrow> None
    | None # _ \<Rightarrow> Some (Inl (Check_error ''Failed reading the size.''))
    | Some bs # rest \<Rightarrow>
        let count = (get32 (bs @ drop (length bs) junk) :: i32)
        in if sint count < 0 then Some (Inl Length_error)
           else read_elements sz dec (nat (sint count)) rest)"

definition read_struct_char :: "byte list \<Rightarrow> byte list option list \<Rightarrow> byte list run" where
  "read_struct_char = read_struct 1 hd"

definition read_struct_TradeData :: "byte list \<Rightarrow> byte list option list \<Rightarrow> TradeData list run" where
  "read_struct_TradeData = read_struct sizeof_TradeData decode_TradeData"

definition read_struct_Result :: "byte list \<Rightarrow> byte list option list \<Rightarrow> Result list run" where
  "read_struct_Result = read_struct sizeof_Result decode_Result"

section \<open>Complete messages\<close>

lemma read_elements_complete:
  assumes "\<And>x. x \<in> set xs \<Longrightarrow> length (enc x) = sz \<and> dec (enc x) = x"
  shows "read_elements sz dec (length xs) (map (\<lambda>x. Some (enc x)) xs @ outs) = Some (Inr xs)"
  using assms by (induction xs) auto

lemma sint_count: "n < 2 ^ 31 \<Longrightarrow> sint (of_nat n :: i32) = int n"
  by (simp add: signed_of_nat signed_take_bit_int_eq_self)

text \<open>
  If every \<open>recv\<close> delivers what was asked for, \<open>read_struct\<close> returns the elements that were sent,
  whatever follows them on the connection.
\<close>

lemma read_struct_complete:
  assumes "\<And>x. x \<in> set xs \<Longrightarrow> length (enc x) = sz \<and> dec (enc x) = x" and "length xs < 2 ^ 31"
  shows "read_struct sz dec junk (Some (le32 (of_nat (length xs))) # map (\<lambda>x. Some (enc x)) xs @ outs)
    = Some (Inr xs)"
  using assms sint_count[OF assms(2)]
  by (simp add: read_struct_def read_elements_complete[where enc = enc])

text \<open>The calls of the \<open>char\<close> instance on a connection that carries the bytes \<open>bs\<close>.\<close>

definition char_recvs :: "byte list \<Rightarrow> byte list option list" where
  "char_recvs bs = Some (take 4 bs) # map (\<lambda>b. Some [b]) (drop 4 bs)"

lemma read_char_complete:
  assumes "length buf < 2 ^ 31"
  shows "read_struct_char junk (char_recvs (le32 (of_nat (length buf)) @ buf @ rest)) = Some (Inr buf)"
  using read_struct_complete[of buf "\<lambda>b. [b]" 1 hd junk "map (\<lambda>b. Some [b]) rest"] assms
  by (simp add: read_struct_char_def char_recvs_def)

text \<open>A response from the server is read back unchanged by the client: on a connection that
  carries a count and that many bytes (fewer than \<open>2^31\<close>), \<open>read_struct<char>\<close> returns exactly those
  bytes; the instances for \<open>TradeData\<close> and \<open>Result\<close> return exactly the records sent.\<close>

theorem read_struct_roundtrip:
  assumes "length buf < 2 ^ 31" and "length ts < 2 ^ 31" and "length rs < 2 ^ 31"
  shows "read_struct_char junk (char_recvs (le32 (of_nat (length buf)) @ buf @ rest)) = Some (Inr buf)
    \<and> read_struct_TradeData junk (Some (le32 (of_nat (length ts)))
         # map (\<lambda>t. Some (encode_TradeData pad t)) ts @ outs) = Some (Inr ts)
    \<and> read_struct_Result junk (Some (le32 (of_nat (length rs)))
         # map (\<lambda>r. Some (encode_Result r)) rs @ outs) = Some (Inr rs)"
  unfolding read_struct_TradeData_def read_struct_Result_def
  by (intro conjI read_char_complete read_struct_complete) (use assms in simp_all)

theorem read_struct_roundtrip_witness:
  "read_struct_char [9, 9, 9, 9] (char_recvs (le32 3 @ [1, 2, 3] @ [7])) = Some (Inr [1, 2, 3])"
  using read_struct_roundtrip[of "[1, 2, 3]" "[]" "[]" "[9, 9, 9, 9]" "[7]"] by simp

text \<open>When the server closes the connection the client does not notice: a \<open>recv\<close> that returns 0
  leaves the zero of the freshly made vector, so a response cut after \<open>k\<close> bytes is returned with
  its full length, the missing bytes replaced by zeros.\<close>

lemma read_struct_eof_zeros:
  assumes "length buf < 2 ^ 31" and "k \<le> length buf"
  shows "read_struct_char junk (Some (le32 (of_nat (length buf)))
      # map (\<lambda>b. Some [b]) (take k buf) @ replicate (length buf - k) (Some []))
    = Some (Inr (take k buf @ replicate (length buf - k) 0))"
proof -
  have eof: "read_elements (Suc 0) hd n (replicate n (Some [])) = Some (Inr (replicate n (0 :: byte)))" for n
    by (induction n) simp_all
  have "read_elements (Suc 0) hd (length xs + n) (map (\<lambda>b. Some [b]) xs @ replicate n (Some []))
      = Some (Inr (xs @ replicate n (0 :: byte)))" for xs n
    by (induction xs) (simp_all add: eof)
  from this[of "take k buf" "length buf - k"] show ?thesis
    using assms sint_count[OF assms(1)] by (simp add: read_struct_char_def read_struct_def)
qed

end
