(* ===== verification/Closed_Loop.thy ===== *)
theory Closed_Loop
  imports Pipelined Client
begin

text \<open>
  The server together with its clients. A client of \<open>client_main.cc\<close> sends one query, waits for the
  whole response, and only then sends the next one or hangs up. The relation \<open>loop_step\<close> restricts
  the steps of the server to those that such clients cause, with queries that arrive in one piece, 4
  bytes of length that are sent whole or not at all, and descriptors that are not open when they are
  handed out; then every client gets the answers to its own queries, in the order it asked, whatever
  the other clients ask for.
\<close>

section \<open>Steps\<close>

text \<open>
  \<open>Q c\<close> are the queries sent on connection \<open>c\<close> so far, \<open>L c\<close> the results handed to it. The client of
  \<open>c\<close> is idle when it has received the whole response to each of its queries.
\<close>

definition idle :: "EpollServer \<Rightarrow> (nat \<Rightarrow> TradeDataQuery list) \<Rightarrow> (nat \<Rightarrow> ResultItem list) \<Rightarrow> nat \<Rightarrow> bool" where
  "idle s Q L c \<longleftrightarrow> length (L c) = length (Q c) \<and> wire s c = concat (map (frame \<circ> result_bytes) (L c))"

inductive loop_step :: "Query_engine \<Rightarrow> loop_state \<Rightarrow> loop_state \<Rightarrow> bool" for e where
  lp_accept: "\<not> crashed s \<Longrightarrow> dispatch ev c (srv s) = Some (Inr t) \<Longrightarrow> ev_fd ev = server_listen_fd (srv s) \<Longrightarrow>
    send_within (sends c) (ev_fd ev) (srv s) \<Longrightarrow> fresh_accepts (accepts c) (dom (conn (srv s))) \<Longrightarrow>
    loop_step e (s, Q, L) (s\<lparr>srv := t\<rparr>, Q, L)"
| lp_query: "\<not> crashed s \<Longrightarrow> fd \<noteq> server_listen_fd (srv s) \<Longrightarrow> conn (srv s) fd = Some k \<Longrightarrow> idle (srv s) Q L k \<Longrightarrow>
    handle_read fd [Received (encode_TradeDataQuery pad q) left, Recv_failed EAGAIN] (srv s) = Some t \<Longrightarrow>
    loop_step e (s, Q, L) (s\<lparr>srv := t, received := received s @ [\<lparr>work_fd = fd, work_query = q\<rparr>]\<rparr>,
      Q(k := Q k @ [q]), L)"
| lp_hang_up: "\<not> crashed s \<Longrightarrow> fd \<noteq> server_listen_fd (srv s) \<Longrightarrow> conn (srv s) fd = Some k \<Longrightarrow> idle (srv s) Q L k \<Longrightarrow>
    out = Closed \<or> out = Recv_failed Other_errno \<Longrightarrow> handle_read fd [out] (srv s) = Some t \<Longrightarrow>
    loop_step e (s, Q, L) (s\<lparr>srv := t\<rparr>, Q, L)"
| lp_write: "\<not> crashed s \<Longrightarrow> fd \<noteq> server_listen_fd (srv s) \<Longrightarrow> send_within n fd (srv s) \<Longrightarrow>
    loop_step e (s, Q, L) (s\<lparr>srv := handle_write n fd (srv s)\<rparr>, Q, L)"
| lp_worker: "sys_step e s t \<Longrightarrow> srv t = (srv s)\<lparr>work_queue := q, results_queue := rq\<rparr> \<Longrightarrow>
    received t = received s \<Longrightarrow> handled t = handled s \<Longrightarrow> loop_step e (s, Q, L) (t, Q, L)"
| lp_result: "\<not> crashed s \<Longrightarrow> TSQueue_pop (results_queue (srv s)) = Some (r, rest) \<Longrightarrow>
    conn (srv s) (result_fd r) = Some k \<Longrightarrow> n1 < 0 \<or> n1 = 4 \<Longrightarrow> n2 \<le> int (length (result_bytes r)) \<Longrightarrow>
    loop_step e (s, Q, L) (s\<lparr>srv := send_result n1 n2 err r ((srv s)\<lparr>results_queue := rest\<rparr>),
      handled := handled s @ [r]\<rparr>, Q, L(k := L k @ [r]))"

section \<open>Jobs\<close>

text \<open>What is on the way for each descriptor, in any order: a step of a worker changes nothing.\<close>

definition jobs_of :: "Query_engine \<Rightarrow> system \<Rightarrow> i32 \<Rightarrow> job multiset" where
  "jobs_of e s fd = mset (jobs_list e s fd)"

lemma result_job: "r \<in> set (results_queue (srv s)) \<Longrightarrow> made r \<in># jobs_of e s (result_fd r)"
  by (simp add: jobs_of_def jobs_list_def made_def)

lemma jobs_of_cong:
  "work_queue (srv t) = work_queue (srv s) \<Longrightarrow> results_queue (srv t) = results_queue (srv s) \<Longrightarrow>
    workers t = workers s \<Longrightarrow> jobs_of e t fd = jobs_of e s fd"
  using jobs_cong[of t s e fd] by (simp add: jobs_of_def)

lemmas jobs_of_worker = jobs_worker_mset[folded jobs_of_def]

section \<open>Invariant\<close>

text \<open>
  On the way for an open descriptor are the results of the queries its client has not been handed the
  result of, at most one, and then nothing of an earlier result is pending; nothing is on the way for
  a descriptor that is not open. Every result handed to a connection answers its query.
\<close>

definition exchange :: "Query_engine \<Rightarrow> loop_state \<Rightarrow> bool" where
  "exchange e = (\<lambda>(s, Q, L).
     (\<forall>fd. conn (srv s) fd = None \<longrightarrow> jobs_of e s fd = {#})
     \<and> (\<forall>fd c. conn (srv s) fd = Some c \<longrightarrow>
          jobs_of e s fd = mset (map (due e fd) (drop (length (L c)) (Q c)))
          \<and> length (Q c) \<le> Suc (length (L c))
          \<and> (length (L c) < length (Q c) \<longrightarrow> write_buffers (srv s) fd = None))
     \<and> (\<forall>c. next_conn (srv s) \<le> c \<longrightarrow> Q c = []))"

definition replies :: "Query_engine \<Rightarrow> TradeDataQuery list \<Rightarrow> ResultItem list \<Rightarrow> bool" where
  "replies e qs rs \<longleftrightarrow> length rs \<le> length qs
     \<and> (\<forall>i < length rs. \<exists>fd. snd (due e fd (qs ! i)) = Some (Inr (rs ! i)))"

definition loop_inv :: "Query_engine \<Rightarrow> loop_state \<Rightarrow> bool" where
  "loop_inv e x \<longleftrightarrow> deliver_inv (fst x, snd (snd x)) \<and> outgoing_ok (srv (fst x)) \<and> exchange e x
     \<and> (\<forall>c. replies e (fst (snd x) c) (snd (snd x) c))"

lemma exchangeD:
  assumes "exchange e (s, Q, L)"
  shows "conn (srv s) fd = None \<Longrightarrow> jobs_of e s fd = {#}"
    and "conn (srv s) fd = Some c \<Longrightarrow> jobs_of e s fd = mset (map (due e fd) (drop (length (L c)) (Q c)))"
    and "conn (srv s) fd = Some c \<Longrightarrow> length (Q c) \<le> Suc (length (L c))"
    and "conn (srv s) fd = Some c \<Longrightarrow> length (L c) < length (Q c) \<Longrightarrow> write_buffers (srv s) fd = None"
    and "next_conn (srv s) \<le> c \<Longrightarrow> Q c = []"
  using assms by (auto simp: exchange_def)

lemma replies_push: "replies e qs rs \<Longrightarrow> replies e (qs @ [q]) rs"
  by (auto simp: replies_def nth_append)

lemma replies_answer:
  "replies e qs rs \<Longrightarrow> length rs < length qs \<Longrightarrow> snd (due e fd (qs ! length rs)) = Some (Inr r) \<Longrightarrow>
    replies e qs (rs @ [r])"
  by (auto simp: replies_def nth_append less_Suc_eq)

text \<open>A closed descriptor, when nothing is on the way for it.\<close>

lemma exchange_close:
  assumes "exchange e (s, Q, L)" and "jobs_of e s fd = {#}"
    and "conn (srv t) = (conn (srv s))(fd := None)" and "next_conn (srv t) = next_conn (srv s)"
    and "\<And>fd'. jobs_of e t fd' = jobs_of e s fd'"
    and "\<And>fd'. fd' \<noteq> fd \<Longrightarrow> write_buffers (srv t) fd' = write_buffers (srv s) fd'"
  shows "exchange e (t, Q, L)"
  using assms by (auto simp: exchange_def)

lemma idle_quiet:
  assumes "loop_inv e (s, Q, L)" and "conn (srv s) fd = Some k" and "idle (srv s) Q L k"
  shows "write_buffers (srv s) fd = None" and "jobs_of e s fd = {#}" and "length (L k) = length (Q k)"
proof -
  have d: "delivered (srv s) L" and o: "outgoing_ok (srv s)" and x: "exchange e (s, Q, L)"
    using assms(1) by (simp_all add: loop_inv_def deliver_inv_def)
  show len: "length (L k) = length (Q k)" using assms(3) by (simp add: idle_def)
  show "jobs_of e s fd = {#}" using exchangeD(2)[OF x assms(2)] len by simp
  have "pending (srv s) fd = []"
    using delivered_open(1)[OF d assms(2)] assms(3) by (simp add: idle_def)
  then show "write_buffers (srv s) fd = None"
    using o by (auto simp: pending_def outgoing_ok_def simp flip: not_less split: option.splits)
qed

text \<open>Clients that wait are a special case of clients that may not.\<close>

lemma result_awaited:
  assumes "exchange e (s, Q, L)" and "results_queue (srv s) = r # rest" and "conn (srv s) (result_fd r) = Some k"
  shows "length (Q k) = Suc (length (L k))" and "write_buffers (srv s) (result_fd r) = None"
proof -
  have "jobs_of e s (result_fd r) \<noteq> {#}" using result_job[of r s e] assms(2) by auto
  then have len: "length (L k) < length (Q k)"
    using exchangeD(2)[OF assms(1,3)] by (cases "length (L k) < length (Q k)") auto
  then show "length (Q k) = Suc (length (L k))" using exchangeD(3)[OF assms(1,3)] by simp
  show "write_buffers (srv s) (result_fd r) = None" using exchangeD(4)[OF assms(1,3) len] .
qed

lemma loop_pipe_step:
  assumes "loop_step e x y" and "loop_inv e x"
  shows "pipe_step e x y"
  using assms
proof (induction rule: loop_step.induct)
  case (lp_query s fd k Q L pad q left t)
  then show ?case
    using pp_query[of s fd k "[(pad, q, left)]" t e Q L] by (simp add: query_reads_def query_items_def)
next
  case (lp_hang_up s fd k Q L out t)
  then show ?case using pp_hang_up idle_quiet(3)[OF lp_hang_up(7,3,4)] by blast
next
  case (lp_write s fd n Q L)
  show ?case
  proof (cases "write_buffers (srv s) fd")
    case None
    then show ?thesis using pp_write[OF lp_write(1,2), where n = 0 and L = L and Q = Q and e = e] by (simp add: handle_write_def send_within_def)
  next
    case (Some ob)
    have "length (L k) = length (Q k)" if "conn (srv s) fd = Some k" for k
    proof -
      have "exchange e (s, Q, L)" and "length (L k) \<le> length (Q k)"
        using lp_write(4) by (auto simp: loop_inv_def replies_def)
      then show ?thesis using exchangeD(4)[OF _ that, of e Q L] Some by force
    qed
    then show ?thesis using pp_write[OF lp_write(1-3)] by blast
  qed
next
  case (lp_result s r rest k n1 n2 Q L err)
  have x: "exchange e (s, Q, L)" using lp_result(6) by (simp add: loop_inv_def)
  have "results_queue (srv s) = r # rest" using lp_result(2) by (simp add: pop_Some_iff)
  from result_awaited[OF x this lp_result(3)] show ?case
    by (intro pp_result[OF lp_result(1-3) _ lp_result(4,5)]) simp_all
qed (auto intro: pp_accept pp_worker)

lemma loop_deliver_step:
  "loop_step e x y \<Longrightarrow> loop_inv e x \<Longrightarrow> deliver_step e (fst x, snd (snd x)) (fst y, snd (snd y))"
  by (rule pipe_deliver_step[OF loop_pipe_step])

lemma outgoing_ok_loop:
  assumes "loop_step e x y" and "outgoing_ok (srv (fst x))"
  shows "outgoing_ok (srv (fst y))"
  using assms
proof (induction rule: loop_step.induct)
  case (lp_accept s ev c t Q L)
  then show ?case using outgoing_ok_dispatch by simp
next
  case (lp_write s fd n Q L)
  then show ?case using outgoing_ok_handle_write by simp
next
  case (lp_result s r rest k n1 n2 Q L err)
  then have "outgoing_ok ((srv s)\<lparr>results_queue := rest\<rparr>)" by (simp add: outgoing_ok_def)
  then show ?case by (simp add: outgoing_ok_send_result)
qed (auto simp: outgoing_ok_def split: if_splits)

lemma exchange_accept:
  assumes "loop_inv e (s, Q, L)" and "accept_loop outs (srv s) = Some (Inr t)"
    and "fresh_accepts outs (dom (conn (srv s)))"
  shows "exchange e (s\<lparr>srv := t\<rparr>, Q, L)"
proof -
  have x: "exchange e (s, Q, L)" and L: "\<And>c. next_conn (srv s) \<le> c \<Longrightarrow> L c = []"
    using assms(1) by (simp_all add: loop_inv_def deliver_inv_def delivered_def)
  have c: "next_conn (srv s) \<le> next_conn t"
    "\<And>fd. conn t fd = conn (srv s) fd \<or> conn (srv s) fd = None \<and> (\<exists>c \<ge> next_conn (srv s). conn t fd = Some c)"
    using accept_loop_conn[OF assms(2,3)] by blast+
  have q: "work_queue t = work_queue (srv s)" "results_queue t = results_queue (srv s)"
    "write_buffers t = write_buffers (srv s)"
    using accept_loop_effect[OF assms(2)] by simp_all
  have j: "jobs_of e (s\<lparr>srv := t\<rparr>) fd = jobs_of e s fd" for fd
    by (rule jobs_of_cong) (simp_all add: q)
  have "jobs_of e s fd = mset (map (due e fd) (drop (length (L k)) (Q k)))
      \<and> length (Q k) \<le> Suc (length (L k))
      \<and> (length (L k) < length (Q k) \<longrightarrow> write_buffers (srv s) fd = None)" if "conn t fd = Some k" for fd k
  proof (cases "conn (srv s) fd")
    case None
    then have "next_conn (srv s) \<le> k" using c(2)[of fd] that by auto
    then show ?thesis using exchangeD(1)[OF x None] exchangeD(5)[OF x] L[of k] by simp
  next
    case (Some k')
    then have "conn (srv s) fd = Some k" using c(2)[of fd] that by simp
    then show ?thesis using exchangeD(2-4)[OF x] by blast
  qed
  moreover have "jobs_of e s fd = {#}" if "conn t fd = None" for fd
    using c(2)[of fd] that exchangeD(1)[OF x, of fd] by auto
  moreover have "Q k = []" if "next_conn t \<le> k" for k using exchangeD(5)[OF x] c(1) that by simp
  ultimately show ?thesis by (simp add: exchange_def j q)
qed

lemma exchange_query:
  assumes "loop_inv e (s, Q, L)" and "conn (srv s) fd = Some k" and "idle (srv s) Q L k"
    and "srv t = (srv s)\<lparr>work_queue := work_queue (srv s) @ [\<lparr>work_fd = fd, work_query = q\<rparr>]\<rparr>"
    and "workers t = workers s"
  shows "exchange e (t, Q(k := Q k @ [q]), L)"
proof -
  have x: "exchange e (s, Q, L)" and ty: "srv_typed (srv s)"
    using assms(1) by (simp_all add: loop_inv_def deliver_inv_def delivered_def)
  note quiet = idle_quiet[OF assms(1-3)]
  have j: "jobs_of e t fd' = jobs_of e s fd' + (if fd' = fd then {# due e fd q #} else {#})" for fd'
    using jobs_query[of t s fd "[([], q, [])]" e fd'] by (simp add: jobs_of_def query_items_def assms(4,5))
  have k: "k < next_conn (srv s)" "\<And>fd'. conn (srv s) fd' = Some k \<Longrightarrow> fd' = fd"
    using ty assms(2) by (auto simp: srv_typed_def)
  have "jobs_of e t fd' = mset (map (due e fd') (drop (length (L c)) ((Q(k := Q k @ [q])) c)))
      \<and> length ((Q(k := Q k @ [q])) c) \<le> Suc (length (L c))
      \<and> (length (L c) < length ((Q(k := Q k @ [q])) c) \<longrightarrow> write_buffers (srv s) fd' = None)"
    if "conn (srv s) fd' = Some c" for fd' c
  proof (cases "c = k")
    case True
    then show ?thesis using k(2)[of fd'] that quiet by (simp add: j)
  next
    case False
    then have "fd' \<noteq> fd" using that assms(2) by auto
    then show ?thesis using exchangeD(2-4)[OF x that] False by (simp add: j)
  qed
  moreover have "jobs_of e t fd' = {#}" if "conn (srv s) fd' = None" for fd'
    using exchangeD(1)[OF x that] that assms(2) by (auto simp: j)
  ultimately show ?thesis using exchangeD(5)[OF x] k(1) by (simp add: exchange_def assms(4))
qed

lemma exchange_result:
  assumes "loop_inv e (s, Q, L)" and "results_queue (srv s) = r # rest" and "conn (srv s) (result_fd r) = Some k"
    and "srv t = send_result n1 n2 err r ((srv s)\<lparr>results_queue := rest\<rparr>)" and "workers t = workers s"
  shows "exchange e (t, Q, L(k := L k @ [r]))" and "replies e (Q k) (L k @ [r])"
proof -
  let ?fd = "result_fd r"
  have x: "exchange e (s, Q, L)" and ty: "srv_typed (srv s)" and re: "replies e (Q k) (L k)"
    using assms(1) by (simp_all add: loop_inv_def deliver_inv_def delivered_def)
  have j: "jobs_of e s fd = jobs_of e t fd + (if fd = ?fd then {# made r #} else {#})" for fd
    using jobs_result[OF assms(2), of t e fd] by (simp add: jobs_of_def assms(4,5))
  have Q: "length (Q k) = Suc (length (L k))" using result_awaited(1)[OF x assms(2,3)] .
  then have len: "length (L k) < length (Q k)" by simp
  have "drop (length (L k)) (Q k) = [Q k ! length (L k)]"
    using Cons_nth_drop_Suc[OF len] Q by simp
  then have d: "jobs_of e s ?fd = {# due e ?fd (Q k ! length (L k)) #}"
    using exchangeD(2)[OF x assms(3)] by simp
  then have t: "jobs_of e t ?fd = {#}" and a: "due e ?fd (Q k ! length (L k)) = made r"
    using j[of ?fd] by (simp_all add: add_mset_eq_singleton_iff union_single_eq_member)
  show "replies e (Q k) (L k @ [r])" by (rule replies_answer[OF re len, where fd = ?fd]) (simp add: a made_def)
  have k: "k < next_conn (srv s)" "\<And>fd'. conn (srv s) fd' = Some k \<Longrightarrow> fd' = ?fd"
    using ty assms(3) by (auto simp: srv_typed_def)
  have c: "conn (srv t) = conn (srv s) \<or> conn (srv t) = (conn (srv s))(?fd := None)"
    "next_conn (srv t) = next_conn (srv s)"
    by (simp_all add: assms(4) send_result_unfold Let_def)
  have w: "write_buffers (srv t) fd' = write_buffers (srv s) fd'" if "fd' \<noteq> ?fd" for fd'
    using that by (simp add: assms(4) send_result_unfold Let_def)
  have o: "jobs_of e t fd = jobs_of e s fd" if "fd \<noteq> ?fd" for fd using j[of fd] that by simp
  have "jobs_of e t fd = mset (map (due e fd) (drop (length ((L(k := L k @ [r])) c)) (Q c)))
      \<and> length (Q c) \<le> Suc (length ((L(k := L k @ [r])) c))
      \<and> (length ((L(k := L k @ [r])) c) < length (Q c) \<longrightarrow> write_buffers (srv t) fd = None)"
    if "conn (srv t) fd = Some c" for fd c
  proof (cases "c = k")
    case True
    have "conn (srv s) fd = Some c" using c(1) that by (auto split: if_splits)
    then show ?thesis using k(2)[of fd] True t Q by simp
  next
    case False
    have s: "conn (srv s) fd = Some c" using c(1) that by (auto split: if_splits)
    then have "fd \<noteq> ?fd" using False assms(3) by auto
    then show ?thesis using exchangeD(2-4)[OF x s] False o[of fd] w[of fd] by simp
  qed
  moreover have "jobs_of e t fd = {#}" if "conn (srv t) fd = None" for fd
    using c(1) that exchangeD(1)[OF x, of fd] o[of fd] t by (cases "fd = ?fd") auto
  ultimately show "exchange e (t, Q, L(k := L k @ [r]))"
    using exchangeD(5)[OF x] c(2) by (simp add: exchange_def)
qed

lemma exchange_write:
  assumes "loop_inv e (s, Q, L)"
  shows "exchange e (s\<lparr>srv := handle_write n fd (srv s)\<rparr>, Q, L)"
proof (cases "write_buffers (srv s) fd")
  case None
  then show ?thesis using assms by (simp add: handle_write_def loop_inv_def)
next
  case (Some ob)
  let ?t = "s\<lparr>srv := handle_write n fd (srv s)\<rparr>"
  have x: "exchange e (s, Q, L)" and d: "delivered (srv s) L"
    using assms by (simp_all add: loop_inv_def deliver_inv_def)
  have j: "jobs_of e ?t fd' = jobs_of e s fd'" for fd'
    by (rule jobs_of_cong) simp_all
  obtain k where k: "conn (srv s) fd = Some k" using d Some by (force simp: delivered_def)
  have len: "length (Q k) \<le> length (L k)" using exchangeD(4)[OF x k] Some by force
  then have e: "jobs_of e s fd = {#}" using exchangeD(2)[OF x k] by simp
  have w: "write_buffers (srv ?t) fd' = write_buffers (srv s) fd'" if "fd' \<noteq> fd" for fd'
    using that Some by (simp add: handle_write_def Let_def)
  show ?thesis
  proof (cases "0 \<le> n")
    case False
    then show ?thesis
      using Some by (intro exchange_close[OF x e _ _ j w]) (simp_all add: handle_write_def)
  next
    case True
    have c: "conn (srv ?t) = conn (srv s)" "next_conn (srv ?t) = next_conn (srv s)"
      using True Some by (simp_all add: handle_write_def Let_def)
    have "write_buffers (srv ?t) fd' = None"
      if "conn (srv s) fd' = Some k'" "length (L k') < length (Q k')" for fd' k'
      using that exchangeD(4)[OF x that] k len w[of fd'] by (cases "fd' = fd") auto
    then show ?thesis using exchangeD[OF x] c j by (simp add: exchange_def)
  qed
qed

lemma loop_inv_step:
  assumes "loop_step e x y" and "loop_inv e x"
  shows "loop_inv e y"
proof -
  have d: "deliver_inv (fst y, snd (snd y))"
    using loop_deliver_step[OF assms] assms(2) deliver_inv_step by (auto simp: loop_inv_def)
  have o: "outgoing_ok (srv (fst y))" using outgoing_ok_loop assms by (simp add: loop_inv_def)
  have "exchange e y \<and> (\<forall>c. replies e (fst (snd y) c) (snd (snd y) c))"
    using assms
  proof (induction rule: loop_step.induct)
    case (lp_accept s ev c t Q L)
    have "accept_loop (accepts c) (srv s) = Some (Inr t)" using lp_accept(2,3) by (simp add: dispatch_def)
    then show ?case using exchange_accept[OF lp_accept(6) _ lp_accept(5)] lp_accept(6)
      by (simp add: loop_inv_def)
  next
    case (lp_query s fd k Q L pad q left t)
    have "t = (srv s)\<lparr>work_queue := work_queue (srv s) @ [\<lparr>work_fd = fd, work_query = q\<rparr>]\<rparr>"
      using lp_query(5) by (simp add: TSQueue_push_def received_query_def)
    then show ?case
      using exchange_query[OF lp_query(6,3,4), of _ q] lp_query(6) replies_push by (simp add: loop_inv_def)
  next
    case (lp_hang_up s fd k Q L out t)
    have t: "t = erase_buffer fd (close_fd fd (srv s))" using lp_hang_up(5,6) by auto
    have j: "jobs_of e (s\<lparr>srv := t\<rparr>) fd' = jobs_of e s fd'" for fd'
      by (rule jobs_of_cong) (simp_all add: t)
    have "exchange e (s, Q, L)" using lp_hang_up(7) by (simp add: loop_inv_def)
    from exchange_close[OF this idle_quiet(2)[OF lp_hang_up(7,3,4)] _ _ j]
    have "exchange e (s\<lparr>srv := t\<rparr>, Q, L)" by (simp add: t)
    then show ?case using lp_hang_up(7) by (simp add: loop_inv_def)
  next
    case (lp_write s fd n Q L)
    then show ?case using exchange_write[OF lp_write(4)] by (simp add: loop_inv_def)
  next
    case (lp_worker s t q rq Q L)
    then show ?case using jobs_of_worker[OF lp_worker(1,3,4)] by (simp add: loop_inv_def exchange_def)
  next
    case (lp_result s r rest k n1 n2 Q L err)
    have q: "results_queue (srv s) = r # rest" using lp_result(2) by (simp add: pop_Some_iff)
    show ?case
      using exchange_result[OF lp_result(6) q lp_result(3), of "s\<lparr>srv := send_result n1 n2 err r
          ((srv s)\<lparr>results_queue := rest\<rparr>), handled := handled s @ [r]\<rparr>" n1 n2 err] lp_result(6)
      by (simp add: loop_inv_def)
  qed
  with d o show ?thesis by (simp add: loop_inv_def)
qed

lemma loop_inv_init: "start_run c = Inr s0 \<Longrightarrow> loop_inv e (sys_init s0 n, \<lambda>_. [], \<lambda>_. [])"
  using deliver_inv_init[of c s0 n] start_run_state[of c s0]
  by (auto simp: loop_inv_def outgoing_ok_def exchange_def replies_def jobs_of_def jobs_list_def sys_init_def
      busy_items_init start_run_def new_EpollServer_def add_to_epoll_def empty_server_def bindE_eq_Inr)

interpretation closed: step_invariant "loop_step e"
    "\<lambda>x. \<exists>c s0 n. start_run c = Inr s0 \<and> x = (sys_init s0 n, \<lambda>_. [], \<lambda>_. [])" "loop_inv e" for e
  by unfold_locales (auto intro: loop_inv_init loop_inv_step)

lemma loop_inv_reachable:
  "start_run c0 = Inr s0 \<Longrightarrow> (loop_step e)\<^sup>*\<^sup>* (sys_init s0 n, \<lambda>_. [], \<lambda>_. []) x \<Longrightarrow> loop_inv e x"
  using closed.reachable_inv by blast

text \<open>A result that waits is for a client that is still there.\<close>

lemma result_has_client:
  assumes "loop_inv e (s, Q, L)" and "r \<in> set (results_queue (srv s))"
  shows "conn (srv s) (result_fd r) \<noteq> None"
proof
  assume none: "conn (srv s) (result_fd r) = None"
  have "exchange e (s, Q, L)" using assms(1) by (simp add: loop_inv_def)
  from exchangeD(1)[OF this none] have "jobs_of e s (result_fd r) = {#}" .
  then show False using result_job[OF assms(2), of e] by auto
qed

section \<open>Every client gets its answers\<close>

lemma replies_spec:
  assumes "replies e qs rs" and "time_sorted (records e)" and "records e \<noteq> []"
    and "\<forall>q \<in> set qs. no_wrap q \<and> covers (end_time_point q) e"
  shows "map result_bytes rs = map (response_spec (records e)) (take (length rs) qs)"
proof (rule nth_equalityI)
  fix i assume i: "i < length (map result_bytes rs)"
  then have q: "i < length qs" using assms(1) by (simp add: replies_def)
  from i obtain fd where fd: "worker_process e \<lparr>work_fd = fd, work_query = qs ! i\<rparr> = Some (Inr (rs ! i))"
    using assms(1) by (auto simp: replies_def due_def)
  have "no_wrap (qs ! i)" "covers (end_time_point (qs ! i)) e" using assms(4) q by simp_all
  with worker_spec[of "\<lparr>work_fd = fd, work_query = qs ! i\<rparr>" e] fd assms(2,3)
  show "map result_bytes rs ! i = map (response_spec (records e)) (take (length rs) qs) ! i"
    using i q by auto
qed (use assms(1) in \<open>simp add: replies_def\<close>)

lemma loop_answers:
  assumes "loop_inv e (s, Q, L)" and "time_sorted (records e)" and "records e \<noteq> []"
    and "\<forall>q \<in> set (Q c). no_wrap q \<and> covers (end_time_point q) e"
  shows "prefix (wire (srv s) c) (concat (map (frame \<circ> response_spec (records e)) (take (length (L c)) (Q c))))"
    and "conn (srv s) fd = Some c \<Longrightarrow> wire (srv s) c @ pending (srv s) fd
      = concat (map (frame \<circ> response_spec (records e)) (take (length (L c)) (Q c)))"
proof -
  have d: "delivered (srv s) L" and re: "replies e (Q c) (L c)"
    using assms(1) by (simp_all add: loop_inv_def deliver_inv_def)
  have "map (frame \<circ> result_bytes) (L c) = map (frame \<circ> response_spec (records e)) (take (length (L c)) (Q c))"
    using replies_spec[OF re assms(2-4)] by (metis map_map)
  note eq = this[THEN arg_cong[where f = concat]]
  have "prefix (wire (srv s) c) (concat (map (frame \<circ> result_bytes) (L c)))"
    using d unfolding delivered_def by blast
  then show "prefix (wire (srv s) c) (concat (map (frame \<circ> response_spec (records e)) (take (length (L c)) (Q c))))"
    unfolding eq .
  show "wire (srv s) c @ pending (srv s) fd
      = concat (map (frame \<circ> response_spec (records e)) (take (length (L c)) (Q c)))"
    if "conn (srv s) fd = Some c"
    using delivered_open(1)[OF d that] unfolding eq .
qed

lemma idle_answers:
  assumes "loop_inv e (s, Q, L)" and "time_sorted (records e)" and "records e \<noteq> []"
    and "\<forall>q \<in> set (Q c). no_wrap q \<and> covers (end_time_point q) e" and "idle (srv s) Q L c"
  shows "wire (srv s) c = concat (map (frame \<circ> response_spec (records e)) (Q c))"
proof -
  have "replies e (Q c) (L c)" using assms(1) by (simp add: loop_inv_def)
  from replies_spec[OF this assms(2-4)] assms(5)
  have "map (frame \<circ> result_bytes) (L c) = map (frame \<circ> response_spec (records e)) (Q c)"
    by (metis idle_def map_map take_all_iff order_refl)
  then show ?thesis using assms(5) by (simp add: idle_def)
qed

text \<open>C1. Every client gets the answers to its own queries, in the order it asked: in any run of the server
  over a time-ordered, nonempty data file in which the clients send a query only after the whole
  response to the one before and hang up only then, queries arrive in one piece, the 4 bytes of a
  length are sent whole or not at all and the kernel hands out descriptors that are not open, with any
  number of workers and clients, partial writes of the responses and failing sends, the bytes on a
  connection are at any time a prefix of the framed abstract responses to the queries sent on that
  connection. Those not yet on the connection are pending for its descriptor, up to at most one
  query that is still to be answered. Of the queries, only those of this client must be safe (they do
  not wrap and end before the unsafe end of the file): what the others ask does not matter.\<close>

theorem clients_get_their_answers:
  assumes "start_run c0 = Inr s0" and "(loop_step e)\<^sup>*\<^sup>* (sys_init s0 n, \<lambda>_. [], \<lambda>_. []) (s, Q, L)"
    and "time_sorted (records e)" and "records e \<noteq> []"
    and "\<forall>q \<in> set (Q c). no_wrap q \<and> covers (end_time_point q) e"
  shows "prefix (wire (srv s) c) (concat (map (frame \<circ> response_spec (records e)) (Q c)))
    \<and> (\<forall>fd. conn (srv s) fd = Some c \<longrightarrow> (\<exists>k. k \<le> length (Q c) \<and> length (Q c) \<le> k + 1
        \<and> wire (srv s) c @ pending (srv s) fd
          = concat (map (frame \<circ> response_spec (records e)) (take k (Q c)))))"
proof -
  have inv: "loop_inv e (s, Q, L)" using loop_inv_reachable[OF assms(1,2)] .
  then have x: "exchange e (s, Q, L)" by (simp add: loop_inv_def)
  have "prefix (wire (srv s) c) (concat (map (frame \<circ> response_spec (records e)) (Q c)))"
    using loop_answers(1)[OF inv assms(3-5)] concat_take_prefix prefix_order.trans by blast
  moreover have "length (L c) \<le> length (Q c)" using inv by (simp add: loop_inv_def replies_def)
  moreover have "length (Q c) \<le> length (L c) + 1" if "conn (srv s) fd = Some c" for fd
    using exchangeD(3)[OF x that] by simp
  ultimately show ?thesis using loop_answers(2)[OF inv assms(3-5)] by blast
qed

text \<open>C7. What a client reads, in any run of the server over a time-ordered, nonempty data file in which the
  clients send a query only after the whole response to the one before and hang up only then, queries
  arrive in one piece, the 4 bytes of a length are sent whole or not at all and the kernel hands out
  descriptors that are not open: if the queries of a client neither wrap nor reach the unsafe end of the
  file, and the response to the query it sent as number \<open>i\<close> (counted from 0) has less than 2^31 bytes,
  then, as soon as the bytes of the first \<open>i + 1\<close> responses are on its connection, a client that has
  read the first \<open>i\<close> responses reads with \<open>read_struct<char>\<close> exactly the abstract response to query \<open>i\<close>,
  if \<open>recv\<close> delivers the bytes on the connection (\<open>char_recvs\<close>).\<close>

theorem clients_read_their_answers:
  assumes "start_run c0 = Inr s0" and "(loop_step e)\<^sup>*\<^sup>* (sys_init s0 n, \<lambda>_. [], \<lambda>_. []) (s, Q, L)"
    and "time_sorted (records e)" and "records e \<noteq> []"
    and "\<forall>q \<in> set (Q c). no_wrap q \<and> covers (end_time_point q) e"
    and "i < length (Q c)" and "length (response_spec (records e) (Q c ! i)) < 2 ^ 31"
    and "length (concat (map (frame \<circ> response_spec (records e)) (take (Suc i) (Q c)))) \<le> length (wire (srv s) c)"
  shows "read_struct_char junk (char_recvs (drop
      (length (concat (map (frame \<circ> response_spec (records e)) (take i (Q c))))) (wire (srv s) c)))
    = Some (Inr (response_spec (records e) (Q c ! i)))"
proof -
  let ?f = "frame \<circ> response_spec (records e)"
  have "prefix (wire (srv s) c) (concat (map ?f (take (length (L c)) (Q c))))"
    using loop_answers(1)[OF loop_inv_reachable[OF assms(1,2)] assms(3-5)] .
  then have "prefix (wire (srv s) c) (concat (map ?f (Q c)))"
    using concat_take_prefix prefix_order.trans by blast
  moreover have "prefix (concat (map ?f (take (Suc i) (Q c)))) (concat (map ?f (Q c)))"
    by (rule concat_take_prefix)
  ultimately have "prefix (concat (map ?f (take (Suc i) (Q c)))) (wire (srv s) c)"
    using assms(8) prefix_length_prefix by blast
  then obtain rest where "wire (srv s) c = concat (map ?f (take i (Q c))) @ ?f (Q c ! i) @ rest"
    using assms(6) by (auto simp: take_Suc_conv_app_nth prefix_def)
  then show ?thesis using read_char_complete[OF assms(7), of junk rest] by (simp add: frame_def)
qed

section \<open>A client and its query\<close>

definition sample_done :: system where
  "sample_done = sample_answered
     \<lparr>srv := send_result 4 (int (length (result_bytes sample_response))) EAGAIN sample_response sample_srv1,
      handled := [sample_response]\<rparr>"

text \<open>A client connects, sends its query, a worker takes it, answers it, and the response is sent.\<close>

lemma sample_loop_steps:
  "loop_step sample_engine (sys_init sample_srv0 1, \<lambda>_. [], \<lambda>_. []) (sys_init sample_srv1 1, \<lambda>_. [], \<lambda>_. [])"
  "loop_step sample_engine (sys_init sample_srv1 1, \<lambda>_. [], \<lambda>_. [])
     (sample_waiting, (\<lambda>_. [])(0 := [sample_query]), \<lambda>_. [])"
  "loop_step sample_engine (sample_waiting, Q, L) (sample_busy, Q, L)"
  "loop_step sample_engine (sample_busy, Q, L) (sample_answered, Q, L)"
  "loop_step sample_engine (sample_answered, Q, \<lambda>_. []) (sample_done, Q, (\<lambda>_. [])(0 := [sample_response]))"
proof -
  let ?L = "\<lambda>_ :: nat. [] :: ResultItem list" and ?N = "\<lambda>_ :: nat. [] :: TradeDataQuery list"
  show "loop_step sample_engine (sys_init sample_srv0 1, ?N, ?L) (sys_init sample_srv1 1, ?N, ?L)"
    using lp_accept[of "sys_init sample_srv0 1", unfolded sample_init_srv, OF _ sample_accept]
    by (simp add: sys_init_def send_within_def sample_srv0_def sample_srv1_def empty_server_def)
  show "loop_step sample_engine (sys_init sample_srv1 1, ?N, ?L)
      (sample_waiting, ?N(0 := [sample_query]), ?L)"
    using lp_query[of "sys_init sample_srv1 1" 7 0 ?N ?L "[]" sample_query "[]"
        "sample_srv1\<lparr>work_queue := [sample_item]\<rparr>" sample_engine]
    by (simp add: sys_init_def idle_def sample_waiting_def sample_srv1_def empty_server_def received_query_def
        TSQueue_push_def sample_item_def)
  show "loop_step sample_engine (sample_waiting, Q, L) (sample_busy, Q, L)"
    by (rule lp_worker[OF sample_takes, where q = "[]" and rq = "[]"])
      (simp_all add: sample_waiting_def sample_busy_def sys_init_def sample_srv1_def empty_server_def)
  show "loop_step sample_engine (sample_busy, Q, L) (sample_answered, Q, L)"
    by (rule lp_worker[OF sample_finishes, where q = "[]" and rq = "[sample_response]"])
      (simp_all add: sample_answered_def sample_busy_def sys_init_def sample_srv1_def empty_server_def)
  show "loop_step sample_engine (sample_answered, Q, ?L) (sample_done, Q, ?L(0 := [sample_response]))"
    using lp_result[of sample_answered sample_response "[]" 0 4 "int (length (result_bytes sample_response))"
        sample_engine Q ?L EAGAIN]
    by (simp add: sample_answered_def sample_done_def sample_response_def sys_init_def TSQueue_pop_def
        sample_srv1_def empty_server_def)
qed

lemma sample_busy_loop:
  "(loop_step sample_engine)\<^sup>*\<^sup>* (sys_init sample_srv0 1, \<lambda>_. [], \<lambda>_. [])
     (sample_busy, (\<lambda>_. [])(0 := [sample_query]), \<lambda>_. [])"
  using sample_loop_steps(1,2,3) by (meson converse_rtranclp_into_rtranclp rtranclp.rtrancl_refl)

lemma sample_done_steps:
  "(loop_step sample_engine)\<^sup>*\<^sup>* (sys_init sample_srv0 1, \<lambda>_. [], \<lambda>_. [])
     (sample_done, (\<lambda>_. [])(0 := [sample_query]), (\<lambda>_. [])(0 := [sample_response]))"
  using sample_busy_loop sample_loop_steps(4,5) by (meson rtranclp.rtrancl_into_rtrancl)

lemma sample_query_ok: "no_wrap sample_query" "covers (end_time_point sample_query) sample_engine"
  using sample_item_ok sample_covers by (simp_all add: sample_item_def)

theorem clients_get_their_answers_witness:
  "prefix (wire (srv sample_done) 0) (frame (response_spec sample_trades sample_query))"
  using clients_get_their_answers[OF sample_start sample_done_steps sample_records(2,1), of 0] sample_query_ok
  by simp

lemma sample_done_wire: "wire (srv sample_done) 0 = frame (result_bytes sample_response)"
  by (simp add: sample_done_def send_result_unfold Let_def transmit_def sample_srv1_def sample_response_def
      empty_server_def frame_def)

theorem clients_read_their_answers_witness:
  "read_struct_char [] (char_recvs (wire (srv sample_done) 0))
    = Some (Inr (response_spec sample_trades sample_query))"
  using clients_read_their_answers[OF sample_start sample_done_steps sample_records(2,1), of 0 0 "[]"]
    sample_query_ok sample_done_wire sample_response_length
  by (simp add: sample_response_def)

end
