(* ===== verification/Loop_Progress.thy ===== *)
theory Loop_Progress
  imports Closed_Loop
begin

text \<open>
  Progress of the closed loop of \<open>Closed_Loop\<close>: a client that waits for an answer can always be given
  it by the steps of the workers and of the main thread (the actions \<open>fair_act\<close>), whatever the other
  clients have asked and without any step of theirs.
\<close>

section \<open>The runs of the closed loop\<close>

interpretation loop_system: simulation "loop_step e"
    "\<lambda>x. \<exists>c s0 n. start_run c = Inr s0 \<and> x = (sys_init s0 n, \<lambda>_. [], \<lambda>_. [])" "loop_inv e"
    "sys_step e" fst for e
  using deliver_sys_step loop_deliver_step by unfold_locales fastforce

lemma loop_sys_reachable:
  assumes "start_run c0 = Inr s0" and "(loop_step e)\<^sup>*\<^sup>* (sys_init s0 n, \<lambda>_. [], \<lambda>_. []) (s, Q, L)"
  shows "sys_reachable e c0 n s"
  using loop_system.reachable_simulates[OF assms(2)] assms(1) by (auto simp: sys_reachable_def)

text \<open>What a client asked was received.\<close>

definition asked :: "loop_state \<Rightarrow> bool" where
  "asked = (\<lambda>(s, Q, L). \<forall>c. set (Q c) \<subseteq> work_query ` set (received s))"

lemma asked_step: "loop_step e x y \<Longrightarrow> asked x \<Longrightarrow> asked y"
  by (induction rule: loop_step.induct) (auto simp: asked_def)

interpretation asked: step_invariant "loop_step e" "\<lambda>x. fst (snd x) = (\<lambda>_. [])" asked for e
  by unfold_locales (simp add: asked_def case_prod_unfold, rule asked_step)

section \<open>Actions\<close>

text \<open>
  What the server must keep doing: a free worker takes a query, worker \<open>i\<close> finishes, the main thread
  sends the next result, and it writes to \<open>fd\<close>, to which the kernel then sends at least one byte or
  reports an error.
\<close>

datatype action = Take | Finish nat | Main | Write i32

inductive fair_act :: "Query_engine \<Rightarrow> action \<Rightarrow> loop_state \<Rightarrow> loop_state \<Rightarrow> bool" for e where
  fa_take: "\<not> crashed s \<Longrightarrow> worker_at s i Free \<Longrightarrow> TSQueue_pop (work_queue (srv s)) = Some (w, rest) \<Longrightarrow>
    fair_act e Take (s, Q, L)
      (s\<lparr>srv := (srv s)\<lparr>work_queue := rest\<rparr>, workers := (workers s)[i := Busy w]\<rparr>, Q, L)"
| fa_finish: "\<not> crashed s \<Longrightarrow> worker_at s i (Busy w) \<Longrightarrow> worker_process e w = Some (Inr r) \<Longrightarrow>
    fair_act e (Finish i) (s, Q, L)
      (s\<lparr>srv := (srv s)\<lparr>results_queue := TSQueue_push (results_queue (srv s)) r\<rparr>,
         workers := (workers s)[i := Free], answered := answered s @ [w], produced := produced s @ [r]\<rparr>, Q, L)"
| fa_main: "\<not> crashed s \<Longrightarrow> TSQueue_pop (results_queue (srv s)) = Some (r, rest) \<Longrightarrow>
    conn (srv s) (result_fd r) = Some k \<Longrightarrow> n1 < 0 \<or> n1 = 4 \<Longrightarrow> n2 \<le> int (length (result_bytes r)) \<Longrightarrow>
    fair_act e Main (s, Q, L) (s\<lparr>srv := send_result n1 n2 err r ((srv s)\<lparr>results_queue := rest\<rparr>),
      handled := handled s @ [r]\<rparr>, Q, L(k := L k @ [r]))"
| fa_write: "\<not> crashed s \<Longrightarrow> fd \<noteq> server_listen_fd (srv s) \<Longrightarrow> send_within n fd (srv s) \<Longrightarrow> n \<noteq> 0 \<Longrightarrow>
    write_buffers (srv s) fd \<noteq> None \<Longrightarrow>
    fair_act e (Write fd) (s, Q, L) (s\<lparr>srv := handle_write n fd (srv s)\<rparr>, Q, L)"

inductive_cases fair_takeE: "fair_act e Take (s, Q, L) y"
inductive_cases fair_finishE: "fair_act e (Finish i) (s, Q, L) y"
inductive_cases fair_mainE: "fair_act e Main (s, Q, L) y"
inductive_cases fair_writeE: "fair_act e (Write fd) (s, Q, L) y"

text \<open>A step of the server: some action. Every action is a step of the loop.\<close>

definition server_step :: "Query_engine \<Rightarrow> loop_state \<Rightarrow> loop_state \<Rightarrow> bool" where
  "server_step e x y \<longleftrightarrow> (\<exists>a. fair_act e a x y)"


lemma fair_act_step: "fair_act e a x y \<Longrightarrow> loop_step e x y"
proof (induction rule: fair_act.induct)
  case (fa_take s i w rest Q L)
  then show ?case by (intro lp_worker[OF sys_take, where rq = "results_queue (srv s)"]) simp_all
next
  case (fa_finish s i w r Q L)
  then show ?case by (intro lp_worker[OF sys_finish, where q = "work_queue (srv s)"]) simp_all
qed (auto intro: lp_result lp_write)

lemma server_loop_step: "server_step e x y \<Longrightarrow> loop_step e x y"
  by (auto simp: server_step_def dest: fair_act_step)

lemma server_loop_steps: "(server_step e)\<^sup>*\<^sup>* x y \<Longrightarrow> (loop_step e)\<^sup>*\<^sup>* x y"
  by (rule rtranclp_mono[THEN predicate2D]) (auto intro: server_loop_step)

text \<open>What a worker does without ending the process is one of them.\<close>

lemma worker_server_step:
  assumes "sys_act e (Worker_thread i) s t" and "\<not> crashed t"
  shows "server_step e (s, Q, L) (t, Q, L)"
  using assms by (auto simp: server_step_def elim!: worker_actE intro: fa_take fa_finish)

section \<open>Serving\<close>

text \<open>A step that serves, seen by the clients: no connection changes and nobody asks.\<close>

definition calm :: "loop_state \<Rightarrow> loop_state \<Rightarrow> bool" where
  "calm x y \<longleftrightarrow> fst (snd y) = fst (snd x) \<and> conn (srv (fst y)) = conn (srv (fst x))
     \<and> server_listen_fd (srv (fst y)) = server_listen_fd (srv (fst x))"

definition able :: "Query_engine \<Rightarrow> loop_state \<Rightarrow> bool" where
  "able e x \<longleftrightarrow> loop_inv e x \<and> \<not> crashed (fst x) \<and> workers (fst x) \<noteq> [] \<and> answerable e (fst x)"

lemma loop_serve:
  assumes "able e (s, Q, L)" and "pending_work s \<noteq> 0"
  shows "\<exists>t L'. server_step e (s, Q, L) (t, Q, L') \<and> serves e s t \<and> calm (s, Q, L) (t, Q, L')"
proof (cases "results_queue (srv s)")
  case Nil
  then have "work_queue (srv s) \<noteq> [] \<or> busy_items (workers s) \<noteq> []"
    using assms(2) by (auto simp: pending_work_def)
  then obtain t i where t: "sys_act e (Worker_thread i) s t" "serves e s t" "handled t = handled s"
    "srv t = (srv s)\<lparr>work_queue := work_queue (srv t), results_queue := results_queue (srv t)\<rparr>"
    using worker_progress[of s e] assms(1) by (auto simp: able_def)
  have "calm (s, Q, L) (t, Q, L)" unfolding calm_def fst_conv snd_conv by (subst (1 2) t(4)) simp
  then show ?thesis using worker_server_step[OF t(1), of Q L] t(2) by (auto simp: serves_def)
next
  case (Cons r rest)
  have inv: "loop_inv e (s, Q, L)" and ok: "\<not> crashed s" "workers s \<noteq> []" "answerable e s"
    using assms(1) by (simp_all add: able_def)
  obtain k where k: "conn (srv s) (result_fd r) = Some k"
    using result_has_client[OF inv, of r] Cons by auto
  have "server_step e (s, Q, L) (sent_whole r rest s, Q, L(k := L k @ [r]))"
    unfolding sent_whole_def server_step_def
    by (intro exI, rule fa_main[OF ok(1) _ k]) (simp_all add: Cons pop_Some_iff)
  moreover have "calm (s, Q, L) (sent_whole r rest s, Q, L(k := L k @ [r]))"
    by (simp add: calm_def sent_whole_def send_result_unfold Let_def)
  ultimately show ?thesis using result_progress[OF ok Cons] by blast
qed

interpretation serving: step_progress "server_step e" calm "able e" "\<lambda>x. pending_work (fst x)" for e
proof
  fix x :: loop_state
  assume ok: "able e x" and todo: "pending_work (fst x) \<noteq> 0"
  obtain s Q L where x: "x = (s, Q, L)" by (cases x)
  from loop_serve[of e s Q L] ok todo obtain t L' where
    t: "server_step e x (t, Q, L')" "serves e s t" "calm x (t, Q, L')" by (auto simp: x)
  have "able e (t, Q, L')" using ok t loop_inv_step[OF server_loop_step[OF t(1)]] by (simp add: able_def serves_def)
  then show "\<exists>y. server_step e x y \<and> able e y \<and> calm x y \<and> pending_work (fst y) < pending_work (fst x)"
    using t by (intro exI[of _ "(t, Q, L')"]) (simp add: x serves_def)
qed (simp_all add: calm_def)

section \<open>A client that waits\<close>

text \<open>When no work is left, what is pending for a client can be written at once.\<close>

lemma flush:
  assumes "loop_inv e (s, Q, L)" and "\<not> crashed s" and "pending_work s = 0"
    and "conn (srv s) fd = Some c" and "fd \<noteq> server_listen_fd (srv s)"
  shows "\<exists>t. (server_step e)\<^sup>*\<^sup>* (s, Q, L) (t, Q, L) \<and> conn (srv t) fd = Some c \<and> idle (srv t) Q L c"
proof -
  have x: "exchange e (s, Q, L)" and d: "delivered (srv s) L" and re: "replies e (Q c) (L c)"
    using assms(1) by (simp_all add: loop_inv_def deliver_inv_def)
  have "jobs_of e s fd = {#}" using assms(3) by (simp add: jobs_of_def jobs_list_idle)
  then have len: "length (L c) = length (Q c)"
    using exchangeD(2)[OF x assms(4)] re by (simp add: replies_def)
  show ?thesis
  proof (cases "write_buffers (srv s) fd")
    case None
    then have "idle (srv s) Q L c"
      using delivered_open(1)[OF d assms(4)] len by (simp add: idle_def pending_def)
    then show ?thesis using assms(4) by blast
  next
    case (Some ob)
    let ?n = "int (length (buffer ob) - sent_bytes ob)"
    let ?t = "s\<lparr>srv := handle_write ?n fd (srv s)\<rparr>"
    have less: "sent_bytes ob < length (buffer ob)"
      using assms(1) Some by (simp add: loop_inv_def outgoing_ok_def)
    then have t: "write_buffers (srv ?t) fd = None" "conn (srv ?t) = conn (srv s)"
      using Some by (simp_all add: handle_write_def Let_def)
    have step: "server_step e (s, Q, L) (?t, Q, L)"
      unfolding server_step_def
      by (intro exI, rule fa_write[OF assms(2,5)]) (use Some less in \<open>simp_all add: send_within_def\<close>)
    from loop_inv_step[OF server_loop_step[OF this] assms(1)] have "delivered (srv ?t) L"
      by (simp add: loop_inv_def deliver_inv_def)
    then have "idle (srv ?t) Q L c"
      using delivered_open(1)[of "srv ?t" L fd c] t assms(4) len by (simp add: idle_def pending_def)
    then show ?thesis using r_into_rtranclp[of "server_step e", OF step] t(2) assms(4) by fastforce
  qed
qed

text \<open>C18. No client waits in vain: from every state the closed loop can reach in which the process has not
  ended, over a time-ordered, nonempty file, with at least one worker and queries that neither wrap nor
  reach the unsafe end of the file, the server can go on, by steps of the workers and of the main thread
  alone (a worker takes or finishes a query, the main thread sends a result or writes pending bytes),
  until the connection of a given client carries exactly the framed abstract responses to all its
  queries, in order.\<close>

theorem waiting_client_is_served:
  assumes "start_run c0 = Inr s0" and "(loop_step e)\<^sup>*\<^sup>* (sys_init s0 n, \<lambda>_. [], \<lambda>_. []) (s, Q, L)"
    and "\<not> crashed s" and "0 < n" and "time_sorted (records e)" and "records e \<noteq> []"
    and "\<forall>w \<in> set (received s). no_wrap (work_query w) \<and> covers (end_time_point (work_query w)) e"
    and "conn (srv s) fd = Some c" and "fd \<noteq> server_listen_fd (srv s)"
  shows "\<exists>t L'. (server_step e)\<^sup>*\<^sup>* (s, Q, L) (t, Q, L') \<and> conn (srv t) fd = Some c
    \<and> wire (srv t) c = concat (map (frame \<circ> response_spec (records e)) (Q c))"
proof -
  have inv: "loop_inv e (s, Q, L)" using loop_inv_reachable[OF assms(1,2)] .
  have reach: "sys_reachable e c0 n s" using loop_sys_reachable[OF assms(1,2)] .
  have "able e (s, Q, L)"
    using inv assms(3) reachable_workers[OF reach assms(4)] reachable_answerable[OF reach assms(5-7)]
    by (simp add: able_def)
  from serving.reaches_goal[OF this] obtain u L' where u: "(server_step e)\<^sup>*\<^sup>* (s, Q, L) (u, Q, L')"
    "able e (u, Q, L')" "calm (s, Q, L) (u, Q, L')" "pending_work u = 0"
    by (auto simp: calm_def)
  from flush[of e u Q L' fd c] u assms(8,9) obtain t where
    t: "(server_step e)\<^sup>*\<^sup>* (u, Q, L') (t, Q, L')" "conn (srv t) fd = Some c" "idle (srv t) Q L' c"
    by (auto simp: able_def calm_def)
  have run: "(server_step e)\<^sup>*\<^sup>* (s, Q, L) (t, Q, L')" using u(1) t(1) by (rule rtranclp_trans)
  have "asked (s, Q, L)" using asked.reachable_inv[OF assms(2)] by simp
  then have "\<forall>q \<in> set (Q c). no_wrap q \<and> covers (end_time_point q) e"
    using assms(7) by (fastforce simp: asked_def)
  from idle_answers[OF closed.steps_inv[OF server_loop_steps[OF run] inv] assms(5,6) this t(3)] show ?thesis
    using run t(2) by blast
qed

theorem waiting_client_is_served_witness:
  "\<exists>t L'. (server_step sample_engine)\<^sup>*\<^sup>* (sample_busy, (\<lambda>_. [])(0 := [sample_query]), \<lambda>_. [])
       (t, (\<lambda>_. [])(0 := [sample_query]), L')
     \<and> wire (srv t) 0 = frame (response_spec sample_trades sample_query)"
proof -
  have ok: "\<not> crashed sample_busy" "received sample_busy = [sample_item]" "conn (srv sample_busy) 7 = Some 0"
    "(7 :: i32) \<noteq> server_listen_fd (srv sample_busy)"
    by (simp_all add: sample_busy_def sys_init_def sample_srv1_def empty_server_def)
  then have "\<forall>w \<in> set (received sample_busy). no_wrap (work_query w)
      \<and> covers (end_time_point (work_query w)) sample_engine"
    using sample_item_ok sample_covers by simp
  from waiting_client_is_served[OF sample_start sample_busy_loop ok(1) _ sample_records(2,1) this ok(3,4)]
  show ?thesis by auto
qed

end
