(* ===== verification/Fair_Loop.thy ===== *)
theory Fair_Loop
  imports Loop_Progress
begin

text \<open>
  Liveness of the closed loop of \<open>Closed_Loop\<close> under weak fairness. \<open>Loop_Progress\<close> shows that a client
  that waits can be served; here every fair run serves it, whatever the other clients do meanwhile:
  the queues are first in, first out, so what is ahead of a query or of its result only gets less.
\<close>

section \<open>Where a query is\<close>

text \<open>
  The descriptors of the queries that wait and of the results that wait, in order, and whether a
  worker holds a query of \<open>fd\<close>. A client that waits has at most one query on the way.
\<close>

definition waiting_fds :: "system \<Rightarrow> i32 list" where
  "waiting_fds s = map work_fd (work_queue (srv s))"

definition result_fds :: "system \<Rightarrow> i32 list" where
  "result_fds s = map result_fd (results_queue (srv s))"

definition holds :: "i32 \<Rightarrow> worker \<Rightarrow> bool" where
  "holds fd w = (case w of Free \<Rightarrow> False | Busy i \<Rightarrow> work_fd i = fd)"

lemma holds_simps [simp]: "\<not> holds fd Free" "holds fd (Busy i) \<longleftrightarrow> work_fd i = fd"
  by (simp_all add: holds_def)

definition ahead :: "i32 \<Rightarrow> i32 list \<Rightarrow> nat" where
  "ahead fd xs = length (takeWhile (\<lambda>x. x \<noteq> fd) xs)"

lemma ahead_simps [simp]:
  "ahead fd (x # xs) = (if x = fd then 0 else Suc (ahead fd xs))"
  "fd \<in> set xs \<Longrightarrow> ahead fd (xs @ ys) = ahead fd xs"
  by (simp_all add: ahead_def)

definition holder :: "i32 \<Rightarrow> worker list \<Rightarrow> nat" where
  "holder fd ws = length (takeWhile (\<lambda>w. \<not> holds fd w) ws)"

lemma holder_cong: "map (holds fd) ws = map (holds fd) vs \<Longrightarrow> holder fd ws = holder fd vs"
  unfolding holder_def by (induction ws vs rule: list_induct2') auto

lemma holder_holds: "\<exists>w \<in> set ws. holds fd w \<Longrightarrow> holder fd ws < length ws \<and> holds fd (ws ! holder fd ws)"
  unfolding holder_def by (induction ws) auto

text \<open>
  How far the client of \<open>fd\<close> is from its answer: the stage of its query, and what is ahead of it there.
\<close>

definition distance :: "i32 \<Rightarrow> system \<Rightarrow> nat \<times> nat" where
  "distance fd s =
     (if fd \<in> set (waiting_fds s)
      then (3, 2 * ahead fd (waiting_fds s) + (if Free \<in> set (workers s) then 0 else 1))
      else if \<exists>w \<in> set (workers s). holds fd w then (2, 0)
      else if fd \<in> set (result_fds s) then (1, ahead fd (result_fds s))
      else (0, length (pending (srv s) fd)))"

definition next_action :: "i32 \<Rightarrow> system \<Rightarrow> action" where
  "next_action fd s =
     (if fd \<in> set (waiting_fds s) then (if Free \<in> set (workers s) then Take else Finish 0)
      else if \<exists>w \<in> set (workers s). holds fd w then Finish (holder fd (workers s))
      else if fd \<in> set (result_fds s) then Main
      else Write fd)"

abbreviation nearer :: "((nat \<times> nat) \<times> nat \<times> nat) set" where
  "nearer \<equiv> less_than <*lex*> less_than"

definition no_farther :: "i32 \<Rightarrow> system \<Rightarrow> system \<Rightarrow> bool" where
  "no_farther fd s t \<longleftrightarrow> (distance fd t, distance fd s) \<in> nearer
     \<or> distance fd t = distance fd s \<and> next_action fd t = next_action fd s"

lemma no_farther_same:
  "waiting_fds t = waiting_fds s \<Longrightarrow> workers t = workers s \<Longrightarrow> result_fds t = result_fds s \<Longrightarrow>
    length (pending (srv t) fd) \<le> length (pending (srv s) fd) \<Longrightarrow> no_farther fd s t"
  by (auto simp: no_farther_def distance_def next_action_def)

text \<open>Each descriptor is at one place only, once.\<close>

definition alone :: "i32 \<Rightarrow> system \<Rightarrow> bool" where
  "alone fd s \<longleftrightarrow> count_list (waiting_fds s) fd + count_list (map work_fd (busy_items (workers s))) fd
     + count_list (result_fds s) fd \<le> 1"

lemma length_filter_fst: "length (filter (\<lambda>j. fst j = fd) xs) = count_list (map fst xs) fd"
  by (induction xs) auto

lemma count_jobs:
  "size (jobs_of e s fd) = count_list (waiting_fds s) fd
     + count_list (map work_fd (busy_items (workers s))) fd + count_list (result_fds s) fd"
  unfolding jobs_of_def size_mset jobs_list_def length_filter_fst
  by (simp add: waiting_fds_def result_fds_def made_def comp_def)

lemma busy_fd_iff: "fd \<in> work_fd ` set (busy_items ws) \<longleftrightarrow> (\<exists>w \<in> set ws. holds fd w)"
  by (induction ws rule: busy_items.induct) auto

lemma loop_alone:
  assumes "loop_inv e (s, Q, L)" and "conn (srv s) fd = Some c"
  shows "alone fd s"
proof -
  have x: "exchange e (s, Q, L)" using assms(1) by (simp add: loop_inv_def)
  have "size (jobs_of e s fd) \<le> 1"
    using exchangeD(2,3)[OF x assms(2)] by simp
  then show ?thesis by (simp add: alone_def count_jobs)
qed

section \<open>The workers bring the answer nearer\<close>

lemma holds_update:
  assumes "worker_at s i w" and "holds fd v = holds fd w"
  shows "map (holds fd) ((workers s)[i := v]) = map (holds fd) (workers s)"
  using assms by (auto simp: worker_at_def map_update intro: list_update_same_conv[THEN iffD2])

lemma holds_map_cong:
  assumes "map (holds fd) ws = map (holds fd) vs"
  shows "(\<exists>w \<in> set ws. holds fd w) \<longleftrightarrow> (\<exists>w \<in> set vs. holds fd w)"
  using arg_cong[OF assms, of "\<lambda>bs. True \<in> set bs"] by auto

lemma take_nearer:
  assumes "worker_at s i Free" and "work_queue (srv s) = w # rest" and "work_queue (srv t) = rest"
    and "workers t = (workers s)[i := Busy w]" and "alone fd s" and "fd \<in> set (waiting_fds s)"
  shows "(distance fd t, distance fd s) \<in> nearer"
proof -
  have free: "Free \<in> set (workers s)" and i: "i < length (workers s)"
    using assms(1) nth_mem by (fastforce simp: worker_at_def)+
  show ?thesis
  proof (cases "work_fd w = fd")
    case True
    then have "fd \<notin> set (waiting_fds t)"
      using assms(2,3,5) by (auto simp: alone_def waiting_fds_def count_list_0_iff)
    moreover have "\<exists>w \<in> set (workers t). holds fd w"
      using i True unfolding assms(4) by (intro bexI[OF _ set_update_memI[of i]]) simp_all
    ultimately show ?thesis using assms(6) by (simp add: distance_def)
  next
    case False
    then have "waiting_fds s = work_fd w # waiting_fds t" using assms(2,3) by (simp add: waiting_fds_def)
    then show ?thesis using assms(6) free False by (simp add: distance_def)
  qed
qed

lemma take_no_farther:
  assumes "worker_at s i Free" and "work_queue (srv s) = w # rest" and "work_queue (srv t) = rest"
    and "workers t = (workers s)[i := Busy w]" and "alone fd s"
    and "results_queue (srv t) = results_queue (srv s)" and "pending (srv t) fd = pending (srv s) fd"
  shows "no_farther fd s t"
proof (cases "fd \<in> set (waiting_fds s)")
  case True
  then show ?thesis using take_nearer[OF assms(1-5)] by (simp add: no_farther_def)
next
  case False
  then have w: "work_fd w \<noteq> fd" and t: "fd \<notin> set (waiting_fds t)"
    using assms(2,3) by (auto simp: waiting_fds_def)
  have h: "map (holds fd) (workers t) = map (holds fd) (workers s)"
    unfolding assms(4) using w by (intro holds_update[OF assms(1)]) simp
  show ?thesis
    using False t holds_map_cong[OF h] holder_cong[OF h] assms(6,7)
    by (simp add: no_farther_def distance_def next_action_def result_fds_def)
qed

lemma finish_nearer:
  assumes "worker_at s i (Busy w)" and "work_queue (srv t) = work_queue (srv s)"
    and "workers t = (workers s)[i := Free]" and "results_queue (srv t) = results_queue (srv s) @ [r]"
    and "result_fd r = work_fd w" and "alone fd s"
    and "fd \<in> set (waiting_fds s) \<and> Free \<notin> set (workers s) \<or> fd \<notin> set (waiting_fds s) \<and> work_fd w = fd"
  shows "(distance fd t, distance fd s) \<in> nearer"
proof -
  have i: "i < length (workers s)" "workers s ! i = Busy w" using assms(1) by (simp_all add: worker_at_def)
  have wt: "waiting_fds t = waiting_fds s" using assms(2) by (simp add: waiting_fds_def)
  from assms(7) show ?thesis
  proof
    assume "fd \<in> set (waiting_fds s) \<and> Free \<notin> set (workers s)"
    moreover have "Free \<in> set (workers t)" using i(1) unfolding assms(3) by (rule set_update_memI)
    ultimately show ?thesis by (simp add: distance_def wt)
  next
    assume a: "fd \<notin> set (waiting_fds s) \<and> work_fd w = fd"
    have "mset (busy_items (workers s)) = add_mset w (mset (busy_items (workers t)))"
      using busy_update[OF assms(1), of Free] by (simp add: assms(3))
    then have "mset (map work_fd (busy_items (workers s)))
        = add_mset fd (mset (map work_fd (busy_items (workers t))))" using a by simp
    then have "count_list (map work_fd (busy_items (workers t))) fd = 0"
      using assms(6) by (simp add: alone_def flip: count_mset)
    then have "fd \<notin> work_fd ` set (busy_items (workers t))"
      unfolding count_list_0_iff by simp
    then have "\<not> (\<exists>w \<in> set (workers t). holds fd w)" by (simp only: busy_fd_iff not_False_eq_True)
    moreover have "\<exists>w \<in> set (workers s). holds fd w" using a i nth_mem[OF i(1)] by (intro bexI[of _ "Busy w"]) simp_all
    moreover have "fd \<in> set (result_fds t)" using a assms(4,5) by (simp add: result_fds_def)
    ultimately show ?thesis using a by (simp add: distance_def wt)
  qed
qed

lemma finish_no_farther:
  assumes "worker_at s i (Busy w)" and "work_queue (srv t) = work_queue (srv s)"
    and "workers t = (workers s)[i := Free]" and "results_queue (srv t) = results_queue (srv s) @ [r]"
    and "result_fd r = work_fd w" and "alone fd s" and "pending (srv t) fd = pending (srv s) fd"
  shows "no_farther fd s t"
proof (cases "fd \<in> set (waiting_fds s) \<and> Free \<notin> set (workers s) \<or> fd \<notin> set (waiting_fds s) \<and> work_fd w = fd")
  case True
  then show ?thesis using finish_nearer[OF assms(1-6)] by (simp add: no_farther_def)
next
  case False
  have i: "i < length (workers s)" using assms(1) by (simp add: worker_at_def)
  have wt: "waiting_fds t = waiting_fds s" using assms(2) by (simp add: waiting_fds_def)
  have rt: "result_fds t = result_fds s @ [work_fd w]" using assms(4,5) by (simp add: result_fds_def)
  have free: "Free \<in> set (workers t)" using i unfolding assms(3) by (rule set_update_memI)
  show ?thesis
  proof (cases "fd \<in> set (waiting_fds s)")
    case True
    then show ?thesis using False free by (simp add: no_farther_def distance_def next_action_def wt)
  next
    case out: False
    then have w: "work_fd w \<noteq> fd" using False by blast
    then have h: "map (holds fd) (workers t) = map (holds fd) (workers s)"
      unfolding assms(3) by (intro holds_update[OF assms(1)]) simp
    show ?thesis
      using out w holds_map_cong[OF h] holder_cong[OF h] assms(7)
      by (auto simp: no_farther_def distance_def next_action_def wt rt)
  qed
qed

section \<open>The main thread brings the answer nearer\<close>

lemma send_pending:
  "result_fd r \<noteq> fd \<Longrightarrow> pending (send_result n1 n2 err r (s\<lparr>results_queue := rest\<rparr>)) fd = pending s fd"
  by (simp add: pending_def send_result_unfold Let_def)

lemma send_nearer:
  assumes "results_queue (srv s) = r # rest" and "srv t = send_result n1 n2 err r ((srv s)\<lparr>results_queue := rest\<rparr>)"
    and "workers t = workers s" and "alone fd s"
    and "fd \<notin> set (waiting_fds s)" and "\<not> (\<exists>w \<in> set (workers s). holds fd w)" and "fd \<in> set (result_fds s)"
  shows "(distance fd t, distance fd s) \<in> nearer"
proof -
  have w: "waiting_fds t = waiting_fds s" and rs: "result_fds s = result_fd r # result_fds t"
    using assms(1,2) by (simp_all add: waiting_fds_def result_fds_def)
  show ?thesis
  proof (cases "result_fd r = fd")
    case True
    then have "fd \<notin> set (result_fds t)" using assms(4) by (simp add: alone_def rs count_list_0_iff)
    then show ?thesis using assms(3,5-7) by (simp add: distance_def w)
  next
    case False
    then show ?thesis using assms(3,5-7) by (simp add: distance_def w rs)
  qed
qed

lemma send_no_farther:
  assumes "results_queue (srv s) = r # rest" and "srv t = send_result n1 n2 err r ((srv s)\<lparr>results_queue := rest\<rparr>)"
    and "workers t = workers s" and "alone fd s"
  shows "no_farther fd s t"
proof -
  have w: "waiting_fds t = waiting_fds s" and rs: "result_fds s = result_fd r # result_fds t"
    using assms(1,2) by (simp_all add: waiting_fds_def result_fds_def)
  consider (there) "fd \<notin> set (waiting_fds s)" "\<not> (\<exists>w \<in> set (workers s). holds fd w)" "fd \<in> set (result_fds s)"
    | (earlier) "fd \<in> set (waiting_fds s) \<or> (\<exists>w \<in> set (workers s). holds fd w)"
    | (out) "fd \<notin> set (waiting_fds s)" "\<not> (\<exists>w \<in> set (workers s). holds fd w)" "fd \<notin> set (result_fds s)"
    by blast
  then show ?thesis
  proof cases
    case there
    then show ?thesis using send_nearer[OF assms] by (simp add: no_farther_def)
  next
    case earlier
    then show ?thesis using assms(3) by (auto simp: no_farther_def distance_def next_action_def w)
  next
    case out
    then have "result_fd r \<noteq> fd" "fd \<notin> set (result_fds t)" by (auto simp: rs)
    then show ?thesis
      using out assms(3) by (simp add: no_farther_def distance_def next_action_def w assms(2) send_pending)
  qed
qed

lemma write_pending:
  assumes "outgoing_ok s" and "send_within n fd s" and "0 \<le> n"
  shows "length (pending (handle_write n fd s) fd) = length (pending s fd) - nat n"
  using assms
  by (auto simp: handle_write_def pending_def send_within_def Let_def split: option.split)

lemma write_pending_other: "fd' \<noteq> fd \<Longrightarrow> pending (handle_write n fd' s) fd = pending s fd"
  by (simp add: handle_write_def pending_def Let_def split: option.split)

lemma write_closes: "n < 0 \<Longrightarrow> write_buffers s fd \<noteq> None \<Longrightarrow> conn (handle_write n fd s) fd = None"
  by (auto simp: handle_write_def)

section \<open>A client that waits\<close>

text \<open>
  The client of connection \<open>c\<close>, open as \<open>fd\<close>, has sent the queries \<open>qs\<close>. The wait is over when it has
  all its answers, when its connection is gone or when the process has ended.
\<close>

definition settled :: "i32 \<Rightarrow> nat \<Rightarrow> TradeDataQuery list \<Rightarrow> loop_state \<Rightarrow> bool" where
  "settled fd c qs = (\<lambda>(s, Q, L). crashed s \<or> conn (srv s) fd \<noteq> Some c \<or> idle (srv s) Q L c \<and> Q c = qs)"

definition expects :: "Query_engine \<Rightarrow> i32 \<Rightarrow> nat \<Rightarrow> TradeDataQuery list \<Rightarrow> loop_state \<Rightarrow> bool" where
  "expects e fd c qs = (\<lambda>(s, Q, L). loop_inv e (s, Q, L) \<and> workers s \<noteq> [] \<and> answerable e s
     \<and> fd \<noteq> server_listen_fd (srv s) \<and> Q c = qs \<and> \<not> settled fd c qs (s, Q, L))"

lemma expectsD:
  assumes "expects e fd c qs (s, Q, L)"
  shows "loop_inv e (s, Q, L)" and "workers s \<noteq> []" and "answerable e s" and "fd \<noteq> server_listen_fd (srv s)"
    and "Q c = qs" and "\<not> crashed s" and "conn (srv s) fd = Some c" and "\<not> idle (srv s) Q L c" and "alone fd s"
  using assms loop_alone by (auto simp: expects_def settled_def)

lemma accept_loop_listen: "accept_loop outs s = Some (Inr t) \<Longrightarrow> server_listen_fd t = server_listen_fd s"
proof (induction outs s rule: accept_loop.induct)
  case (4 fd getfl setfl ctl outs s)
  then show ?case by (auto simp: bindR_eq_Inr add_to_epoll_def bindE_eq_Inr Let_def)
qed auto

lemma loop_static:
  "loop_step e x y \<Longrightarrow> server_listen_fd (srv (fst y)) = server_listen_fd (srv (fst x))
     \<and> length (workers (fst y)) = length (workers (fst x))"
proof (induction rule: loop_step.induct)
  case (lp_accept s ev out t Q L)
  then show ?case using accept_loop_listen[of "accepts out"] by (simp add: dispatch_def)
next
  case (lp_worker s t q rq Q L)
  then show ?case using pool.step_rel by simp
qed (auto simp: send_result_unfold handle_write_def Let_def split: option.split)

text \<open>A step of the loop, seen from the queues.\<close>

lemma loop_no_farther:
  assumes "loop_step e x y" and "expects e fd c qs x" and "\<not> settled fd c qs y"
  shows "no_farther fd (fst x) (fst y) \<and> fst (snd y) c = qs"
  using assms
proof (induction rule: loop_step.induct)
  case (lp_accept s ev out t Q L)
  have "accept_loop (accepts out) (srv s) = Some (Inr t)" using lp_accept(2,3) by (simp add: dispatch_def)
  from accept_loop_effect[OF this] show ?case
    using expectsD(5)[OF lp_accept(6)]
    by (auto intro!: no_farther_same simp: waiting_fds_def result_fds_def pending_def)
next
  case (lp_query s fd' k Q L pad q left t)
  note ex = expectsD[OF lp_query(6)]
  have other: "k \<noteq> c" "fd' \<noteq> fd" using lp_query(3,4) ex(7,8) by auto
  have t: "t = (srv s)\<lparr>work_queue := work_queue (srv s) @ [\<lparr>work_fd = fd', work_query = q\<rparr>]\<rparr>"
    using lp_query(5) by (simp add: TSQueue_push_def received_query_def)
  then show ?case
    using other ex(5) by (auto simp: no_farther_def distance_def next_action_def waiting_fds_def result_fds_def
        pending_def)
next
  case (lp_hang_up s fd' k Q L out t)
  note ex = expectsD[OF lp_hang_up(7)]
  have other: "fd' \<noteq> fd" using lp_hang_up(3,4) ex(7,8) by auto
  have t: "t = erase_buffer fd' (close_fd fd' (srv s))" using lp_hang_up(5,6) by auto
  show ?case
    using other ex(5) by (auto intro!: no_farther_same simp: t waiting_fds_def result_fds_def pending_def)
next
  case (lp_write s fd' n Q L)
  note ex = expectsD[OF lp_write(4)]
  have o: "outgoing_ok (srv s)" using ex(1) by (simp add: loop_inv_def)
  have "length (pending (handle_write n fd' (srv s)) fd) \<le> length (pending (srv s) fd)"
  proof (cases "fd' = fd \<and> n < 0 \<and> write_buffers (srv s) fd \<noteq> None")
    case True
    then show ?thesis using lp_write(5) write_closes by (simp add: settled_def)
  next
    case False
    then show ?thesis
      using write_pending[OF o lp_write(3)] write_pending_other[of fd' fd n]
      by (cases "fd' = fd"; cases "n < 0") (auto simp: handle_write_def)
  qed
  then show ?case
    using ex(5) by (auto intro!: no_farther_same simp: waiting_fds_def result_fds_def)
next
  case (lp_worker s t q rq Q L)
  note ex = expectsD[OF lp_worker(5)]
  have p: "pending (srv t) fd = pending (srv s) fd" by (simp add: lp_worker(2) pending_def)
  from lp_worker(1,3,4) have "no_farther fd s t"
  proof (cases rule: worker_step_cases)
    case same
    then show ?thesis using p by (auto intro!: no_farther_same simp: waiting_fds_def result_fds_def)
  next
    case (take i w rest)
    show ?thesis using take_no_farther[OF take(1-3,5) ex(9) take(4) p] .
  next
    case (finish i w r)
    show ?thesis using finish_no_farther[OF finish(1,3,5,4) worker_process_fd[OF finish(2)] ex(9) p] .
  qed
  then show ?case using ex(5) by simp
next
  case (lp_result s r rest k n1 n2 Q L err)
  note ex = expectsD[OF lp_result(6)]
  have "results_queue (srv s) = r # rest" using lp_result(2) by (simp add: pop_Some_iff)
  from send_no_farther[OF this] show ?case using ex(5,9) by simp
qed

text \<open>The client goes on waiting, or its wait is over.\<close>

lemma expects_step:
  assumes "loop_step e x y" and "answerable e (fst y)" and "expects e fd c qs x"
  shows "settled fd c qs y \<or> expects e fd c qs y \<and> no_farther fd (fst x) (fst y)"
proof (cases "settled fd c qs y")
  case False
  obtain s Q L t Q' L' where xy: "x = (s, Q, L)" "y = (t, Q', L')" by (cases x, cases y)
  note ex = expectsD[OF assms(3)[unfolded xy]]
  have inv: "loop_inv e y" using loop_inv_step[OF assms(1)] ex(1) by (simp add: xy)
  have "length (workers t) = length (workers s)" "server_listen_fd (srv t) = server_listen_fd (srv s)"
    using loop_static[OF assms(1)] by (simp_all add: xy)
  moreover have "workers t \<noteq> []" using calculation(1) ex(2) by (metis length_0_conv)
  ultimately show ?thesis
    using loop_no_farther[OF assms(1,3) False] inv ex(4) assms(2) False by (simp add: expects_def xy)
qed simp

lemma action_cases:
  obtains (take) "next_action fd s = Take" "fd \<in> set (waiting_fds s)" "Free \<in> set (workers s)"
    | (full) "next_action fd s = Finish 0" "fd \<in> set (waiting_fds s)" "Free \<notin> set (workers s)"
    | (held) "next_action fd s = Finish (holder fd (workers s))" "fd \<notin> set (waiting_fds s)"
        "\<exists>w \<in> set (workers s). holds fd w"
    | (there) "next_action fd s = Main" "fd \<notin> set (waiting_fds s)"
        "\<not> (\<exists>w \<in> set (workers s). holds fd w)" "fd \<in> set (result_fds s)"
    | (out) "next_action fd s = Write fd" "fd \<notin> set (waiting_fds s)"
        "\<not> (\<exists>w \<in> set (workers s). holds fd w)" "fd \<notin> set (result_fds s)"
  unfolding next_action_def by (auto split: if_splits)

text \<open>The action that is due is possible.\<close>

lemma action_enabled:
  assumes "expects e fd c qs (s, Q, L)"
  shows "\<exists>y. fair_act e (next_action fd s) (s, Q, L) y"
proof -
  note ex = expectsD[OF assms]
  have finish: "\<exists>y. fair_act e (Finish i) (s, Q, L) y" if i: "i < length (workers s)" "workers s ! i \<noteq> Free" for i
  proof -
    obtain w where w: "worker_at s i (Busy w)" using i by (cases "workers s ! i") (auto simp: worker_at_def)
    then obtain r where "worker_process e w = Some (Inr r)"
      using ex(3) busy_items_set[OF w] by (auto simp: answerable_def)
    from fa_finish[OF ex(6) w this] show ?thesis by blast
  qed
  show ?thesis
  proof (cases rule: action_cases[of fd s])
    case take
    then obtain i w rest where "worker_at s i Free" "TSQueue_pop (work_queue (srv s)) = Some (w, rest)"
      by (cases "work_queue (srv s)") (auto simp: worker_at_def in_set_conv_nth waiting_fds_def TSQueue_pop_def)
    from fa_take[OF ex(6) this, of e Q L] show ?thesis unfolding take(1) by blast
  next
    case full
    then have "workers s ! 0 \<noteq> Free" using ex(2) nth_mem[of 0 "workers s"] by (metis length_greater_0_conv)
    then show ?thesis using finish[of 0] full ex(2) by (simp add: next_action_def)
  next
    case held
    then have "workers s ! holder fd (workers s) \<noteq> Free" using holder_holds by force
    then show ?thesis using finish[of "holder fd (workers s)"] holder_holds[OF held(3)] held
      by (simp add: next_action_def)
  next
    case there
    then obtain r rest where q: "results_queue (srv s) = r # rest"
      by (cases "results_queue (srv s)") (auto simp: result_fds_def)
    then obtain k where "conn (srv s) (result_fd r) = Some k"
      using result_has_client[OF ex(1), of r] by auto
    then show ?thesis
      using fa_main[OF ex(6) _ \<open>conn (srv s) (result_fd r) = Some k\<close>, of rest 4 0 e Q L] q there
      by (auto simp: next_action_def pop_Some_iff)
  next
    case out
    have x: "exchange e (s, Q, L)" and d: "delivered (srv s) L" and re: "replies e (Q c) (L c)"
      using ex(1) by (simp_all add: loop_inv_def deliver_inv_def)
    have "fd \<notin> work_fd ` set (busy_items (workers s))" using out(3) by (simp only: busy_fd_iff not_False_eq_True)
    then have "size (jobs_of e s fd) = 0"
      using out(2,4) by (simp add: count_jobs count_list_0_iff)
    then have "length (L c) = length (Q c)"
      using exchangeD(2)[OF x ex(7)] re by (simp add: replies_def)
    then have "pending (srv s) fd \<noteq> []"
      using delivered_open(1)[OF d ex(7)] ex(8) by (auto simp: idle_def)
    then obtain ob where ob: "write_buffers (srv s) fd = Some ob" "sent_bytes ob < length (buffer ob)"
      by (auto simp: pending_def split: option.splits)
    then have "send_within 1 fd (srv s)" by (simp add: send_within_def)
    from fa_write[OF ex(6,4) this, of e Q L] ob(1) out show ?thesis by (auto simp: next_action_def)
  qed
qed

text \<open>And brings the answer nearer.\<close>

lemma action_nearer:
  assumes "fair_act e (next_action fd s) (s, Q, L) y" and "expects e fd c qs (s, Q, L)"
    and "\<not> settled fd c qs y"
  shows "(distance fd (fst y), distance fd s) \<in> nearer"
proof -
  note ex = expectsD[OF assms(2)]
  have o: "outgoing_ok (srv s)" using ex(1) by (simp add: loop_inv_def)
  show ?thesis
  proof (cases rule: action_cases[of fd s])
    case take
    from assms(1)[unfolded take(1)] show ?thesis
    proof (cases rule: fair_takeE[consumes 1])
      case (1 i w rest)
      then show ?thesis using take_nearer[OF 1(3), of w rest "fst y" fd] ex(9) take(2) by (simp add: pop_Some_iff)
    qed
  next
    case full
    from assms(1)[unfolded full(1)] show ?thesis
    proof (cases rule: fair_finishE[consumes 1])
      case (1 w r)
      then show ?thesis using finish_nearer[OF 1(3), of "fst y" r fd] worker_process_fd[OF 1(4)] ex(9) full(2,3)
        by (simp add: TSQueue_push_def)
    qed
  next
    case held
    from assms(1)[unfolded held(1)] show ?thesis
    proof (cases rule: fair_finishE[consumes 1])
      case (1 w r)
      have "work_fd w = fd" using holder_holds[OF held(3)] 1(3) by (simp add: worker_at_def)
      then show ?thesis using finish_nearer[OF 1(3), of "fst y" r fd] worker_process_fd[OF 1(4)] ex(9) held(2) 1(1)
        by (simp add: TSQueue_push_def)
    qed
  next
    case there
    from assms(1)[unfolded there(1)] show ?thesis
    proof (cases rule: fair_mainE[consumes 1])
      case (1 r rest k n1 n2 err)
      then show ?thesis using send_nearer[of s r rest "fst y" n1 n2 err fd] ex(9) there(2-4) by (simp add: pop_Some_iff)
    qed
  next
    case out
    from assms(1)[unfolded out(1)] show ?thesis
    proof (cases rule: fair_writeE[consumes 1])
      case (1 n ob)
      have "0 < n" using 1 assms(3) write_closes[of n "srv s" fd] by (auto simp: settled_def intro: ccontr)
      moreover have "pending (srv s) fd \<noteq> []"
        using 1 o by (auto simp: pending_def outgoing_ok_def simp flip: not_less split: option.splits)
      ultimately have "length (pending (handle_write n fd (srv s)) fd) < length (pending (srv s) fd)"
        using write_pending[OF o 1(4)] by simp
      then show ?thesis using out(2-4) 1(1) by (simp add: distance_def waiting_fds_def result_fds_def)
    qed
  qed
qed

lemma fair_act_answerable: "fair_act e a x y \<Longrightarrow> answerable e (fst x) \<Longrightarrow> answerable e (fst y)"
proof (induction rule: fair_act.induct)
  case (fa_take s i w rest Q L)
  then show ?case using busy_items_update[of "workers s" i "Busy w"] by (auto simp: answerable_def pop_Some_iff)
next
  case (fa_finish s i w r Q L)
  then show ?case using busy_items_update[of "workers s" i Free] by (auto simp: answerable_def)
qed (auto simp: answerable_def)

section \<open>Every client is answered\<close>

interpretation fair_server: fair_response "\<lambda>x y. loop_step e x y \<and> answerable e (fst y)" "fair_act e"
    "expects e fd c qs" "settled fd c qs" "\<lambda>x. distance fd (fst x)" nearer "\<lambda>x. next_action fd (fst x)"
  for e fd c qs
proof
  fix x y
  assume wait: "expects e fd c qs x"
  then show "\<exists>y. fair_act e (next_action fd (fst x)) x y"
    using action_enabled by (cases x) auto
  show "settled fd c qs y \<or> expects e fd c qs y \<and> ((distance fd (fst y), distance fd (fst x)) \<in> nearer
      \<or> distance fd (fst y) = distance fd (fst x) \<and> next_action fd (fst y) = next_action fd (fst x))"
    if "loop_step e x y \<and> answerable e (fst y)"
    using expects_step[OF _ _ wait] that by (auto simp: no_farther_def)
  show "settled fd c qs y \<or> expects e fd c qs y \<and> (distance fd (fst y), distance fd (fst x)) \<in> nearer"
    if act: "fair_act e (next_action fd (fst x)) x y"
  proof -
    obtain s Q L where x: "x = (s, Q, L)" by (cases x)
    have "answerable e (fst y)"
      using fair_act_answerable[OF act] expectsD(3)[OF wait[unfolded x]] by (simp add: x)
    from expects_step[OF fair_act_step[OF act] this wait] show ?thesis
      using action_nearer[of e fd s Q L y c qs] act wait by (auto simp: x)
  qed
qed (simp add: wf_lex_prod)

text \<open>C2. Every client is answered: take any run of the closed loop, infinite or ending, over a time-ordered,
  nonempty file, with at least one worker and queries that neither wrap nor reach the unsafe end of
  the file. If it is weakly fair (a free worker takes a query that keeps waiting, a worker with a
  query it can answer finishes, the main thread sends a result that keeps waiting, and a send to a
  client for which bytes are pending is made and moves at least one byte or fails), then at any time,
  whatever the other clients do, a client with an open connection gets the framed abstract responses
  to all the queries it has sent, in order, unless the process ends or a send to this client fails.\<close>

theorem fair_clients_are_answered:
  assumes "start_run c0 = Inr s0" and "f 0 = (sys_init s0 n, \<lambda>_. [], \<lambda>_. [])"
    and "is_run (loop_step e) f" and "\<forall>a. weakly_fair (fair_act e a) f"
    and "0 < n" and "time_sorted (records e)" and "records e \<noteq> []"
    and "\<forall>m. \<forall>w \<in> set (received (fst (f m))). no_wrap (work_query w) \<and> covers (end_time_point (work_query w)) e"
    and "f k = (s, Q, L)" and "conn (srv s) fd = Some c" and "fd \<noteq> server_listen_fd (srv s)"
  shows "\<exists>m \<ge> k. \<exists>s' Q' L'. f m = (s', Q', L') \<and> (crashed s' \<or> conn (srv s') fd \<noteq> Some c
    \<or> Q' c = Q c \<and> wire (srv s') c = concat (map (frame \<circ> response_spec (records e)) (Q c)))"
proof -
  let ?init = "(sys_init s0 n, \<lambda>_ :: nat. [] :: TradeDataQuery list, \<lambda>_ :: nat. [] :: ResultItem list)"
  have steps: "(loop_step e)\<^sup>*\<^sup>* ?init (f m)" for m using run_steps[OF assms(3), of m] assms(2) by simp
  then have inv: "loop_inv e (f m)" for m using loop_inv_reachable[OF assms(1)] by blast
  have reach: "sys_reachable e c0 n (fst (f m))" for m
    using loop_sys_reachable[OF assms(1)] steps[of m] by (metis prod.collapse)
  then have ans: "answerable e (fst (f m))" for m using reachable_answerable assms(6-8) by blast
  have run: "is_run (\<lambda>x y. loop_step e x y \<and> answerable e (fst y)) f"
    using assms(3) ans by (auto simp: is_run_def)
  have "\<exists>m \<ge> k. settled fd c (Q c) (f m)"
  proof (cases "settled fd c (Q c) (f k)")
    case False
    have "expects e fd c (Q c) (f k)"
      using inv[of k] ans[of k] reachable_workers[OF reach[of k] assms(5)] assms(9,11) False
      by (simp add: expects_def)
    from fair_server.response[OF run assms(4) this] show ?thesis .
  qed blast
  then obtain m where m: "k \<le> m" "settled fd c (Q c) (f m)" by blast
  obtain s' Q' L' where f: "f m = (s', Q', L')" by (cases "f m")
  have "wire (srv s') c = concat (map (frame \<circ> response_spec (records e)) (Q c))"
    if "idle (srv s') Q' L' c" "Q' c = Q c"
  proof -
    have "asked (s', Q', L')" using asked.reachable_inv[OF steps[of m]] by (simp add: f)
    then have "\<forall>q \<in> set (Q' c). no_wrap q \<and> covers (end_time_point q) e"
      using assms(8)[rule_format, of _ m] by (fastforce simp: asked_def f)
    from idle_answers[OF inv[of m, unfolded f] assms(6,7) this that(1)] show ?thesis by (simp add: that(2))
  qed
  then show ?thesis using m by (auto simp: f settled_def)
qed

section \<open>A fair run\<close>

text \<open>The session of \<open>Closed_Loop\<close>, after which nothing is left to do.\<close>

definition served_states :: "loop_state list" where
  "served_states =
     (let Q = (\<lambda>_. [])(0 := [sample_query])
      in [(sys_init sample_srv0 1, \<lambda>_. [], \<lambda>_. []), (sys_init sample_srv1 1, \<lambda>_. [], \<lambda>_. []),
          (sample_waiting, Q, \<lambda>_. []), (sample_busy, Q, \<lambda>_. []), (sample_answered, Q, \<lambda>_. []),
          (sample_done, Q, (\<lambda>_. [])(0 := [sample_response]))])"

definition served_run :: "nat \<Rightarrow> loop_state" where
  "served_run m = served_states ! min m 5"

lemma less_five: "m < 5 \<longleftrightarrow> m = 0 \<or> m = 1 \<or> m = 2 \<or> m = 3 \<or> m = (4 :: nat)"
  by auto

lemma sample_is_run: "is_run (loop_step sample_engine) served_run"
proof -
  have "loop_step sample_engine (served_run m) (served_run (Suc m))" if "m < 5" for m
    using that sample_loop_steps unfolding less_five by (auto simp: served_run_def served_states_def Let_def)
  moreover have "served_run (Suc m) = served_run m" if "\<not> m < 5" for m
    using that by (simp add: served_run_def min_def)
  ultimately show ?thesis by (auto simp: is_run_def)
qed

lemma sample_done_quiet: "\<not> fair_act e a (sample_done, Q, L) y"
proof
  assume "fair_act e a (sample_done, Q, L) y"
  moreover have "work_queue (srv sample_done) = []" "results_queue (srv sample_done) = []"
    "workers sample_done = [Free]" "write_buffers (srv sample_done) = (\<lambda>_. None)"
    by (simp_all add: sample_done_def sample_answered_def sys_init_def sample_srv1_def empty_server_def
        send_result_unfold Let_def sample_response_def)
  ultimately show False by (cases rule: fair_act.cases) (auto simp: TSQueue_pop_def worker_at_def)
qed

lemma sample_fair: "weakly_fair (fair_act e a) served_run"
proof -
  have "served_run m = (sample_done, (\<lambda>_. [])(0 := [sample_query]), (\<lambda>_. [])(0 := [sample_response]))"
    if "5 \<le> m" for m
    using that by (simp add: served_run_def served_states_def Let_def)
  then have "\<not> fair_act e a (served_run (max k 5)) y" for k y using sample_done_quiet by simp
  then show ?thesis unfolding weakly_fair_def by (metis max.cobounded1)
qed

lemma sample_received: "set (received (fst (served_run m))) \<subseteq> {sample_item}"
proof -
  have "min m 5 = 5 \<or> min m 5 < 5" by auto
  then show ?thesis
    unfolding less_five
    by (auto simp: served_run_def served_states_def Let_def sys_init_def sample_waiting_def sample_busy_def
        sample_answered_def sample_done_def)
qed

theorem fair_clients_are_answered_witness:
  "\<exists>m \<ge> 3. \<exists>s' Q' L'. served_run m = (s', Q', L') \<and> (crashed s' \<or> conn (srv s') 7 \<noteq> Some 0
     \<or> Q' 0 = [sample_query] \<and> wire (srv s') 0 = frame (response_spec sample_trades sample_query))"
proof -
  have start: "served_run 0 = (sys_init sample_srv0 1, \<lambda>_. [], \<lambda>_. [])"
    "served_run 3 = (sample_busy, (\<lambda>_. [])(0 := [sample_query]), \<lambda>_. [])"
    by (simp_all add: served_run_def served_states_def Let_def)
  have fd: "conn (srv sample_busy) 7 = Some 0" "(7 :: i32) \<noteq> server_listen_fd (srv sample_busy)"
    by (simp_all add: sample_busy_def sys_init_def sample_srv1_def empty_server_def)
  have "\<forall>m. \<forall>w \<in> set (received (fst (served_run m))). no_wrap (work_query w)
      \<and> covers (end_time_point (work_query w)) sample_engine"
    using sample_received sample_item_ok sample_covers by fast
  from fair_clients_are_answered[OF sample_start start(1) sample_is_run _ _ sample_records(2,1) this start(2) fd]
  show ?thesis using sample_fair by simp
qed

end
