(* ===== verification/Hang_Up.thy ===== *)
theory Hang_Up
  imports Pipelined
begin

text \<open>
  Clients that do not wait for their answer. A \<open>send\<close> on a connection that its peer has reset raises
  \<open>SIGPIPE\<close>, and the server neither handles the signal nor passes \<open>MSG_NOSIGNAL\<close>, so it ends the
  process; one query on the way is enough.
\<close>

section \<open>The end of the process\<close>

lemma crashed_final: "(sys_step e)\<^sup>*\<^sup>* s t \<Longrightarrow> crashed s \<Longrightarrow> t = s"
  by (induction rule: converse_rtranclp_induct) (auto dest: crashed_stuck)

text \<open>Nothing more was received, nothing was sent on \<open>k\<close>, and no peer did anything.\<close>

definition silent :: "nat \<Rightarrow> system \<Rightarrow> system \<Rightarrow> bool" where
  "silent k s t \<longleftrightarrow> received t = received s \<and> wire (srv t) k = wire (srv s) k \<and> hung_up t = hung_up s"

text \<open>The first result for a connection that was reset can end the process; those before it are sent.\<close>

lemma pipe_ends:
  assumes "\<not> crashed s" and "k \<in> hung_up s"
    and "\<exists>r \<in> set (results_queue (srv s)). conn (srv s) (result_fd r) = Some k"
  shows "\<exists>t. (own_step e)\<^sup>*\<^sup>* s t \<and> crashed t \<and> silent k s t"
  using assms
proof (induction "results_queue (srv s)" arbitrary: s)
  case (Cons r rest)
  have pop: "TSQueue_pop (results_queue (srv s)) = Some (r, rest)" using Cons(2) by (simp add: pop_Some_iff)
  show ?case
  proof (cases "conn (srv s) (result_fd r) = Some k")
    case False
    let ?u = "sent_whole r rest s"
    have u: "results_queue (srv ?u) = rest" "conn (srv ?u) = conn (srv s)" "\<not> crashed ?u" "hung_up ?u = hung_up s"
      using Cons(3) by (simp_all add: sent_whole_def send_result_unfold Let_def)
    have "silent k s ?u" using False
      by (simp add: sent_whole_def silent_def send_result_unfold Let_def transmit_def split: option.split)
    moreover have "own_step e s ?u"
      using act_result[OF Cons(3) pop, of 4 "int (length (result_bytes r))" e EAGAIN]
      by (auto simp: own_step_def sent_whole_def)
    moreover obtain t where "(own_step e)\<^sup>*\<^sup>* ?u t" "crashed t" "silent k ?u t"
      using Cons(1)[OF u(1)[symmetric] u(3)] Cons(2,4,5) False u(1,2,4) by (metis set_ConsD)
    ultimately show ?thesis by (auto simp: silent_def intro: converse_rtranclp_into_rtranclp)
  next
    case True
    have "own_step e s (s\<lparr>crashed := True\<rparr>)"
      using act_pipe_result[OF Cons(3) pop True Cons(4)] by (auto simp: own_step_def)
    then show ?thesis by (intro exI[of _ "s\<lparr>crashed := True\<rparr>"]) (auto simp: silent_def)
  qed
qed simp

section \<open>The workers on their own\<close>

definition worker_todo :: "system \<Rightarrow> nat" where
  "worker_todo s = 3 * length (work_queue (srv s)) + 2 * length (busy_items (workers s))"

text \<open>Steps of the workers: the connections stay as they are, and so do the jobs.\<close>

definition workers_only :: "Query_engine \<Rightarrow> system \<Rightarrow> system \<Rightarrow> bool" where
  "workers_only e s t \<longleftrightarrow> received t = received s \<and> wire (srv t) = wire (srv s) \<and> hung_up t = hung_up s
     \<and> conn (srv t) = conn (srv s) \<and> handled t = handled s
     \<and> (\<forall>fd. mset (jobs_list e t fd) = mset (jobs_list e s fd))"

lemma worker_todo_step:
  assumes "\<not> crashed s \<and> workers s \<noteq> [] \<and> answerable e s" and "worker_todo s \<noteq> 0"
  shows "\<exists>t. own_step e s t \<and> (\<not> crashed t \<and> workers t \<noteq> [] \<and> answerable e t) \<and> workers_only e s t
    \<and> worker_todo t < worker_todo s"
proof -
  from assms obtain t i where t: "sys_act e (Worker_thread i) s t" "serves e s t" "handled t = handled s"
    "srv t = (srv s)\<lparr>work_queue := work_queue (srv t), results_queue := results_queue (srv t)\<rparr>"
    using worker_progress[of s e] by (auto simp: worker_todo_def)
  have same: "received t = received s" using t(2) by (simp add: serves_def)
  have "conn (srv t) = conn (srv s)" "wire (srv t) = wire (srv s)" by (subst t(4), simp)+
  moreover have "hung_up t = hung_up s" using t(1) by (auto elim: worker_actE)
  ultimately have only: "workers_only e s t"
    using jobs_worker_mset[OF sys_act_step[OF t(1)] same t(3)] t(3) same by (simp add: workers_only_def)
  have "length (results_queue (srv s)) \<le> length (results_queue (srv t))"
    by (cases rule: worker_step_cases[OF sys_act_step[OF t(1)] same t(3)]) simp_all
  then have "worker_todo t < worker_todo s"
    using t(2) by (simp add: serves_def pending_work_def worker_todo_def)
  then show ?thesis using t(1,2) only by (auto simp: serves_def own_step_def)
qed

interpretation busy_workers: step_progress "own_step e" "workers_only e"
    "\<lambda>s. \<not> crashed s \<and> workers s \<noteq> [] \<and> answerable e s" worker_todo for e
  using worker_todo_step by unfold_locales (auto simp: workers_only_def)

text \<open>As long as no open connection was reset, the threads of the server do not end it.\<close>

definition unhurt :: "Query_engine \<Rightarrow> system \<Rightarrow> bool" where
  "unhurt e s \<longleftrightarrow> \<not> crashed s \<and> answerable e s \<and> hung_up s \<inter> ran (conn (srv s)) = {}"

lemma send_result_conn: "conn (send_result n1 n2 err r s) fd = Some k \<Longrightarrow> conn s fd = Some k"
  by (auto simp: send_result_unfold Let_def split: if_splits)

lemma unhurt_act:
  assumes "sys_act e a s t" and "unhurt e s" and "a \<noteq> Epoll_event" and "a \<noteq> Peer"
  shows "unhurt e t"
  using assms
proof (induction rule: sys_act.induct)
  case (act_take s i w rest)
  then show ?case using busy_items_update[of "workers s" i "Busy w"]
    by (auto simp: unhurt_def answerable_def pop_Some_iff)
next
  case (act_finish s i w r)
  then show ?case using busy_items_update[of "workers s" i Free]
    by (auto simp: unhurt_def answerable_def)
next
  case (act_throw s i w err)
  then show ?case using busy_items_set[of s i w] by (force simp: unhurt_def answerable_def)
next
  case (act_result s r rest n1 n2 err)
  then show ?case by (fastforce simp: unhurt_def answerable_def ran_def dest: send_result_conn)
qed (auto simp: unhurt_def ran_def)

interpretation unhurt: step_invariant "own_step e" "unhurt e" "unhurt e" for e
  by unfold_locales (auto simp: own_step_def dest: unhurt_act)

section \<open>One query on the way is enough\<close>

lemma waiting_job:
  assumes "w \<in> set (work_queue (srv s)) \<union> set (busy_items (workers s))"
  shows "jobs_list e s (work_fd w) \<noteq> []"
proof -
  have "(work_fd w, worker_process e w) \<in> set (jobs_list e s (work_fd w))"
    using assms by (auto simp: jobs_list_def)
  then show ?thesis by auto
qed

lemma idle_jobs:
  assumes "worker_todo s = 0" and "jobs_list e s fd \<noteq> []"
  shows "\<exists>r \<in> set (results_queue (srv s)). result_fd r = fd"
proof -
  have "jobs_list e s fd = map made (filter (\<lambda>r. result_fd r = fd) (results_queue (srv s)))"
    using assms(1) by (simp add: jobs_list_def worker_todo_def filter_map comp_def made_def)
  then show ?thesis using assms(2) by (auto simp: filter_empty_conv)
qed

text \<open>C21. A client that hangs up too early ends the server for everybody: take any state the server can
  reach over a time-ordered, nonempty file with at least one worker, in which the process runs, every
  query received so far is safe and does not wrap, and a query of the open connection \<open>k\<close> waits or is
  being answered. As long as no open connection has been reset, the threads of the server never end
  the process by their own steps (the workers', and the sends of the main thread). Once the peer of
  \<open>k\<close> has reset the connection, which it can do at once, the same steps can end it, by the \<open>SIGPIPE\<close>
  of the first send on \<open>k\<close>: no further query arrives, no further byte is sent on \<open>k\<close>, and no step
  follows.\<close>

theorem hang_up_kills_server:
  assumes "sys_reachable e c0 n s" and "\<not> crashed s" and "0 < n"
    and "time_sorted (records e)" and "records e \<noteq> []"
    and "\<forall>w \<in> set (received s). no_wrap (work_query w) \<and> covers (end_time_point (work_query w)) e"
    and "w \<in> set (work_queue (srv s)) \<union> set (busy_items (workers s))"
    and "conn (srv s) (work_fd w) = Some k"
  shows "(hung_up s \<inter> ran (conn (srv s)) = {} \<longrightarrow> (\<forall>t. (own_step e)\<^sup>*\<^sup>* s t \<longrightarrow> \<not> crashed t))
    \<and> sys_act e Peer s (s\<lparr>hung_up := insert k (hung_up s)\<rparr>)
    \<and> (\<exists>t. (own_step e)\<^sup>*\<^sup>* (s\<lparr>hung_up := insert k (hung_up s)\<rparr>) t \<and> crashed t
        \<and> received t = received s \<and> wire (srv t) k = wire (srv s) k
        \<and> (\<forall>u. (sys_step e)\<^sup>*\<^sup>* t u \<longrightarrow> u = t))"
proof (intro conjI impI)
  let ?s = "s\<lparr>hung_up := insert k (hung_up s)\<rparr>"
  have able: "workers s \<noteq> []" "answerable e s"
    using reachable_workers[OF assms(1,3)] reachable_answerable[OF assms(1,4-6)] .
  show "\<forall>t. (own_step e)\<^sup>*\<^sup>* s t \<longrightarrow> \<not> crashed t" if "hung_up s \<inter> ran (conn (srv s)) = {}"
    using unhurt.steps_inv[of e s] assms(2) able(2) that by (auto simp: unhurt_def)
  show "sys_act e Peer s ?s" using assms(2,8) by (rule act_hang_up)
  have "\<not> crashed ?s \<and> workers ?s \<noteq> [] \<and> answerable e ?s" using assms(2) able by (simp add: answerable_def)
  from busy_workers.reaches_goal[OF this] obtain t where t: "(own_step e)\<^sup>*\<^sup>* ?s t" "\<not> crashed t"
    "workers_only e ?s t" "worker_todo t = 0" by blast
  have "mset (jobs_list e t (work_fd w)) = mset (jobs_list e ?s (work_fd w))" and c: "conn (srv t) = conn (srv s)"
    and k: "k \<in> hung_up t"
    using t(3) by (auto simp: workers_only_def)
  then have "jobs_list e t (work_fd w) \<noteq> []" using waiting_job[of w ?s e] assms(7) by auto
  then obtain r where r: "r \<in> set (results_queue (srv t))" "result_fd r = work_fd w"
    using idle_jobs[OF t(4)] by blast
  then have "\<exists>r \<in> set (results_queue (srv t)). conn (srv t) (result_fd r) = Some k"
    using c assms(8) by (intro bexI[of _ r]) simp_all
  from pipe_ends[OF t(2) k this] obtain u where u: "(own_step e)\<^sup>*\<^sup>* t u" "crashed u" "silent k t u" by blast
  have "(own_step e)\<^sup>*\<^sup>* ?s u" using t(1) u(1) by (rule rtranclp_trans)
  then show "\<exists>t. (own_step e)\<^sup>*\<^sup>* ?s t \<and> crashed t \<and> received t = received s
      \<and> wire (srv t) k = wire (srv s) k \<and> (\<forall>u. (sys_step e)\<^sup>*\<^sup>* t u \<longrightarrow> u = t)"
    using u(2,3) t(3) crashed_final by (intro exI[of _ u]) (auto simp: workers_only_def silent_def)
qed

theorem hang_up_kills_server_witness:
  "(\<nexists>t. (own_step sample_engine)\<^sup>*\<^sup>* sample_busy t \<and> crashed t)
    \<and> (\<exists>t. (own_step sample_engine)\<^sup>*\<^sup>* (sample_busy\<lparr>hung_up := {0}\<rparr>) t \<and> crashed t \<and> wire (srv t) 0 = [])"
proof -
  have ok: "\<not> crashed sample_busy" "received sample_busy = [sample_item]"
    "sample_item \<in> set (work_queue (srv sample_busy)) \<union> set (busy_items (workers sample_busy))"
    "conn (srv sample_busy) (work_fd sample_item) = Some 0" "wire (srv sample_busy) 0 = []"
    "hung_up sample_busy = {}"
    by (simp_all add: sample_busy_def sys_init_def sample_srv1_def empty_server_def sample_item_def)
  then have "\<forall>w \<in> set (received sample_busy). no_wrap (work_query w)
      \<and> covers (end_time_point (work_query w)) sample_engine"
    using sample_item_ok sample_covers by simp
  from hang_up_kills_server[OF sample_busy_reachable ok(1) _ sample_records(2,1) this ok(3,4)]
  show ?thesis by (auto simp: ok(5,6))
qed

end
