(* ===== verification/Edge_Trigger.thy ===== *)
theory Edge_Trigger
  imports Delivery
begin

text \<open>
  The events of one connection. While a response is pending, \<open>send_result\<close> has the connection watched
  for input and output, edge-triggered: \<open>epoll_wait\<close> reports it once after each change, with all that
  is ready then. The loop of \<open>run\<close> looks at the output only when there is no input. So input that is
  reported together with the output hides it, and unless more input arrives before the reported one is
  read there is no second report.
\<close>

section \<open>Readiness\<close>

text \<open>
  The kernel's side as epoll(7) documents it. \<open>has_input\<close> and \<open>has_space\<close>: there is input (or the
  end of it), there is space for output. \<open>queued\<close>: the connection is on the list of those that the
  next \<open>epoll_wait\<close> looks at. \<open>reported\<close>: the events \<open>epoll_wait\<close> has returned for it and the loop
  has not come to yet.
\<close>

record readiness =
  has_input :: bool
  has_space :: bool
  queued :: bool
  reported :: "u32 option"

definition ready_mask :: "readiness \<Rightarrow> u32" where
  "ready_mask k = (if has_input k then EPOLLIN else 0) OR (if has_space k then EPOLLOUT else 0)"

text \<open>
  A call of \<open>EPOLL_CTL_MOD\<close> that changes what is watched (from \<open>old\<close> to \<open>new\<close>) puts a connection
  that is ready on the list.
\<close>

definition requeued :: "u32 option \<Rightarrow> u32 option \<Rightarrow> readiness \<Rightarrow> bool" where
  "requeued old new k = (case new of
      None \<Rightarrow> False
    | Some m \<Rightarrow> new \<noteq> old \<and> ready_mask k AND m \<noteq> 0)"

text \<open>
  What \<open>handle_read\<close> leaves: it reads until there is no more. \<open>handle_write\<close> fills the space unless
  it sends all that is pending.
\<close>

definition after_event :: "u32 \<Rightarrow> int \<Rightarrow> byte list \<Rightarrow> readiness \<Rightarrow> readiness" where
  "after_event evs n rest k =
     (if evs AND EPOLLIN \<noteq> 0 then k\<lparr>has_input := False\<rparr>
      else k\<lparr>has_space := (int (length rest) \<le> n)\<rparr>)"

text \<open>
  The steps of connection \<open>c\<close> on the descriptor \<open>fd\<close>: input arrives, space appears, \<open>epoll_wait\<close> takes
  it off the list and reports it (a level-triggered one stays on the list) or finds nothing to report,
  the loop handles the reported events, another connection's events are handled, or a result for
  another connection is sent. The flag marks the one race: input that arrives after the report and
  before it is handled.
\<close>

inductive edge_step :: "i32 \<Rightarrow> nat \<Rightarrow> bool \<Rightarrow> EpollServer \<times> readiness \<Rightarrow> EpollServer \<times> readiness \<Rightarrow> bool"
  for fd c where
  ed_input: "conn s fd = Some c \<Longrightarrow>
    edge_step fd c (reported k \<noteq> None) (s, k) (s, k\<lparr>has_input := True, queued := True\<rparr>)"
| ed_space: "conn s fd = Some c \<Longrightarrow> interest s fd = Some m \<Longrightarrow> \<not> has_space k \<Longrightarrow>
    edge_step fd c False (s, k) (s, k\<lparr>has_space := True, queued := queued k \<or> m AND EPOLLOUT \<noteq> 0\<rparr>)"
| ed_report: "conn s fd = Some c \<Longrightarrow> interest s fd = Some m \<Longrightarrow> queued k \<Longrightarrow> reported k = None \<Longrightarrow>
    evs = ready_mask k AND m \<Longrightarrow> evs \<noteq> 0 \<Longrightarrow>
    edge_step fd c False (s, k) (s, k\<lparr>queued := (m AND EPOLLET = 0), reported := Some evs\<rparr>)"
| ed_idle: "conn s fd = Some c \<Longrightarrow> interest s fd = Some m \<Longrightarrow> queued k \<Longrightarrow> reported k = None \<Longrightarrow>
    ready_mask k AND m = 0 \<Longrightarrow> edge_step fd c False (s, k) (s, k\<lparr>queued := False\<rparr>)"
| ed_handle: "conn s fd = Some c \<Longrightarrow> reported k = Some evs \<Longrightarrow> send_within (sends calls) fd s \<Longrightarrow>
    dispatch \<lparr>ev_fd = fd, ev_events = evs\<rparr> calls s = Some (Inr t) \<Longrightarrow>
    k' = after_event evs (sends calls) (pending s fd) k \<Longrightarrow>
    edge_step fd c False (s, k)
      (t, k'\<lparr>queued := queued k \<or> requeued (interest s fd) (interest t fd) k', reported := None\<rparr>)"
| ed_other: "ev_fd ev \<noteq> fd \<or> conn s fd \<noteq> Some c \<Longrightarrow> fresh_accepts (accepts calls) (dom (conn s)) \<Longrightarrow>
    dispatch ev calls s = Some (Inr t) \<Longrightarrow> edge_step fd c False (s, k) (t, k)"
| ed_result: "result_fd r \<noteq> fd \<or> conn s fd \<noteq> Some c \<Longrightarrow>
    edge_step fd c False (s, k) (send_result n1 n2 err r s, k)"

section \<open>Other descriptors\<close>

text \<open>What concerns the connection \<open>c\<close> only.\<close>

definition untouched :: "i32 \<Rightarrow> nat \<Rightarrow> EpollServer \<Rightarrow> EpollServer \<Rightarrow> bool" where
  "untouched fd c s t \<longleftrightarrow> server_listen_fd t = server_listen_fd s \<and> wire t c = wire s c
     \<and> (conn t fd = Some c \<longrightarrow> conn s fd = Some c
         \<and> write_buffers t fd = write_buffers s fd \<and> interest t fd = interest s fd)"

definition only_fd :: "i32 \<Rightarrow> nat \<Rightarrow> EpollServer \<Rightarrow> bool" where
  "only_fd fd c s \<longleftrightarrow> c < next_conn s \<and> (\<forall>fd'. conn s fd' = Some c \<longrightarrow> fd' = fd)"

lemma listen_fd_handlers:
  "server_listen_fd (send_result n1 n2 err r s) = server_listen_fd s"
  "server_listen_fd (handle_write n fd s) = server_listen_fd s"
  by (simp_all add: send_result_unfold handle_write_def Let_def split: option.split)

lemma wire_transmit_other: "only_fd fd c s \<Longrightarrow> fd' \<noteq> fd \<Longrightarrow> wire (transmit fd' bs s) c = wire s c"
  by (auto simp: only_fd_def transmit_def split: option.split)

lemma interest_others [simp]:
  "interest (transmit fd' bs s) fd = interest s fd" "interest (erase_buffer fd' s) fd = interest s fd"
  "fd' \<noteq> fd \<Longrightarrow> interest (epoll_mod fd' evs s) fd = interest s fd"
  by (simp_all add: transmit_def erase_buffer_def epoll_mod_def split: option.split)

lemma only_fd_fields:
  "only_fd fd c s \<Longrightarrow> conn t = conn s \<or> conn t = (conn s)(fd' := None) \<Longrightarrow> next_conn t = next_conn s \<Longrightarrow> only_fd fd c t"
  by (fastforce simp: only_fd_def split: if_splits)

lemma only_fd_transmit [simp]: "only_fd fd c (transmit fd' bs s) = only_fd fd c s"
  by (simp add: only_fd_def)

lemma other_send_result:
  assumes "only_fd fd c s" and "result_fd r \<noteq> fd"
  shows "untouched fd c s (send_result n1 n2 err r s)" and "only_fd fd c (send_result n1 n2 err r s)"
proof -
  show "untouched fd c s (send_result n1 n2 err r s)"
    using assms by (auto simp: untouched_def send_result_unfold Let_def wire_transmit_other)
  show "only_fd fd c (send_result n1 n2 err r s)"
    by (rule only_fd_fields[OF assms(1), of _ "result_fd r"]) (simp_all add: send_result_unfold Let_def)
qed

lemma other_handle_write:
  assumes "only_fd fd c s" and "fd' \<noteq> fd"
  shows "untouched fd c s (handle_write n fd' s)" and "only_fd fd c (handle_write n fd' s)"
proof -
  show "untouched fd c s (handle_write n fd' s)"
    using assms by (auto simp: untouched_def handle_write_def Let_def wire_transmit_other split: option.split)
  show "only_fd fd c (handle_write n fd' s)"
    by (rule only_fd_fields[OF assms(1), of _ fd']) (auto simp: handle_write_def Let_def split: option.split)
qed

lemma handle_read_keeps:
  "handle_read fd outs s = Some t \<Longrightarrow> server_listen_fd t = server_listen_fd s \<and> wire t = wire s
    \<and> next_conn t = next_conn s
    \<and> (conn t = conn s \<and> write_buffers t = write_buffers s \<and> interest t = interest s
       \<or> conn t = (conn s)(fd := None) \<and> write_buffers t = (write_buffers s)(fd := None)
         \<and> interest t = (interest s)(fd := None))"
proof (induction fd outs s rule: handle_read.induct)
  case (2 fd bs left outs s)
  then show ?case by simp
qed (auto simp: erase_buffer_def close_fd_def)

lemma other_handle_read:
  assumes "handle_read fd' outs s = Some t" and "only_fd fd c s" and "fd' \<noteq> fd"
  shows "untouched fd c s t" and "only_fd fd c t"
  using handle_read_keeps[OF assms(1)] assms(2,3) only_fd_fields[OF assms(2), of t fd']
  by (auto simp: untouched_def)

lemma only_fd_accept:
  "only_fd fd c u \<Longrightarrow> only_fd fd c (u\<lparr>conn := (conn u)(fd' \<mapsto> next_conn u), next_conn := Suc (next_conn u),
      interest := i\<rparr>)"
  unfolding only_fd_def by clarsimp

lemma other_accept_loop:
  assumes "accept_loop outs s = Some (Inr t)" and "fresh_accepts outs (dom (conn s))" and "only_fd fd c s"
  shows "untouched fd c s t \<and> only_fd fd c t"
proof -
  let ?P = "\<lambda>t. only_fd fd c t \<and> server_listen_fd t = server_listen_fd s \<and> wire t = wire s
      \<and> (conn t fd = Some c \<longrightarrow> conn s fd = Some c \<and> interest t fd = interest s fd)"
  have "?P t"
  proof (rule accept_loop_keeps[where P = ?P, OF assms(1,2)])
    fix u fd' assume u: "?P u" and fd': "conn u fd' = None"
    then have "next_conn u \<noteq> c" by (auto simp: only_fd_def)
    then show "?P (u\<lparr>conn := (conn u)(fd' \<mapsto> next_conn u), next_conn := Suc (next_conn u),
        interest := (interest u)(fd' \<mapsto> EPOLLIN)\<rparr>)"
      using u fd' only_fd_accept by simp
  qed (use assms(3) in simp)
  then show ?thesis using accept_loop_effect[OF assms(1)] by (simp add: untouched_def)
qed

lemma other_dispatch:
  assumes "dispatch ev calls s = Some (Inr t)" and "fresh_accepts (accepts calls) (dom (conn s))"
    and "ev_fd ev \<noteq> fd" and "only_fd fd c s"
  shows "untouched fd c s t \<and> only_fd fd c t"
  using assms(1) other_accept_loop[OF _ assms(2,4)] other_handle_read[OF _ assms(4,3)]
    other_handle_write[OF assms(4,3)] assms(4)
  by (auto simp: dispatch_def untouched_def split: if_splits)

text \<open>A connection that is closed stays so.\<close>

definition gone :: "nat \<Rightarrow> EpollServer \<Rightarrow> bool" where
  "gone c s \<longleftrightarrow> c < next_conn s \<and> (\<forall>fd. conn s fd \<noteq> Some c)"

lemma gone_iff: "gone c s \<longleftrightarrow> only_fd fd c s \<and> conn s fd \<noteq> Some c"
  by (auto simp: gone_def only_fd_def)

lemma another_fd: "\<exists>fd' :: i32. fd' \<noteq> fd"
  by (rule exI[of _ "fd + 1"]) simp

lemma gone_dispatch:
  assumes "dispatch ev calls s = Some (Inr t)" and "fresh_accepts (accepts calls) (dom (conn s))" and "gone c s"
  shows "gone c t \<and> wire t c = wire s c \<and> server_listen_fd t = server_listen_fd s"
proof -
  obtain fd where fd: "ev_fd ev \<noteq> fd" using another_fd by metis
  have "only_fd fd c s" "conn s fd \<noteq> Some c" using assms(3) gone_iff by blast+
  then show ?thesis using other_dispatch[OF assms(1,2) fd, of c] gone_iff[of c t fd] by (auto simp: untouched_def)
qed

lemma gone_send_result:
  assumes "gone c s"
  shows "gone c (send_result n1 n2 err r s) \<and> wire (send_result n1 n2 err r s) c = wire s c"
proof -
  obtain fd where fd: "result_fd r \<noteq> fd" using another_fd by metis
  have "only_fd fd c s" "conn s fd \<noteq> Some c" using assms gone_iff by blast+
  then show ?thesis
    using other_send_result[of fd c s r n1 n2 err] fd gone_iff[of c "send_result n1 n2 err r s" fd]
    by (auto simp: untouched_def)
qed

section \<open>A response that is never continued\<close>

abbreviation both_edge :: u32 where
  "both_edge \<equiv> EPOLLIN OR EPOLLOUT OR EPOLLET"

text \<open>
  As long as the connection is open its response is pending, what is reported includes input, and
  what will be reported does.
\<close>

definition hides :: "readiness \<Rightarrow> bool" where
  "hides k \<longleftrightarrow> has_space k \<and> (queued k \<longrightarrow> has_input k \<and> reported k = None)
     \<and> (\<forall>evs. reported k = Some evs \<longrightarrow> evs AND EPOLLIN \<noteq> 0)"

definition hidden :: "i32 \<Rightarrow> nat \<Rightarrow> OutgoingBuffer \<Rightarrow> byte list \<Rightarrow> EpollServer \<times> readiness \<Rightarrow> bool" where
  "hidden fd c ob bs = (\<lambda>(s, k). fd \<noteq> server_listen_fd s \<and> wire s c = bs
     \<and> (gone c s \<or> only_fd fd c s \<and> conn s fd = Some c \<and> write_buffers s fd = Some ob
          \<and> interest s fd = Some both_edge \<and> hides k))"

lemma input_reported: "has_input k \<Longrightarrow> (ready_mask k AND both_edge) AND EPOLLIN \<noteq> 0"
  by (simp add: ready_mask_def EPOLLIN_def EPOLLOUT_def EPOLLET_def)

lemma edge_triggered: "both_edge AND EPOLLET \<noteq> 0"
  by (simp add: EPOLLIN_def EPOLLOUT_def EPOLLET_def)

lemma hidden_open:
  assumes "hidden fd c ob bs (s, k)" and "conn s fd = Some c"
  shows "only_fd fd c s" and "write_buffers s fd = Some ob" and "interest s fd = Some both_edge" and "hides k"
    and "fd \<noteq> server_listen_fd s" and "wire s c = bs"
  using assms by (auto simp: hidden_def gone_def)

lemma hidden_closed:
  assumes "hidden fd c ob bs (s, k)" and "conn s fd \<noteq> Some c"
  shows "gone c s"
  using assms by (auto simp: hidden_def)

lemma hidden_step: "edge_step fd c b x y \<Longrightarrow> \<not> b \<Longrightarrow> hidden fd c ob bs x \<Longrightarrow> hidden fd c ob bs y"
proof (induction rule: edge_step.induct)
  case (ed_report s m k evs)
  note h = hidden_open[OF ed_report(8,1)]
  have "m = both_edge" "has_input k" using h(3,4) ed_report(2,3) by (auto simp: hides_def)
  then show ?case using h edge_triggered input_reported ed_report(1,5) by (auto simp: hidden_def hides_def)
next
  case (ed_handle s k evs calls t k')
  note h = hidden_open[OF ed_handle(7,1)]
  have evs: "evs AND EPOLLIN \<noteq> 0" "\<not> queued k" using h(4) ed_handle(2) by (auto simp: hides_def)
  then have rd: "handle_read fd (recvs calls) s = Some t"
    using ed_handle(4) h(5) by (simp add: dispatch_def)
  have k': "has_space k'" using evs h(4) by (simp add: ed_handle(5) after_event_def hides_def)
  show ?case
    using handle_read_keeps[OF rd] ed_handle(1) k' h evs(2) only_fd_fields[OF h(1), of t fd]
    by (auto simp: hidden_def gone_iff[of c t fd] hides_def requeued_def)
next
  case (ed_other ev s calls t k)
  show ?case
  proof (cases "conn s fd = Some c")
    case True
    note h = hidden_open[OF ed_other(5) True]
    have "ev_fd ev \<noteq> fd" using ed_other(1) True by simp
    from other_dispatch[OF ed_other(3,2) this h(1)] show ?thesis
      using h by (auto simp: hidden_def untouched_def gone_iff[of c t fd])
  next
    case False
    from gone_dispatch[OF ed_other(3,2) hidden_closed[OF ed_other(5) False]] show ?thesis
      using ed_other(5) by (simp add: hidden_def)
  qed
next
  case (ed_result r s k n1 n2 err)
  show ?case
  proof (cases "conn s fd = Some c")
    case True
    note h = hidden_open[OF ed_result(3) True]
    have "result_fd r \<noteq> fd" using ed_result(1) True by simp
    from other_send_result[OF h(1) this, of n1 n2 err] show ?thesis
      using h by (auto simp: hidden_def untouched_def gone_iff[of c _ fd])
  next
    case False
    from gone_send_result[OF hidden_closed[OF ed_result(3) False], of n1 n2 err r] show ?thesis
      using ed_result(3) by (simp add: hidden_def listen_fd_handlers)
  qed
qed (auto simp: hidden_def hides_def)

interpretation hidden: step_invariant "edge_step fd c False" "hidden fd c ob bs" "hidden fd c ob bs" for fd c ob bs
  by unfold_locales (auto intro: hidden_step)


text \<open>The rest is sent when the output is reported alone.\<close>

lemma output_alone:
  assumes "conn s fd = Some c" and "fd \<noteq> server_listen_fd s" and "interest s fd = Some both_edge"
    and "\<not> has_input k" and "has_space k" and "queued k" and "reported k = None"
  shows "\<exists>t k'. (edge_step fd c False)\<^sup>*\<^sup>* (s, k) (t, k') \<and> wire t c = wire s c @ pending s fd"
proof -
  let ?n = "int (length (pending s fd))" and ?k = "k\<lparr>queued := (both_edge AND EPOLLET = 0), reported := Some EPOLLOUT\<rparr>"
  have mask: "ready_mask k AND both_edge = EPOLLOUT" "EPOLLOUT AND EPOLLIN = 0" "EPOLLOUT \<noteq> 0"
    "EPOLLOUT AND EPOLLOUT = EPOLLOUT"
    using assms(4,5) by (simp_all add: ready_mask_def EPOLLIN_def EPOLLOUT_def EPOLLET_def)
  have 1: "edge_step fd c False (s, k) (s, ?k)"
    using ed_report[OF assms(1,3,6,7) refl] mask by simp
  have "send_within ?n fd s" by (simp add: send_within_def pending_def split: option.split)
  then obtain k' where 2: "edge_step fd c False (s, ?k) (handle_write ?n fd s, k')"
    using ed_handle[OF assms(1), of ?k EPOLLOUT "\<lparr>accepts = [], recvs = [], sends = ?n\<rparr>" "handle_write ?n fd s",
        OF _ _ _ refl] assms(2) that by (fastforce simp: mask dispatch_def)
  have "wire (handle_write ?n fd s) c = wire s c @ pending s fd"
    using assms(1) by (simp add: handle_write_def pending_def Let_def transmit_def epoll_mod_def erase_buffer_def
        split: option.split)
  then show ?thesis using 1 2 by (meson converse_rtranclp_into_rtranclp rtranclp.rtrancl_refl)
qed


end
