(* ===== verification/Streams.thy ===== *)
theory Streams
  imports Prelude
begin

text \<open>
  The parts of the C++ standard library by which the programs read text: \<open>std::getline\<close>, the
  extraction of unsigned integers with \<open>operator>>\<close> and the conversions \<open>std::stoul\<close>,
  \<open>std::stoull\<close> and \<open>std::stoi\<close>, with decimal printing as their inverse.
\<close>

section \<open>Streams of characters\<close>

text \<open>
  A stream is its remaining characters and \<open>good()\<close>. \<open>getline\<close> returns whether it succeeded,
  the stream and the string: a stream that is no longer good leaves the string untouched;
  otherwise the string is erased first, and reaching the end of the stream clears \<open>good()\<close>
  (and fails when nothing was extracted).
\<close>

record istream =
  stream_rest :: string
  stream_good :: bool

definition getline :: "char \<Rightarrow> istream \<Rightarrow> string \<Rightarrow> bool \<times> istream \<times> string" where
  "getline delim s str =
     (if \<not> stream_good s then (False, s, str)
      else if delim \<in> set (stream_rest s) then
        (True, s\<lparr>stream_rest := tl (dropWhile (\<lambda>c. c \<noteq> delim) (stream_rest s))\<rparr>,
         takeWhile (\<lambda>c. c \<noteq> delim) (stream_rest s))
      else (stream_rest s \<noteq> [], \<lparr>stream_rest = [], stream_good = False\<rparr>, stream_rest s))"

lemma tl_dropWhile_shorter: "x \<in> set xs \<Longrightarrow> length (tl (dropWhile (\<lambda>c. c \<noteq> x) xs)) < length xs"
proof -
  assume "x \<in> set xs"
  then have "xs \<noteq> []" by auto
  moreover have "length (dropWhile (\<lambda>c. c \<noteq> x) xs) \<le> length xs" by (rule length_dropWhile_le)
  ultimately show ?thesis by (cases xs) auto
qed

lemma getline_progress:
  assumes "getline delim s str = (True, s', str')"
  shows "length (stream_rest s') + of_bool (stream_good s')
    < length (stream_rest s) + of_bool (stream_good s)"
  using assms tl_dropWhile_shorter[of delim "stream_rest s"]
  by (auto simp: getline_def split: if_splits)

section \<open>Numbers\<close>

definition is_space :: "char \<Rightarrow> bool" where
  "is_space c \<longleftrightarrow> (of_char c :: nat) = 32 \<or> 9 \<le> (of_char c :: nat) \<and> (of_char c :: nat) \<le> 13"

definition is_digit :: "char \<Rightarrow> bool" where
  "is_digit c \<longleftrightarrow> 48 \<le> (of_char c :: nat) \<and> (of_char c :: nat) \<le> 57"

definition digits_val :: "string \<Rightarrow> nat" where
  "digits_val ds = foldl (\<lambda>n c. 10 * n + (of_char c - 48)) 0 ds"

text \<open>Leading white space, an optional sign, then the longest run of decimal digits.\<close>

definition scan_number :: "string \<Rightarrow> bool \<times> string" where
  "scan_number s =
     (let s1 = dropWhile is_space s
      in case s1 of
           [] \<Rightarrow> (False, [])
         | c # r \<Rightarrow>
             if c = CHR ''-'' then (True, takeWhile is_digit r)
             else if c = CHR ''+'' then (False, takeWhile is_digit r)
             else (False, takeWhile is_digit s1))"

text \<open>
  \<open>std::stoul\<close> and \<open>std::stoull\<close> (both 64 bits wide here): a minus sign negates in
  \<open>unsigned long\<close>.
\<close>

definition stoull :: "string \<Rightarrow> u64 result" where
  "stoull s = (let (neg, ds) = scan_number s; n = digits_val ds
     in if ds = [] then Inl Invalid_argument
        else if 2 ^ 64 \<le> n then Inl Out_of_range
        else Inr (if neg then - of_nat n else of_nat n))"

definition stoi :: "string \<Rightarrow> i32 result" where
  "stoi s = (let (neg, ds) = scan_number s; n = int (digits_val ds); v = (if neg then - n else n)
     in if ds = [] then Inl Invalid_argument
        else if v < - (2 ^ 31) \<or> 2 ^ 31 \<le> v then Inl Out_of_range
        else Inr (word_of_int v))"

section \<open>Extraction\<close>

text \<open>
  \<open>stream >> x\<close> for an unsigned \<open>x\<close> of type \<open>'a word\<close> that holds \<open>old\<close>. A stream that is not good,
  or holds nothing but white space, fails and leaves \<open>x\<close> alone. Otherwise a sign and the longest
  run of digits are extracted: without a digit \<open>x\<close> becomes 0, above the range it becomes the
  largest value, and the stream fails in both cases; a minus sign negates. Reaching the end of the
  stream ends \<open>good()\<close> as well.
\<close>

definition read_uint :: "istream \<Rightarrow> 'a::len word \<Rightarrow> istream \<times> 'a word" where
  "read_uint s old =
     (let r = dropWhile is_space (stream_rest s)
      in if \<not> stream_good s then (s, old)
         else if r = [] then (\<lparr>stream_rest = [], stream_good = False\<rparr>, old)
         else let (neg, ds) = scan_number r;
                  left = dropWhile is_digit (if hd r = CHR ''-'' \<or> hd r = CHR ''+'' then tl r else r);
                  n = digits_val ds
              in if ds = [] then (\<lparr>stream_rest = left, stream_good = False\<rparr>, 0)
                 else if 2 ^ LENGTH('a) \<le> n then (\<lparr>stream_rest = left, stream_good = False\<rparr>, - 1)
                 else (\<lparr>stream_rest = left, stream_good = (left \<noteq> [])\<rparr>,
                       if neg then - of_nat n else of_nat n))"

section \<open>Decimal printing\<close>

fun show_nat :: "nat \<Rightarrow> string" where
  "show_nat n = (if n < 10 then [char_of (48 + n)] else show_nat (n div 10) @ [char_of (48 + n mod 10)])"

declare show_nat.simps [simp del]

definition show_int :: "int \<Rightarrow> string" where
  "show_int i = (if i < 0 then CHR ''-'' # show_nat (nat (- i)) else show_nat (nat i))"

lemma of_char_digit: "d < 10 \<Longrightarrow> (of_char (char_of (48 + d) :: char) :: nat) = 48 + d"
  by (simp add: of_char_of)

lemma show_nat_digits: "c \<in> set (show_nat n) \<Longrightarrow> is_digit c"
proof (induction n rule: show_nat.induct)
  case (1 n)
  then show ?case
    by (subst (asm) show_nat.simps) (auto simp: is_digit_def of_char_digit split: if_splits)
qed

lemma show_nat_not_Nil [simp]: "show_nat n \<noteq> []"
  by (subst show_nat.simps) simp

lemma digits_val_snoc: "digits_val (ds @ [c]) = 10 * digits_val ds + (of_char c - 48)"
  by (simp add: digits_val_def)

lemma digits_val_show_nat [simp]: "digits_val (show_nat n) = n"
proof (induction n rule: show_nat.induct)
  case (1 n)
  show ?case
  proof (cases "n < 10")
    case True
    then show ?thesis by (subst show_nat.simps) (simp add: digits_val_def of_char_digit)
  next
    case False
    then show ?thesis using 1 by (subst show_nat.simps) (simp add: digits_val_snoc of_char_digit)
  qed
qed

lemma digit_facts:
  "is_digit c \<Longrightarrow> \<not> is_space c" "is_digit c \<Longrightarrow> c \<noteq> CHR ''-''" "is_digit c \<Longrightarrow> c \<noteq> CHR ''+''"
  "is_digit c \<Longrightarrow> c \<noteq> CHR '',''" "is_digit c \<Longrightarrow> c \<noteq> CHR 0x0A"
  by (auto simp: is_digit_def is_space_def)

lemma takeWhile_digits [simp]: "takeWhile is_digit (show_nat n) = show_nat n"
  using show_nat_digits by (simp add: takeWhile_eq_all_conv)

lemma scan_number_show_nat [simp]: "scan_number (show_nat n) = (False, show_nat n)"
proof -
  obtain c r where c: "show_nat n = c # r" by (cases "show_nat n") auto
  then have "is_digit c" using show_nat_digits[of c n] by simp
  then show ?thesis
    using digit_facts[of c] takeWhile_digits[of n] by (simp add: scan_number_def c)
qed

lemma scan_number_minus [simp]: "scan_number (CHR ''-'' # show_nat n) = (True, show_nat n)"
  by (simp add: scan_number_def is_space_def)

lemma stoull_show_nat: "n < 2 ^ 64 \<Longrightarrow> stoull (show_nat n) = Inr (of_nat n)"
  by (simp add: stoull_def)

lemma stoull_show_word [simp]:
  "stoull (show_nat (unat (w :: u64))) = Inr w"
  "stoull (show_nat (unat (v :: u32))) = Inr (ucast v)"
  using unat_lt2p[of w] unat_lt2p[of v] by (simp_all add: stoull_show_nat)

lemma stoi_show_int: "- (2 ^ 31) \<le> i \<Longrightarrow> i < 2 ^ 31 \<Longrightarrow> stoi (show_int i) = Inr (word_of_int i)"
  by (simp add: stoi_def show_int_def)

lemma stoi_show_i8 [simp]: "stoi (show_int (sint (k :: i8))) = Inr (scast k)"
  using sint_ge[of k] sint_lt[of k] by (simp add: stoi_show_int)

lemma split_at_first [simp]:
  "delim \<notin> set x \<Longrightarrow> takeWhile (\<lambda>c. c \<noteq> delim) (x @ delim # r) = x"
  "delim \<notin> set x \<Longrightarrow> dropWhile (\<lambda>c. c \<noteq> delim) (x @ delim # r) = delim # r"
  by (induction x) auto

lemma getline_here:
  "delim \<notin> set x \<Longrightarrow> getline delim \<lparr>stream_rest = x @ delim # r, stream_good = True\<rparr> str
    = (True, \<lparr>stream_rest = r, stream_good = True\<rparr>, x)"
  by (simp add: getline_def)

section \<open>Reading back a number\<close>

lemma takeWhile_digits_append:
  "r = [] \<or> \<not> is_digit (hd r) \<Longrightarrow> takeWhile is_digit (show_nat n @ r) = show_nat n"
  "r = [] \<or> \<not> is_digit (hd r) \<Longrightarrow> dropWhile is_digit (show_nat n @ r) = r"
  using show_nat_digits[of _ n]
  by (cases r; simp add: takeWhile_append dropWhile_append takeWhile_eq_all_conv dropWhile_eq_Nil_conv)+

lemma dropWhile_all_append: "\<forall>c \<in> set ws. P c \<Longrightarrow> dropWhile P (ws @ r) = dropWhile P r"
  by (induction ws) auto

lemma read_uint_show:
  assumes "\<forall>c \<in> set ws. is_space c" and "r = [] \<or> \<not> is_digit (hd r)" and "n < 2 ^ LENGTH('a)"
  shows "read_uint \<lparr>stream_rest = ws @ show_nat n @ r, stream_good = True\<rparr> (old :: 'a::len word)
    = (\<lparr>stream_rest = r, stream_good = (r \<noteq> [])\<rparr>, of_nat n)"
proof -
  obtain c cs where c: "show_nat n = c # cs" by (cases "show_nat n") auto
  then have d: "is_digit c" using show_nat_digits[of c n] by simp
  have "dropWhile is_space (show_nat n @ r) = show_nat n @ r"
    using digit_facts(1)[OF d] by (simp add: c)
  then have w: "dropWhile is_space (ws @ show_nat n @ r) = show_nat n @ r"
    using assms(1) by (simp add: dropWhile_all_append)
  have "scan_number (show_nat n @ r) = (False, show_nat n)"
    using digit_facts[OF d] takeWhile_digits_append(1)[OF assms(2), of n]
    by (simp add: scan_number_def c)
  moreover have "hd (show_nat n @ r) = c" by (simp add: c)
  ultimately show ?thesis
    using w digit_facts(2,3)[OF d] takeWhile_digits_append(2)[OF assms(2), of n] assms(3)
    by (simp add: read_uint_def)
qed

lemma read_uint_fails:
  "\<not> stream_good s \<Longrightarrow> read_uint s old = (s, old)"
  "\<forall>c \<in> set ws. is_space c \<Longrightarrow> read_uint \<lparr>stream_rest = ws, stream_good = True\<rparr> old
    = (\<lparr>stream_rest = [], stream_good = False\<rparr>, old)"
  by (simp_all add: read_uint_def dropWhile_eq_Nil_conv)

section \<open>Words and hexadecimal numbers\<close>

text \<open>\<open>stream >> word\<close> on a fresh stream over \<open>s\<close>: \<open>None\<close> when there is nothing but white space.\<close>

definition first_word :: "string \<Rightarrow> string option" where
  "first_word s = (let r = dropWhile is_space s
     in if r = [] then None else Some (takeWhile (\<lambda>c. \<not> is_space c) r))"

definition is_xdigit :: "char \<Rightarrow> bool" where
  "is_xdigit c \<longleftrightarrow> is_digit c \<or> (let k = (of_char c :: nat) in 65 \<le> k \<and> k \<le> 70 \<or> 97 \<le> k \<and> k \<le> 102)"

definition xdigit_val :: "char \<Rightarrow> nat" where
  "xdigit_val c = (let k = of_char c in if k \<le> 57 then k - 48 else if k \<le> 70 then k - 55 else k - 87)"

definition xdigits_val :: "string \<Rightarrow> nat" where
  "xdigits_val ds = foldl (\<lambda>n c. 16 * n + xdigit_val c) 0 ds"

text \<open>
  \<open>std::stoull(s, nullptr, 16)\<close>: white space, a sign, an optional prefix \<open>0x\<close> that a digit must
  follow, and the longest run of hexadecimal digits.
\<close>

definition drop_0x :: "string \<Rightarrow> string" where
  "drop_0x s = (case s of
      z # x # d # _ \<Rightarrow> if z = CHR ''0'' \<and> (x = CHR ''x'' \<or> x = CHR ''X'') \<and> is_xdigit d then drop 2 s else s
    | _ \<Rightarrow> s)"

definition stoull_16 :: "string \<Rightarrow> u64 result" where
  "stoull_16 s =
     (let s1 = dropWhile is_space s;
          neg = (s1 \<noteq> [] \<and> hd s1 = CHR ''-'');
          s2 = (if s1 \<noteq> [] \<and> (hd s1 = CHR ''-'' \<or> hd s1 = CHR ''+'') then tl s1 else s1);
          ds = takeWhile is_xdigit (drop_0x s2);
          n = xdigits_val ds
      in if ds = [] then Inl Invalid_argument
         else if 2 ^ 64 \<le> n then Inl Out_of_range
         else Inr (if neg then - of_nat n else of_nat n))"

fun show_hex :: "nat \<Rightarrow> string" where
  "show_hex n = (if n < 16 then [char_of (if n < 10 then 48 + n else 87 + n)]
     else show_hex (n div 16) @ show_hex (n mod 16))"

declare show_hex.simps [simp del]

lemma xdigit_of_char:
  assumes "d < 16"
  shows "xdigit_val (char_of (if d < 10 then 48 + d else 87 + d)) = d"
    and "is_xdigit (char_of (if d < 10 then 48 + d else 87 + d))"
  using assms by (auto simp: xdigit_val_def is_xdigit_def is_digit_def Let_def of_char_of)

lemma show_hex_digits: "c \<in> set (show_hex n) \<Longrightarrow> is_xdigit c"
proof (induction n rule: show_hex.induct)
  case (1 n)
  show ?case
  proof (cases "n < 16")
    case True
    then show ?thesis using 1(3) xdigit_of_char(2)[of n] by (subst (asm) show_hex.simps) simp
  next
    case False
    then show ?thesis using 1 by (subst (asm) (2) show_hex.simps) auto
  qed
qed

lemma show_hex_small: "n < 16 \<Longrightarrow> show_hex n = [char_of (if n < 10 then 48 + n else 87 + n)]"
  by (subst show_hex.simps) simp

lemma show_hex_not_Nil [simp]: "show_hex n \<noteq> []"
  by (induction n rule: show_hex.induct) (subst show_hex.simps, simp)

lemma xdigits_val_show_hex [simp]: "xdigits_val (show_hex n) = n"
proof (induction n rule: show_hex.induct)
  case (1 n)
  show ?case
  proof (cases "n < 16")
    case True
    then show ?thesis using xdigit_of_char(1)[of n] by (simp add: show_hex_small xdigits_val_def)
  next
    case False
    have "show_hex n = show_hex (n div 16) @ [char_of (if n mod 16 < 10 then 48 + n mod 16 else 87 + n mod 16)]"
      using False by (subst show_hex.simps) (simp add: show_hex_small)
    then show ?thesis
      using 1(1)[OF False] xdigit_of_char(1)[of "n mod 16"] by (simp add: xdigits_val_def)
  qed
qed

lemma xdigit_facts:
  "is_xdigit c \<Longrightarrow> \<not> is_space c" "is_xdigit c \<Longrightarrow> c \<noteq> CHR ''-''" "is_xdigit c \<Longrightarrow> c \<noteq> CHR ''+''"
  "is_xdigit c \<Longrightarrow> c \<noteq> CHR ''x''" "is_xdigit c \<Longrightarrow> c \<noteq> CHR ''X''" "is_xdigit c \<Longrightarrow> c \<noteq> CHR 0x0A"
  by (auto simp: is_xdigit_def is_digit_def is_space_def Let_def)

lemma stoull_16_show_hex: "n < 2 ^ 64 \<Longrightarrow> stoull_16 (show_hex n) = Inr (of_nat n)"
proof -
  assume n: "n < 2 ^ 64"
  have d: "\<forall>c \<in> set (show_hex n). is_xdigit c" using show_hex_digits by blast
  have "drop_0x (show_hex n) = show_hex n"
    using d xdigit_facts(4,5) by (auto simp: drop_0x_def split: list.split)
  moreover obtain c cs where c: "show_hex n = c # cs" by (cases "show_hex n") auto
  moreover have t: "takeWhile is_xdigit cs = cs" using d by (simp add: c takeWhile_eq_all_conv)
  ultimately show ?thesis
    using n d xdigit_facts(1-3)[of c] xdigits_val_show_hex[of n] by (simp add: stoull_16_def Let_def t)
qed

end
