(* ===== verification/Csv.thy ===== *)
theory Csv
  imports Trade_Data Streams
begin

text \<open>
  The converter \<open>process_data/process_data_main.cc\<close>: the fields of a row, the loop of
  \<open>parse_csv\<close> with what it has written to the output when an exception leaves it, and the
  computation of the output path. The inverse direction, decimal printing of a record, serves
  as the specification.
\<close>

section \<open>One row\<close>

text \<open>\<open>std::getline(ss, token, ',')\<close> with the success ignored, as the fields of a row are read.\<close>

definition next_token :: "istream \<times> string \<Rightarrow> istream \<times> string" where
  "next_token st = snd (getline CHR '','' (fst st) (snd st))"

definition parse_taker_side :: "string \<Rightarrow> u8 result" where
  "parse_taker_side token =
     (if token = ''Ask'' \<or> token = ''ask'' \<or> token = ''1'' then Inr 1
      else if token = ''Bid'' \<or> token = ''bid'' \<or> token = ''2'' then Inr 2
      else bindE (stoull token) (\<lambda>v. Inr (ucast v)))"

text \<open>The variable \<open>token\<close> lives across the fields, so a read that fails keeps the previous field.\<close>

definition parse_row :: "string \<Rightarrow> TradeData result" where
  "parse_row line =
     (let st1 = next_token (\<lparr>stream_rest = line, stream_good = True\<rparr>, [])
      in bindE (stoull (takeWhile (\<lambda>c. c \<noteq> CHR '','') line)) (\<lambda>symbol.
      let st2 = next_token st1 in bindE (stoull (snd st2)) (\<lambda>created.
      let st3 = next_token st2 in bindE (stoull (snd st3)) (\<lambda>trade.
      let st4 = next_token st3 in bindE (stoull (snd st4)) (\<lambda>price_raw.
      let st5 = next_token st4 in bindE (stoull (snd st5)) (\<lambda>quantity_raw.
      let st6 = next_token st5 in bindE (stoi (snd st6)) (\<lambda>price_expo.
      let st7 = next_token st6 in bindE (stoi (snd st7)) (\<lambda>quantity_expo.
      let st8 = next_token st7 in bindE (parse_taker_side (snd st8)) (\<lambda>side.
      Inr \<lparr>symbol_id = ucast symbol, created_at = created, trade_id = trade,
           trade_price = \<lparr>price = ucast price_raw, price_exponent = ucast price_expo\<rparr>,
           trade_quantity = \<lparr>quantity = ucast quantity_raw, quantity_exponent = ucast quantity_expo\<rparr>,
           taker_side = side\<rparr>)))))))))"

section \<open>The file\<close>

definition header_text :: string where
  "header_text =
    ''symbol_id,created_at,trade_id,price,quantity,price_exponent,quantity_exponent,taker_side''"

text \<open>
  The loop over the lines. It returns the bytes written to the output (every row is flushed) and
  the exception that left the loop, if one did. The string the code compares a line with ends in
  a newline.
\<close>

function parse_lines :: "byte \<Rightarrow> istream \<Rightarrow> string \<Rightarrow> byte list \<Rightarrow> byte list \<times> cpp_error option" where
  "parse_lines pad file line out =
     (case getline (CHR 0x0A) file line of (ok, file', line') \<Rightarrow>
        if \<not> ok then (out, None)
        else if line' = [] \<or> line' = header_text @ [CHR 0x0A] then parse_lines pad file' line' out
        else (case parse_row line' of
            Inl err \<Rightarrow> (out, Some err)
          | Inr trade \<Rightarrow> parse_lines pad file' line' (out @ encode_TradeData pad trade)))"
  by pat_completeness auto

termination
proof (relation "measure (\<lambda>(pad, src, line, out). length (stream_rest src) + of_bool (stream_good src))",
    goal_cases)
  case 1
  show ?case by simp
next
  case (2 pad src line out ok p src' line')
  then have "getline (CHR 0x0A) src line = (True, src', line')" by (cases ok) simp_all
  from getline_progress[OF this] show ?case by simp
next
  case (3 pad src line out ok p src' line' trade)
  then have "getline (CHR 0x0A) src line = (True, src', line')" by (cases ok) simp_all
  from getline_progress[OF this] show ?case by simp
qed

declare parse_lines.simps [simp del]

text \<open>\<open>None\<close>: the CSV file could not be opened (the function prints an error and returns).\<close>

definition parse_csv :: "byte \<Rightarrow> string option \<Rightarrow> byte list \<Rightarrow> byte list \<times> cpp_error option" where
  "parse_csv pad file out = (case file of
      None \<Rightarrow> (out, None)
    | Some text \<Rightarrow>
        (case getline (CHR 0x0A) \<lparr>stream_rest = text, stream_good = True\<rparr> [] of (ok, file', line) \<Rightarrow>
           if \<not> ok then (out, None) else parse_lines pad file' line out))"

section \<open>The program\<close>

text \<open>
  \<open>substr(0, find_last_of(c))\<close> and \<open>substr(find_last_of(c) + 1)\<close>: without an occurrence both are
  the whole string, because \<open>npos + 1\<close> is 0.
\<close>

definition before_last :: "char \<Rightarrow> string \<Rightarrow> string" where
  "before_last c s =
     (if c \<in> set s then rev (tl (dropWhile (\<lambda>x. x \<noteq> c) (rev s))) else s)"

definition after_last :: "char \<Rightarrow> string \<Rightarrow> string" where
  "after_last c s = rev (takeWhile (\<lambda>x. x \<noteq> c) (rev s))"

definition out_path :: "string \<Rightarrow> string" where
  "out_path filename =
     (let dir = before_last CHR ''/'' filename;
          base_name = after_last CHR ''/'' filename;
          parent_dir = before_last CHR ''/'' dir
      in parent_dir @ ''/processed/'' @ before_last CHR ''.'' base_name @ ''.bin'')"

text \<open>
  \<open>main\<close> on the arguments after the program name and a file system (the bytes of the files that
  exist); \<open>creatable\<close> says which paths can be opened for writing. Opening the output truncates it
  before the CSV file is read. The result is the exit code, or the exception that ends the
  process, and the file system it leaves.
\<close>

type_synonym files = "string \<Rightarrow> byte list option"

definition to_string :: "byte list \<Rightarrow> string" where
  "to_string bs = map (\<lambda>b. char_of (unat b)) bs"

definition of_string :: "string \<Rightarrow> byte list" where
  "of_string s = map (\<lambda>c. of_nat (of_char c)) s"

definition process_main :: "byte \<Rightarrow> (string \<Rightarrow> bool) \<Rightarrow> string list \<Rightarrow> files \<Rightarrow> int result \<times> files" where
  "process_main pad creatable args fs = (case args of
      [] \<Rightarrow> (Inr 1, fs)
    | filename # _ \<Rightarrow>
        let path = out_path filename
        in if \<not> creatable path then (Inr 1, fs)
           else let fs1 = fs(path \<mapsto> []);
                    (out, exc) = parse_csv pad (map_option to_string (fs1 filename)) []
                in (case exc of None \<Rightarrow> Inr 0 | Some err \<Rightarrow> Inl err, fs1(path \<mapsto> out)))"

lemma to_string_of_string [simp]: "to_string (of_string s) = s"
proof -
  have "char_of (unat (of_nat (of_char c) :: byte)) = c" for c
  proof -
    have "(of_char c :: nat) < 256" by simp
    then have "unat (of_nat (of_char c) :: byte) = of_char c" by (simp add: unat_of_nat)
    then show ?thesis by simp
  qed
  then show ?thesis by (induction s) (simp_all add: to_string_def of_string_def)
qed

section \<open>CSV files\<close>

text \<open>The CSV file of a list of records, as the converter's input format describes it.\<close>

fun join_fields :: "string list \<Rightarrow> string" where
  "join_fields [] = []"
| "join_fields [x] = x"
| "join_fields (x # y # xs) = x @ CHR '','' # join_fields (y # xs)"

definition csv_row :: "TradeData \<Rightarrow> string" where
  "csv_row t = join_fields
    [show_nat (unat (symbol_id t)), show_nat (unat (created_at t)), show_nat (unat (trade_id t)),
     show_nat (unat (price (trade_price t))), show_nat (unat (quantity (trade_quantity t))),
     show_int (sint (price_exponent (trade_price t))),
     show_int (sint (quantity_exponent (trade_quantity t))), show_nat (unat (taker_side t))]"

definition csv_file :: "string \<Rightarrow> TradeData list \<Rightarrow> string" where
  "csv_file header ts = header @ [CHR 0x0A] @ concat (map (\<lambda>t. csv_row t @ [CHR 0x0A]) ts)"

section \<open>Round trip\<close>

lemma next_token_comma [simp]:
  "CHR '','' \<notin> set x \<Longrightarrow>
    next_token (\<lparr>stream_rest = x @ CHR '','' # r, stream_good = True\<rparr>, str)
    = (\<lparr>stream_rest = r, stream_good = True\<rparr>, x)"
  by (simp add: next_token_def getline_here)

lemma next_token_last:
  "CHR '','' \<notin> set x \<Longrightarrow> next_token (\<lparr>stream_rest = x, stream_good = True\<rparr>, str)
    = (\<lparr>stream_rest = [], stream_good = False\<rparr>, x)"
  by (simp add: next_token_def getline_def)

lemma next_token_end: "next_token (\<lparr>stream_rest = r, stream_good = False\<rparr>, str)
    = (\<lparr>stream_rest = r, stream_good = False\<rparr>, str)"
  by (simp add: next_token_def getline_def)

lemma show_no_comma [simp]: "CHR '','' \<notin> set (show_nat n)" "CHR '','' \<notin> set (show_int i)"
  using show_nat_digits digit_facts(4) by (auto simp: show_int_def)

lemma show_no_newline [simp]: "CHR 0x0A \<notin> set (show_nat n)" "CHR 0x0A \<notin> set (show_int i)"
  using show_nat_digits digit_facts(5) by (auto simp: show_int_def)

lemma cast_back:
  "ucast (ucast (w :: u32) :: u64) = w" "ucast (scast (k :: i8) :: i32) = k"
  "ucast (ucast (b :: u8) :: u64) = b"
  by (rule bit_word_eqI, simp add: bit_simps)+

lemma ucast_of_nat:
  "ucast (of_nat n :: u64) = (of_nat n :: u32)" "ucast (of_nat n :: u64) = (of_nat n :: u8)"
  "ucast (of_nat n :: i32) = (of_nat n :: i8)"
  by (rule bit_word_eqI, auto simp: bit_simps)+

lemma parse_taker_side_show_nat:
  assumes "n < 2 ^ 64"
  shows "parse_taker_side (show_nat n) = Inr (of_nat n)"
proof -
  have v: "digits_val ''1'' = 1" "digits_val ''2'' = 2" by (simp_all add: digits_val_def)
  have one: "n = 1" if "show_nat n = ''1''" using that v(1) digits_val_show_nat[of n] by simp
  have two: "n = 2" if "show_nat n = ''2''" using that v(2) digits_val_show_nat[of n] by simp
  have letters: "\<not> is_digit CHR ''A''" "\<not> is_digit CHR ''a''" "\<not> is_digit CHR ''B''" "\<not> is_digit CHR ''b''"
    by (simp_all add: is_digit_def)
  have n: "show_nat n \<noteq> ''Ask''" "show_nat n \<noteq> ''ask''" "show_nat n \<noteq> ''Bid''" "show_nat n \<noteq> ''bid''"
    using show_nat_digits[of _ n] letters by (metis list.set_intros(1))+
  show ?thesis using n one two stoull_show_nat[OF assms]
    by (auto simp: parse_taker_side_def ucast_of_nat)
qed

lemma parse_taker_side_show [simp]: "parse_taker_side (show_nat (unat (b :: u8))) = Inr b"
  using parse_taker_side_show_nat[of "unat b"] unat_lt2p[of b] by simp

lemma parse_row_csv_row [simp]: "parse_row (csv_row t) = Inr t"
proof -
  obtain sy cr id p q side where t: "t = \<lparr>symbol_id = sy, created_at = cr, trade_id = id,
      trade_price = p, trade_quantity = q, taker_side = side\<rparr>" by (cases t)
  obtain pm pe where p: "p = \<lparr>price = pm, price_exponent = pe\<rparr>" by (cases p)
  obtain qm qe where q: "q = \<lparr>quantity = qm, quantity_exponent = qe\<rparr>" by (cases q)
  show ?thesis
    by (simp add: t p q csv_row_def parse_row_def next_token_last cast_back Let_def)
qed

lemma parse_lines_good:
  assumes "nl \<notin> set x" and "nl = CHR 0x0A" and "x \<noteq> []"
  shows "parse_lines pad \<lparr>stream_rest = x @ nl # r, stream_good = True\<rparr> line out =
    (case parse_row x of
       Inl err \<Rightarrow> (out, Some err)
     | Inr trade \<Rightarrow> parse_lines pad \<lparr>stream_rest = r, stream_good = True\<rparr> x (out @ encode_TradeData pad trade))"
proof -
  have "x \<noteq> header_text @ [CHR 0x0A]" using assms(1,2) by auto
  then show ?thesis
    using assms by (subst parse_lines.simps) (simp add: getline_here)
qed

lemma parse_lines_empty:
  "parse_lines pad \<lparr>stream_rest = [], stream_good = True\<rparr> line out = (out, None)"
  by (subst parse_lines.simps) (simp add: getline_def)

lemma join_no_newline: "\<forall>x \<in> set xs. CHR 0x0A \<notin> set x \<Longrightarrow> CHR 0x0A \<notin> set (join_fields xs)"
  by (induction xs rule: join_fields.induct) auto

lemma csv_row_line: "CHR 0x0A \<notin> set (csv_row t)" "csv_row t \<noteq> []"
  unfolding csv_row_def by (intro join_no_newline) simp_all

text \<open>The rows of a list of records are written before whatever follows them is read.\<close>

lemma parse_lines_rows:
  "\<exists>line'. parse_lines pad \<lparr>stream_rest = concat (map (\<lambda>t. csv_row t @ [CHR 0x0A]) ts) @ r,
      stream_good = True\<rparr> line out
    = parse_lines pad \<lparr>stream_rest = r, stream_good = True\<rparr> line' (out @ encode_trades pad ts)"
proof (induction ts arbitrary: line out)
  case Nil
  then show ?case by (auto simp: encode_trades_def)
next
  case (Cons t ts)
  from Cons.IH[of "csv_row t" "out @ encode_TradeData pad t"] show ?case
    by (auto simp: parse_lines_good csv_row_line encode_trades_def)
qed

lemma parse_csv_header:
  "CHR 0x0A \<notin> set header \<Longrightarrow> parse_csv pad (Some (header @ CHR 0x0A # r)) out
    = parse_lines pad \<lparr>stream_rest = r, stream_good = True\<rparr> header out"
  by (simp add: parse_csv_def getline_here)

lemma parse_csv_rows:
  assumes "CHR 0x0A \<notin> set header"
  shows "\<exists>line. parse_csv pad (Some (csv_file header ts @ r)) []
    = parse_lines pad \<lparr>stream_rest = r, stream_good = True\<rparr> line (encode_trades pad ts)"
  using parse_lines_rows[of pad ts r header "[]"]
  by (simp add: csv_file_def parse_csv_header[OF assms])

text \<open>C30. Round trip of the converter: for a CSV file with any header line and the rows of a list
  of records in decimal, \<open>parse_csv\<close> writes exactly the binary image of those records, in order,
  and no exception leaves it.\<close>

theorem csv_roundtrip:
  assumes "CHR 0x0A \<notin> set header"
  shows "parse_csv pad (Some (csv_file header ts)) [] = (encode_trades pad ts, None)"
  using parse_csv_rows[OF assms, of pad ts "[]"] by (auto simp: parse_lines_empty)

theorem csv_roundtrip_witness:
  "parse_csv 0 (Some (csv_file header_text
      [\<lparr>symbol_id = 4294967295, created_at = 1700000000000000000, trade_id = 3,
        trade_price = \<lparr>price = 12345, price_exponent = - 2\<rparr>,
        trade_quantity = \<lparr>quantity = 7, quantity_exponent = - 8\<rparr>, taker_side = 2\<rparr>])) []
   = (encode_trades 0 [\<lparr>symbol_id = 4294967295, created_at = 1700000000000000000, trade_id = 3,
        trade_price = \<lparr>price = 12345, price_exponent = - 2\<rparr>,
        trade_quantity = \<lparr>quantity = 7, quantity_exponent = - 8\<rparr>, taker_side = 2\<rparr>], None)"
  by (rule csv_roundtrip) (simp add: header_text_def)

text \<open>A header line repeated inside the file is not skipped: the line is compared with a string
  that ends in a newline, which no line from \<open>getline\<close> does, so \<open>std::stoul\<close> throws on it; the rows
  before it are in the output, the rows after it are lost.\<close>

theorem csv_repeated_header:
  assumes "CHR 0x0A \<notin> set header"
  shows "parse_csv pad (Some (csv_file header ts @ csv_file header_text ts')) []
    = (encode_trades pad ts, Some Invalid_argument)"
proof -
  have h: "CHR 0x0A \<notin> set header_text" "header_text \<noteq> []" by (simp_all add: header_text_def)
  have "parse_row header_text = Inl Invalid_argument" by code_simp
  then show ?thesis
    using parse_csv_rows[OF assms, of pad ts "csv_file header_text ts'"]
    by (auto simp: csv_file_def parse_lines_good h)
qed

theorem csv_repeated_header_witness:
  "parse_csv 0 (Some (csv_file header_text [] @ csv_file header_text [])) [] = ([], Some Invalid_argument)"
  using csv_repeated_header[of header_text 0 "[]" "[]"] by (simp add: header_text_def encode_trades_def)

lemma stoi_show_nat: "n < 2 ^ 31 \<Longrightarrow> stoi (show_nat n) = Inr (of_nat n)"
  by (simp add: stoi_def)

text \<open>A row with too few fields is accepted: once the row is exhausted \<open>getline\<close> leaves the
  string alone, so a row of three numbers becomes a record whose price, quantity, exponents and
  taker side all repeat the trade id.\<close>

theorem csv_short_row:
  assumes "a < 2 ^ 64" and "b < 2 ^ 64" and "c < 2 ^ 31"
  shows "parse_row (join_fields [show_nat a, show_nat b, show_nat c]) =
    Inr \<lparr>symbol_id = of_nat a, created_at = of_nat b, trade_id = of_nat c,
         trade_price = \<lparr>price = of_nat c, price_exponent = of_nat c\<rparr>,
         trade_quantity = \<lparr>quantity = of_nat c, quantity_exponent = of_nat c\<rparr>,
         taker_side = of_nat c\<rparr>"
  using assms
  by (simp add: parse_row_def next_token_last next_token_end stoull_show_nat stoi_show_nat
      parse_taker_side_show_nat ucast_of_nat Let_def)

theorem csv_short_row_witness:
  "parse_row (join_fields [show_nat 1, show_nat 20, show_nat 3]) =
    Inr \<lparr>symbol_id = 1, created_at = 20, trade_id = 3, trade_price = \<lparr>price = 3, price_exponent = 3\<rparr>,
         trade_quantity = \<lparr>quantity = 3, quantity_exponent = 3\<rparr>, taker_side = 3\<rparr>"
  using csv_short_row[of 1 20 3] by simp

section \<open>Paths\<close>

lemma last_split [simp]:
  "c \<notin> set y \<Longrightarrow> before_last c (x @ c # y) = x" "c \<notin> set y \<Longrightarrow> after_last c (x @ c # y) = y"
proof -
  assume y: "c \<notin> set y"
  then have "c \<notin> set (rev y)" by simp
  from split_at_first[OF this] show "before_last c (x @ c # y) = x" "after_last c (x @ c # y) = y"
    by (simp_all add: before_last_def after_last_def)
qed

lemma out_path_raw:
  assumes "CHR ''/'' \<notin> set name"
  shows "out_path (parent @ ''/raw/'' @ name @ ''.csv'') = parent @ ''/processed/'' @ name @ ''.bin''"
proof -
  have "before_last CHR ''/'' (parent @ ''/raw/'' @ name @ ''.csv'') = parent @ ''/raw''"
    "after_last CHR ''/'' (parent @ ''/raw/'' @ name @ ''.csv'') = name @ ''.csv''"
    using last_split[of "CHR ''/''" "name @ ''.csv''" "parent @ ''/raw''"] assms by simp_all
  moreover have "before_last CHR ''/'' (parent @ ''/raw'') = parent"
    using last_split(1)[of "CHR ''/''" "''raw''" parent] by simp
  moreover have "before_last CHR ''.'' (name @ ''.csv'') = name"
    using last_split(1)[of "CHR ''.''" "''csv''" name] by simp
  ultimately show ?thesis by (simp add: out_path_def)
qed

lemma process_main_result:
  assumes "out_path f = p" and "creatable p" and "fs f = Some (of_string text)" and "f \<noteq> p"
    and "parse_csv pad (Some text) [] = (out, None)"
  shows "process_main pad creatable [f] fs = (Inr 0, fs(p \<mapsto> out))"
  using assms by (simp add: process_main_def Let_def)

lemma process_main_csv:
  assumes "CHR ''/'' \<notin> set name" and "CHR 0x0A \<notin> set header"
    and "creatable (parent @ ''/processed/'' @ name @ ''.bin'')"
    and "fs (parent @ ''/raw/'' @ name @ ''.csv'') = Some (of_string (csv_file header ts))"
  shows "process_main pad creatable [parent @ ''/raw/'' @ name @ ''.csv''] fs =
    (Inr 0, fs(parent @ ''/processed/'' @ name @ ''.bin'' \<mapsto> encode_trades pad ts))"
proof -
  let ?in = "parent @ ''/raw/'' @ name @ ''.csv''"
  let ?out = "parent @ ''/processed/'' @ name @ ''.bin''"
  have "last ?in = CHR ''v''" "last ?out = CHR ''n''" by simp_all
  then have ne: "?in \<noteq> ?out" by force
  have "parse_csv pad (Some (csv_file header ts)) [] = (encode_trades pad ts, None)"
    using parse_csv_rows[OF assms(2), of pad ts "[]"] by (auto simp: parse_lines_empty)
  with out_path_raw[OF assms(1)] assms(3,4) ne show ?thesis by (intro process_main_result)
qed

end
