(* ===== verification/Client_Main.thy ===== *)
theory Client_Main
  imports Client Csv Worker
begin

text \<open>
  \<open>src/client_main.cc\<close>: the command line, the mask of metrics (the same as the server's) and the
  formatting of a response. Reading outside the vector \<open>output\<close> is undefined behaviour in C++ and
  the value \<open>Inl Out_of_bounds\<close> here.
\<close>

section \<open>Command line\<close>

text \<open>
  The address and port from the arguments after the program name; \<open>std::stoi\<close>'s exceptions are
  caught and the default port kept. The port is narrowed to 16 bits by the constructor of
  \<open>Client\<close>.
\<close>

definition parse_args :: "string list \<Rightarrow> string \<times> i32" where
  "parse_args args =
     (let server_ip = (if 0 < length args then args ! 0 else ''127.0.0.1'');
          port = (if 1 < length args
                  then (case stoi (args ! 1) of Inl _ \<Rightarrow> 8080 | Inr p \<Rightarrow> p) else 8080)
      in (server_ip, port))"

definition client_port :: "i32 \<Rightarrow> u16" where
  "client_port p = ucast p"

section \<open>Formatting a response\<close>

definition client_metric_list :: "u64 \<Rightarrow> i8" where
  "client_metric_list m =
     (let l0 = 0;
          l1 = (if m AND push_bit 0 1 \<noteq> 0 then l0 OR push_bit 0 1 else l0);
          l2 = (if m AND push_bit 26 1 \<noteq> 0 then l1 OR push_bit 1 1 else l1);
          l3 = (if m AND push_bit 33 1 \<noteq> 0 then l2 OR push_bit 2 1 else l2)
      in l3)"

definition byte_at :: "byte list \<Rightarrow> nat \<Rightarrow> byte result" where
  "byte_at output i = (if i < length output then Inr (output ! i) else Inl Out_of_bounds)"

definition u32_at :: "byte list \<Rightarrow> nat \<Rightarrow> u32 result" where
  "u32_at output i = (if i + 4 \<le> length output then Inr (get32 (drop i output)) else Inl Out_of_bounds)"

text \<open>A mantissa and an exponent at offset \<open>i\<close>, printed as \<open>12345e-2\<close>.\<close>

definition show_decimal :: "u32 \<Rightarrow> i8 \<Rightarrow> string" where
  "show_decimal m k = show_nat (unat m) @ ''e'' @ show_int (sint k)"

definition decimal_at :: "byte list \<Rightarrow> nat \<Rightarrow> string result" where
  "decimal_at output i =
     bindE (u32_at output i) (\<lambda>m.
     bindE (byte_at output (i + 4)) (\<lambda>k.
     Inr (show_decimal m k)))"

definition newline :: string where
  "newline = [CHR 0x0A]"

text \<open>The \<open>switch\<close>: the text of metric \<open>i\<close> at \<open>base + index\<close> and the new \<open>index\<close>.\<close>

definition print_metric :: "byte list \<Rightarrow> nat \<Rightarrow> nat \<Rightarrow> nat \<Rightarrow> (string \<times> nat) result" where
  "print_metric output base index i =
     (if i = 0 then
        bindE (decimal_at output (base + index)) (\<lambda>lo.
        bindE (decimal_at output (base + (index + 5))) (\<lambda>hi.
        Inr (newline @ ''  Min Price: '' @ lo @ '', Max Price: '' @ hi, index + 5 + 5)))
      else if i = 1 then
        bindE (decimal_at output (base + index)) (\<lambda>d.
        Inr (newline @ ''  Mean Price: '' @ d, index + 5))
      else if i = 2 then
        bindE (decimal_at output (base + index)) (\<lambda>d.
        Inr (newline @ ''  Total Quantity: '' @ d, index + 5))
      else Inr (newline @ ''  Metric '' @ show_nat (i + 1) @ '': Not implemented'', index))"

fun print_metrics :: "byte list \<Rightarrow> i8 \<Rightarrow> nat \<Rightarrow> nat \<Rightarrow> nat list \<Rightarrow> string result" where
  "print_metrics output ml base index [] = Inr []"
| "print_metrics output ml base index (i # is) =
     (if bit ml i then
        bindE (print_metric output base index i) (\<lambda>(txt, index').
        bindE (print_metrics output ml base index' is) (\<lambda>more. Inr (txt @ more)))
      else print_metrics output ml base index is)"

definition print_set :: "byte list \<Rightarrow> i8 \<Rightarrow> nat \<Rightarrow> string result" where
  "print_set output ml set_no =
     bindE (print_metrics output ml (set_no * 20) 0 [0..<8]) (\<lambda>txt.
     Inr (newline @ ''Set '' @ show_nat (set_no + 1) @ '':'' @ txt @ newline))"

fun print_sets :: "byte list \<Rightarrow> i8 \<Rightarrow> nat list \<Rightarrow> string result" where
  "print_sets output ml [] = Inr []"
| "print_sets output ml (k # ks) =
     bindE (print_set output ml k) (\<lambda>txt.
     bindE (print_sets output ml ks) (\<lambda>more. Inr (txt @ more)))"

definition format_response :: "u64 \<Rightarrow> byte list \<Rightarrow> string result" where
  "format_response query_metrics output =
     (if output = [] then Inr newline
      else let set_size = 20;
               num_sets = (length output + set_size - 1) div set_size
           in print_sets output (client_metric_list query_metrics) [0..<num_sets])"

text \<open>One round of the client's loop: send the query, read the response, print it.\<close>

definition client_round :: "byte list \<Rightarrow> byte list \<Rightarrow> int \<Rightarrow> byte list option list \<Rightarrow> TradeDataQuery \<Rightarrow>
    (byte list \<times> string) run" where
  "client_round pad junk bytes_sent outs query =
     bindR (Some (send_message pad bytes_sent query)) (\<lambda>sent.
     bindR (read_struct_char junk outs) (\<lambda>output.
     bindR (Some (format_response (metrics query) output)) (\<lambda>txt.
     Some (Inr (sent, txt)))))"

section \<open>Lemmas\<close>

lemma client_metric_list_same: "client_metric_list m = worker_metric_list m"
  by (simp add: client_metric_list_def worker_metric_list_def)

lemma client_metric_list_bits:
  "bit (client_metric_list m) i \<longleftrightarrow> i = 0 \<and> bit m 0 \<or> i = 1 \<and> bit m 26 \<or> i = 2 \<and> bit m 33"
  by (simp only: client_metric_list_same metric_list_bits)

lemma decimal_at_Price:
  "drop i output = encode_Price p @ rest \<Longrightarrow>
    decimal_at output i = Inr (show_decimal (price p) (price_exponent p))"
proof -
  assume d: "drop i output = encode_Price p @ rest"
  have "length output - i = 5 + length rest" using arg_cong[OF d, of length] by simp
  then have l: "i + 5 \<le> length output" by linarith
  have "output ! (i + 4) = (drop i output) ! 4" using l by simp
  then have "output ! (i + 4) = price_exponent p" using d by (simp add: encode_Price_def nth_append)
  then show ?thesis using d l by (simp add: decimal_at_def u32_at_def byte_at_def encode_Price_def)
qed

lemma encode_Quantity_as_Price:
  "encode_Quantity q = encode_Price \<lparr>price = quantity q, price_exponent = quantity_exponent q\<rparr>"
  by (simp add: encode_Quantity_def encode_Price_def)

lemma decimal_at_Quantity:
  "drop i output = encode_Quantity q @ rest \<Longrightarrow>
    decimal_at output i = Inr (show_decimal (quantity q) (quantity_exponent q))"
  using decimal_at_Price[of i "output" "\<lparr>price = quantity q, price_exponent = quantity_exponent q\<rparr>" rest]
  by (simp add: encode_Quantity_as_Price)

lemma format_response_nonempty:
  "output \<noteq> [] \<Longrightarrow> (length output + 20 - 1) div 20 = n \<Longrightarrow>
    format_response m output = print_sets output (client_metric_list m) [0..<n]"
  by (simp add: format_response_def Let_def)

lemma print_sets_all:
  "(\<And>k. k \<in> set ks \<Longrightarrow> print_set output ml k = Inr (f k)) \<Longrightarrow>
    print_sets output ml ks = Inr (concat (map f ks))"
  by (induction ks) auto

lemma drop_concat_one:
  assumes "\<And>x. x \<in> set xs \<Longrightarrow> length (f x) = n" and "i < length xs"
  shows "\<exists>rest. drop (i * n) (concat (map f xs)) = f (xs ! i) @ rest"
proof -
  have "drop (i * n) (concat (map f xs)) = concat (map f (drop i xs))"
    using assms(1) by (rule drop_concat_const)
  also have "drop i xs = xs ! i # drop (Suc i) xs" using assms(2) by (simp add: Cons_nth_drop_Suc)
  finally show ?thesis by auto
qed

section \<open>All three metrics\<close>

text \<open>The values of one set, its bytes, and the text a reader expects.\<close>

record metric_set =
  set_min :: Price
  set_max :: Price
  set_mean :: Price
  set_total :: Quantity

definition set_bytes :: "metric_set \<Rightarrow> byte list" where
  "set_bytes m = encode_Price (set_min m) @ encode_Price (set_max m) @ encode_Price (set_mean m)
     @ encode_Quantity (set_total m)"

definition show_Price :: "Price \<Rightarrow> string" where
  "show_Price p = show_decimal (price p) (price_exponent p)"

definition set_text :: "nat \<Rightarrow> metric_set \<Rightarrow> string" where
  "set_text n m = newline @ ''Set '' @ show_nat n @ '':'' @
     newline @ ''  Min Price: '' @ show_Price (set_min m) @ '', Max Price: '' @ show_Price (set_max m) @
     newline @ ''  Mean Price: '' @ show_Price (set_mean m) @
     newline @ ''  Total Quantity: '' @ show_decimal (quantity (set_total m)) (quantity_exponent (set_total m)) @
     newline"

lemma length_set_bytes [simp]: "length (set_bytes m) = 20"
  by (simp add: set_bytes_def)

lemma print_set_all_metrics:
  assumes "bit m 0" and "bit m 26" and "bit m 33" and "k < length ms"
  shows "print_set (concat (map set_bytes ms)) (client_metric_list m) k = Inr (set_text (k + 1) (ms ! k))"
proof -
  let ?out = "concat (map set_bytes ms)"
  obtain rest where d: "drop (k * 20) ?out = set_bytes (ms ! k) @ rest"
    using drop_concat_one[of ms set_bytes 20 k] assms(4) by auto
  have d0: "drop (k * 20) ?out = encode_Price (set_min (ms ! k)) @ encode_Price (set_max (ms ! k))
      @ encode_Price (set_mean (ms ! k)) @ encode_Quantity (set_total (ms ! k)) @ rest"
    using d by (simp add: set_bytes_def)
  have step: "drop (k * 20 + n) ?out = drop n (drop (k * 20) ?out)" for n
    by (simp only: drop_drop add.commute)
  have "drop (k * 20 + 5) ?out = encode_Price (set_max (ms ! k)) @ encode_Price (set_mean (ms ! k))
      @ encode_Quantity (set_total (ms ! k)) @ rest"
    "drop (k * 20 + 10) ?out = encode_Price (set_mean (ms ! k)) @ encode_Quantity (set_total (ms ! k)) @ rest"
    "drop (k * 20 + 15) ?out = encode_Quantity (set_total (ms ! k)) @ rest"
    unfolding step d0 by simp_all
  note at = decimal_at_Price[OF d0] decimal_at_Price[OF this(1)] decimal_at_Price[OF this(2)]
    decimal_at_Quantity[OF this(3)]
  show ?thesis
    using assms(1-3) at
    by (simp add: print_set_def upt_8 client_metric_list_bits print_metric_def set_text_def show_Price_def)
qed

lemma all_metrics_text:
  assumes "bit m 0" and "bit m 26" and "bit m 33" and "ms \<noteq> []"
  shows "format_response m (concat (map set_bytes ms))
    = Inr (concat (map (\<lambda>k. set_text (k + 1) (ms ! k)) [0..<length ms]))"
proof -
  have l: "length (concat (map set_bytes ms)) = length ms * 20" by (rule length_concat_const) simp
  then have "(length (concat (map set_bytes ms)) + 20 - 1) div 20 = length ms"
    using assms(4) by simp
  moreover have "concat (map set_bytes ms) \<noteq> []" using l assms(4) by fastforce
  ultimately have "format_response m (concat (map set_bytes ms))
      = print_sets (concat (map set_bytes ms)) (client_metric_list m) [0..<length ms]"
    by (intro format_response_nonempty)
  also have "\<dots> = Inr (concat (map (\<lambda>k. set_text (k + 1) (ms ! k)) [0..<length ms]))"
    by (intro print_sets_all print_set_all_metrics[OF assms(1-3)]) simp
  finally show ?thesis .
qed

text \<open>C32. For a query for all three metrics the client prints exactly what the server encoded: on a
  response that is a sequence of sets of minimum and maximum price, mean price and total quantity,
  every set is printed once, in order, numbered from 1, with its four values.\<close>

theorem client_prints_all_metrics:
  assumes "bit m 0" and "bit m 26" and "bit m 33" and "ms \<noteq> []"
  shows "format_response m (concat (map set_bytes ms))
    = Inr (concat (map (\<lambda>k. set_text (k + 1) (ms ! k)) [0..<length ms]))"
  using assms by (rule all_metrics_text)

section \<open>Fewer metrics\<close>

text \<open>The bytes and the text of a set that holds the minimum and maximum price only.\<close>

definition pair_bytes :: "Price \<times> Price \<Rightarrow> byte list" where
  "pair_bytes p = encode_Price (fst p) @ encode_Price (snd p)"

definition pair_text :: "nat \<Rightarrow> Price \<times> Price \<Rightarrow> string" where
  "pair_text n p = newline @ ''Set '' @ show_nat n @ '':'' @
     newline @ ''  Min Price: '' @ show_Price (fst p) @ '', Max Price: '' @ show_Price (snd p) @ newline"

lemma length_pair_bytes [simp]: "length (pair_bytes p) = 10"
  by (simp add: pair_bytes_def)

lemma print_set_pairs:
  assumes "bit m 0" and "\<not> bit m 26" and "\<not> bit m 33" and "2 * k < length ps"
  shows "print_set (concat (map pair_bytes ps)) (client_metric_list m) k
    = Inr (pair_text (k + 1) (ps ! (2 * k)))"
proof -
  let ?out = "concat (map pair_bytes ps)"
  obtain rest where d: "drop (2 * k * 10) ?out = pair_bytes (ps ! (2 * k)) @ rest"
    using drop_concat_one[of ps pair_bytes 10 "2 * k"] assms(4) by auto
  have d0: "drop (k * 20) ?out = encode_Price (fst (ps ! (2 * k))) @ encode_Price (snd (ps ! (2 * k))) @ rest"
    using d by (simp add: pair_bytes_def mult.commute)
  have "drop (k * 20 + 5) ?out = drop 5 (drop (k * 20) ?out)" by (simp only: drop_drop add.commute)
  then have d5: "drop (k * 20 + 5) ?out = encode_Price (snd (ps ! (2 * k))) @ rest"
    unfolding d0 by simp
  show ?thesis
    using assms(1-3) decimal_at_Price[OF d0] decimal_at_Price[OF d5]
    by (simp add: print_set_def upt_8 client_metric_list_bits print_metric_def pair_text_def show_Price_def)
qed

text \<open>For a query for the minimum and maximum price only, whose sets are 10 bytes long, the client
  still steps by 20 bytes: it prints every other set of the response and numbers those it prints
  consecutively, so half of the intervals are missing and the numbers are wrong.\<close>

theorem client_skips_sets:
  assumes "bit m 0" and "\<not> bit m 26" and "\<not> bit m 33" and "ps \<noteq> []"
  shows "format_response m (concat (map pair_bytes ps))
    = Inr (concat (map (\<lambda>k. pair_text (k + 1) (ps ! (2 * k))) [0..<(length ps + 1) div 2]))"
proof -
  have l: "length (concat (map pair_bytes ps)) = length ps * 10" by (rule length_concat_const) simp
  have "(length ps * 10 + 20 - 1) div 20 = (length ps + 1) div 2"
    using assms(4) by (cases "even (length ps)") (auto elim!: evenE oddE)
  then have n: "(length (concat (map pair_bytes ps)) + 20 - 1) div 20 = (length ps + 1) div 2"
    using l by simp
  have "2 * k < length ps" if "k < (length ps + 1) div 2" for k using that by linarith
  moreover have "concat (map pair_bytes ps) \<noteq> []" using l assms(4) by fastforce
  ultimately have k: "\<And>k. k \<in> set [0..<(length ps + 1) div 2] \<Longrightarrow> 2 * k < length ps"
    and "format_response m (concat (map pair_bytes ps))
      = print_sets (concat (map pair_bytes ps)) (client_metric_list m) [0..<(length ps + 1) div 2]"
    using n by (simp, intro format_response_nonempty)
  note this(2)
  also have "print_sets (concat (map pair_bytes ps)) (client_metric_list m) [0..<(length ps + 1) div 2]
      = Inr (concat (map (\<lambda>k. pair_text (k + 1) (ps ! (2 * k))) [0..<(length ps + 1) div 2]))"
    by (intro print_sets_all print_set_pairs[OF assms(1-3)] k)
  finally show ?thesis .
qed

definition sample_set :: metric_set where
  "sample_set = \<lparr>set_min = \<lparr>price = 100, price_exponent = - 2\<rparr>, set_max = \<lparr>price = 250, price_exponent = - 2\<rparr>,
     set_mean = \<lparr>price = 175, price_exponent = - 2\<rparr>, set_total = \<lparr>quantity = 4, quantity_exponent = 0\<rparr>\<rparr>"

definition all_metrics :: u64 where
  "all_metrics = 1 + 2 ^ 26 + 2 ^ 33"

lemma all_metrics_bits: "bit all_metrics 0" "bit all_metrics 26" "bit all_metrics 33"
  by code_simp+

theorem client_prints_all_metrics_witness:
  "format_response all_metrics (set_bytes sample_set) = Inr (set_text 1 sample_set)"
  using client_prints_all_metrics[OF all_metrics_bits, of "[sample_set]"] by simp

theorem client_skips_sets_witness:
  "format_response 1 (pair_bytes (zero_Price, zero_Price) @ pair_bytes (set_min sample_set, set_max sample_set))
    = Inr (pair_text 1 (zero_Price, zero_Price))"
  using client_skips_sets[of 1 "[(zero_Price, zero_Price), (set_min sample_set, set_max sample_set)]"]
  by (simp add: bit_1_iff)

end
