(* ===== verification/Client_Session.thy ===== *)
theory Client_Session
  imports Client_Main
begin

text \<open>
  \<open>main\<close> of \<open>src/client_main.cc\<close>: connecting, and the loop that reads a query from the standard
  input, sends it and prints the response. What the system calls of one round deliver is a record
  \<open>round_env\<close>; the loop runs for the rounds it is given. The output is the list of events in the
  order they happen, so what was sent and printed before an exception is kept.
\<close>

section \<open>Reading a query\<close>

text \<open>The variable \<open>query\<close> is not initialised: a field that is not read keeps the value in \<open>old\<close>.\<close>

definition read_query :: "istream \<Rightarrow> TradeDataQuery \<Rightarrow> istream \<times> TradeDataQuery" where
  "read_query s old =
     (let (s1, sym) = read_uint s (query_symbol_id old);
          (s2, start_t) = read_uint s1 (start_time_point old);
          (s3, end_t) = read_uint s2 (end_time_point old);
          (s4, res) = read_uint s3 (resolution old);
          (s5, ms) = read_uint s4 (metrics old)
      in (s5, \<lparr>query_symbol_id = sym, start_time_point = start_t, end_time_point = end_t,
               resolution = res, metrics = ms\<rparr>))"

section \<open>The loop\<close>

text \<open>
  One round: the padding of the query, the memory the uninitialised query occupies, what \<open>send\<close>
  returns, the memory of the uninitialised count, and what the calls of \<open>recv\<close> deliver.
\<close>

record round_env =
  env_pad :: "byte list"
  env_query :: TradeDataQuery
  env_sent :: int
  env_junk :: "byte list"
  env_recvs :: "byte list option list"

datatype client_event = Sent "byte list" | Printed string

text \<open>
  The events of one round and its outcome: the stream, an exception, or \<open>None\<close> when the client
  waits in \<open>recv\<close> for ever.
\<close>

definition client_step :: "round_env \<Rightarrow> istream \<Rightarrow> client_event list \<times> istream run" where
  "client_step env s =
     (let (s', query) = read_query s (env_query env)
      in case send_message (env_pad env) (env_sent env) query of
           Inl err \<Rightarrow> ([], Some (Inl err))
         | Inr sent \<Rightarrow>
             (case bindR (read_struct_char (env_junk env) (env_recvs env))
                     (\<lambda>output. Some (format_response (metrics query) output)) of
                None \<Rightarrow> ([Sent sent], None)
              | Some (Inl err) \<Rightarrow> ([Sent sent], Some (Inl err))
              | Some (Inr txt) \<Rightarrow> ([Sent sent, Printed txt], Some (Inr s'))))"

text \<open>
  The loop and the exit code of the program. Built with \<open>TESTMODE\<close> it ends after one round;
  otherwise nothing sets \<open>g_client_running\<close> to false and the outcome \<open>None\<close> is a client that is
  still running after the rounds given.
\<close>

fun client_loop :: "bool \<Rightarrow> round_env list \<Rightarrow> istream \<Rightarrow> client_event list \<times> int run" where
  "client_loop testmode [] s = ([], None)"
| "client_loop testmode (env # envs) s =
     (case client_step env s of
        (evs, None) \<Rightarrow> (evs, None)
      | (evs, Some (Inl err)) \<Rightarrow> (evs, Some (Inl err))
      | (evs, Some (Inr s')) \<Rightarrow>
          if testmode then (evs, Some (Inr 0))
          else (case client_loop testmode envs s' of (evs', r) \<Rightarrow> (evs @ evs', r)))"

text \<open>
  The program: \<open>sock\<close> is what \<open>socket\<close> returns, \<open>pton\<close> what \<open>inet_pton\<close> makes of an address (\<open>None\<close>
  when it refuses it), \<open>ret\<close> what \<open>connect\<close> returns. Every exception of the constructor is caught
  and ends the program with exit code 1.
\<close>

definition client_main ::
  "bool \<Rightarrow> string list \<Rightarrow> int \<Rightarrow> (string \<Rightarrow> u32 option) \<Rightarrow> u32 \<Rightarrow> int \<Rightarrow>
    round_env list \<Rightarrow> string \<Rightarrow> client_event list \<times> int run" where
  "client_main testmode args sock pton junk ret envs stdin =
     (let (server_ip, port) = parse_args args
      in case new_Client sock (pton server_ip) junk ret (client_port port) of
           Inl err \<Rightarrow> ([], Some (Inr 1))
         | Inr _ \<Rightarrow> client_loop testmode envs \<lparr>stream_rest = stdin, stream_good = True\<rparr>)"

section \<open>Well-formed input\<close>

text \<open>A query as a user types it: five numbers, separated by blanks, and a newline.\<close>

definition query_line :: "TradeDataQuery \<Rightarrow> string" where
  "query_line q =
     show_nat (unat (query_symbol_id q)) @ '' '' @ show_nat (unat (start_time_point q)) @ '' '' @
     show_nat (unat (end_time_point q)) @ '' '' @ show_nat (unat (resolution q)) @ '' '' @
     show_nat (unat (metrics q)) @ newline"

lemma blank_facts: "is_space CHR '' ''" "\<not> is_digit CHR '' ''" "is_space CHR 0x0A" "\<not> is_digit CHR 0x0A"
  by (simp_all add: is_space_def is_digit_def)

lemma read_uint_field:
  "\<forall>c \<in> set ws. is_space c \<Longrightarrow> \<not> is_digit d \<Longrightarrow>
    read_uint \<lparr>stream_rest = ws @ show_nat (unat w) @ d # r, stream_good = True\<rparr> (old :: 'a::len word)
    = (\<lparr>stream_rest = d # r, stream_good = True\<rparr>, w)"
  using read_uint_show[of ws "d # r" "unat w", where old = old] by simp

lemma read_uint_blank: "\<not> is_digit d \<Longrightarrow>
    read_uint \<lparr>stream_rest = CHR '' '' # show_nat (unat w) @ d # r, stream_good = True\<rparr> (old :: 'a::len word)
    = (\<lparr>stream_rest = d # r, stream_good = True\<rparr>, w)"
  using read_uint_field[of "'' ''" d w r old] by (simp add: blank_facts)

lemma read_query_line:
  assumes "\<forall>c \<in> set ws. is_space c"
  shows "read_query \<lparr>stream_rest = ws @ query_line q @ r, stream_good = True\<rparr> old
    = (\<lparr>stream_rest = newline @ r, stream_good = True\<rparr>, q)"
  using assms
  by (simp add: read_query_def query_line_def newline_def blank_facts read_uint_field read_uint_blank)

text \<open>White space and a failed stream give nothing to read.\<close>

definition exhausted :: "istream \<Rightarrow> bool" where
  "exhausted s \<longleftrightarrow> \<not> stream_good s \<or> (\<forall>c \<in> set (stream_rest s). is_space c)"

lemma read_uint_exhausted:
  "exhausted s \<Longrightarrow> \<exists>s'. read_uint s old = (s', old) \<and> \<not> stream_good s'"
  using read_uint_fails(1)[of s old] read_uint_fails(2)[of "stream_rest s" old]
  by (cases s; cases "stream_good s") (auto simp: exhausted_def)

lemma read_query_exhausted:
  assumes "exhausted s"
  shows "\<exists>s'. read_query s old = (s', old) \<and> exhausted s'"
proof -
  obtain s1 where "read_uint s (query_symbol_id old) = (s1, query_symbol_id old)" "\<not> stream_good s1"
    using read_uint_exhausted[OF assms] by blast
  then show ?thesis by (simp add: read_query_def read_uint_fails exhausted_def)
qed

section \<open>What the client does\<close>

text \<open>
  A round whose response is complete: the client reads \<open>bytes\<close> and prints \<open>txt\<close>. Whatever more the
  connection carries is not read.
\<close>

definition answered :: "round_env \<Rightarrow> TradeDataQuery \<Rightarrow> byte list \<Rightarrow> string \<Rightarrow> bool" where
  "answered env q bytes txt \<longleftrightarrow> env_sent env = int sizeof_TradeDataQuery \<and> length bytes < 2 ^ 31
     \<and> (\<exists>rest. env_recvs env = char_recvs (le32 (of_nat (length bytes)) @ bytes @ rest))
     \<and> format_response (metrics q) bytes = Inr txt"

lemma client_step_answered:
  assumes "read_query s (env_query env) = (s', q)" and "answered env q bytes shown"
  shows "client_step env s
    = ([Sent (encode_TradeDataQuery (env_pad env) q), Printed shown], Some (Inr s'))"
  using assms read_char_complete[of bytes "env_junk env"]
  by (auto simp: client_step_def answered_def send_message_def)

lemma client_loop_answered:
  assumes "read_query s (env_query env) = (s', q)" and "answered env q bytes shown"
    and "client_loop False envs s' = (evs, r)"
  shows "client_loop False (env # envs) s
    = (Sent (encode_TradeDataQuery (env_pad env) q) # Printed shown # evs, r)"
  using client_step_answered[OF assms(1,2)] assms(3) by simp

lemma newline_space: "\<forall>c \<in> set newline. is_space c"
  by (simp add: newline_def blank_facts)

lemma session_lines:
  assumes "\<forall>(env, q, bytes, shown) \<in> set rounds. answered env q bytes shown" and "\<forall>c \<in> set ws. is_space c"
    and "\<forall>(env, bytes, shown) \<in> set late. answered env (env_query env) bytes shown"
  shows "client_loop False (map fst rounds @ map fst late)
      \<lparr>stream_rest = ws @ concat (map (query_line \<circ> fst \<circ> snd) rounds), stream_good = True\<rparr>
    = (concat (map (\<lambda>(env, q, bytes, shown).
        [Sent (encode_TradeDataQuery (env_pad env) q), Printed shown]) rounds) @
       concat (map (\<lambda>(env, bytes, shown).
        [Sent (encode_TradeDataQuery (env_pad env) (env_query env)), Printed shown]) late), None)"
  using assms(1,2)
proof (induction rounds arbitrary: ws)
  case Nil
  have "client_loop False (map fst late) s = (concat (map (\<lambda>(env, bytes, shown).
      [Sent (encode_TradeDataQuery (env_pad env) (env_query env)), Printed shown]) late), None)"
    if "exhausted s" for s
    using assms(3) that
  proof (induction late arbitrary: s)
    case Nil
    then show ?case by simp
  next
    case (Cons r late)
    obtain env bytes shown where r: "r = (env, bytes, shown)" by (cases r)
    obtain s' where s': "read_query s (env_query env) = (s', env_query env)" "exhausted s'"
      using read_query_exhausted[OF Cons.prems(2)] by blast
    show ?case
      using client_loop_answered[OF s'(1) _ Cons.IH[OF _ s'(2)], of bytes shown] Cons.prems(1)
      by (simp add: r)
  qed
  then show ?case using Nil(2) by (simp add: exhausted_def)
next
  case (Cons r rounds)
  obtain env q bytes shown where r: "r = (env, q, bytes, shown)" by (cases r)
  have "answered env q bytes shown" using Cons.prems(1) by (simp add: r)
  from client_loop_answered[OF read_query_line[OF Cons.prems(2)] this Cons.IH[OF _ newline_space]] Cons.prems(1)
  show ?case by (simp add: r)
qed

text \<open>The queries in the messages a client sent, and those it reads in the rounds \<open>envs\<close>.\<close>

definition sent_queries :: "client_event list \<Rightarrow> TradeDataQuery list" where
  "sent_queries evs = concat (map (\<lambda>ev. case ev of Sent msg \<Rightarrow> [decode_TradeDataQuery msg] | Printed _ \<Rightarrow> []) evs)"

lemma sent_queries_simps [simp]:
  "sent_queries [] = []" "sent_queries (Sent (encode_TradeDataQuery pad q) # evs) = q # sent_queries evs"
  "sent_queries (Printed txt # evs) = sent_queries evs"
  by (simp_all add: sent_queries_def)

fun queries_read :: "round_env list \<Rightarrow> istream \<Rightarrow> TradeDataQuery list" where
  "queries_read [] s = []"
| "queries_read (env # envs) s = (let (s', q) = read_query s (env_query env) in q # queries_read envs s')"

lemma queries_read_exhausted: "exhausted s \<Longrightarrow> queries_read envs s = map env_query envs"
proof (induction envs arbitrary: s)
  case (Cons env envs)
  from read_query_exhausted[OF Cons.prems, of "env_query env"] Cons.IH show ?case by (auto simp: Let_def)
qed simp

lemma queries_read_lines:
  assumes "\<forall>c \<in> set ws. is_space c"
  shows "queries_read envs \<lparr>stream_rest = ws @ concat (map query_line qs), stream_good = True\<rparr>
    = take (length envs) qs @ map env_query (drop (length qs) envs)"
  using assms
proof (induction qs arbitrary: envs ws)
  case Nil
  then show ?case by (simp add: queries_read_exhausted exhausted_def)
next
  case (Cons q qs)
  show ?case
  proof (cases envs)
    case (Cons env envs')
    show ?thesis
      using Cons.IH[OF newline_space] read_query_line[OF Cons.prems, of q "concat (map query_line qs)" "env_query env"]
      by (simp add: Cons)
  qed simp
qed

text \<open>
  A client whose messages are the queries \<open>qs\<close>, and which gets in each round the answer to the query
  of \<open>qs\<close> with that number, prints these answers, and \<open>qs\<close> is what it read.
\<close>

lemma session_follows:
  assumes "length envs = length qs" and "\<forall>(env, q) \<in> set (zip envs qs). answered env q (resp q) (shown q)"
    and "client_loop False envs s = (evs, r)" and "sent_queries evs = qs"
  shows "evs = concat (map (\<lambda>(env, q). [Sent (encode_TradeDataQuery (env_pad env) q), Printed (shown q)])
      (zip envs qs)) \<and> r = None \<and> qs = queries_read envs s"
  using assms
proof (induction envs qs arbitrary: s evs r rule: list_induct2')
  case (4 env envs q qs)
  obtain s' x where x: "read_query s (env_query env) = (s', x)" by fastforce
  have a: "answered env q (resp q) (shown q)" using 4(3) by simp
  have "\<exists>evs'. evs = Sent (encode_TradeDataQuery (env_pad env) x) # evs'"
    using 4(4) a x by (auto simp: client_step_def send_message_def answered_def Let_def
        split: prod.splits option.splits sum.splits)
  then have "x = q" using 4(5) by auto
  obtain evs' r' where e: "client_loop False envs s' = (evs', r')" by fastforce
  have evs: "evs = Sent (encode_TradeDataQuery (env_pad env) q) # Printed (shown q) # evs'" "r = r'"
    using client_loop_answered[OF x a[folded \<open>x = q\<close>] e] 4(4) \<open>x = q\<close> by auto
  from 4(1)[OF _ _ e] 4(2,3,5) evs x \<open>x = q\<close> show ?case by auto
qed auto

text \<open>The three calls of the constructor succeed.\<close>

definition connects :: "string list \<Rightarrow> int \<Rightarrow> (string \<Rightarrow> u32 option) \<Rightarrow> int \<Rightarrow> bool" where
  "connects args sock pton ret \<longleftrightarrow> 0 \<le> sock \<and> pton (fst (parse_args args)) \<noteq> None \<and> 0 \<le> ret"

lemma client_main_connected:
  assumes "connects args sock pton ret"
  shows "client_main testmode args sock pton junk ret envs stdin
    = client_loop testmode envs \<lparr>stream_rest = stdin, stream_good = True\<rparr>"
  using assms
  by (auto simp: connects_def client_main_def new_Client_def create_socket_def
      create_server_address_def connect_to_server_def Let_def split: prod.splits)

text \<open>C26. The end of the standard input does not end the client: when the queries have been read, every
  further round sends the bytes of the uninitialised variable \<open>query\<close> to the server and prints the
  response, and the client never returns.\<close>

theorem client_resends_at_eof:
  assumes "connects args sock pton ret"
    and "\<forall>(env, q, bytes, shown) \<in> set rounds. answered env q bytes shown"
    and "\<forall>(env, bytes, shown) \<in> set late. answered env (env_query env) bytes shown"
  shows "client_main False args sock pton junk ret (map fst rounds @ map fst late)
      (concat (map (query_line \<circ> fst \<circ> snd) rounds))
    = (concat (map (\<lambda>(env, q, bytes, shown).
        [Sent (encode_TradeDataQuery (env_pad env) q), Printed shown]) rounds) @
       concat (map (\<lambda>(env, bytes, shown).
        [Sent (encode_TradeDataQuery (env_pad env) (env_query env)), Printed shown]) late), None)"
  using client_main_connected[OF assms(1)] session_lines[OF assms(2) _ assms(3), of "[]"] by simp

section \<open>A session\<close>

definition session_query :: TradeDataQuery where
  "session_query = \<lparr>query_symbol_id = 1, start_time_point = 10, end_time_point = 30, resolution = 20,
     metrics = all_metrics\<rparr>"

definition sample_env :: round_env where
  "sample_env = \<lparr>env_pad = [], env_query = session_query, env_sent = 40, env_junk = [],
     env_recvs = char_recvs (le32 20 @ set_bytes sample_set)\<rparr>"

lemma sample_answered: "answered sample_env session_query (set_bytes sample_set) (set_text 1 sample_set)"
  using all_metrics_text[OF all_metrics_bits, of "[sample_set]"]
  by (auto simp: answered_def sample_env_def session_query_def intro!: exI[of _ "[]"])

lemma sample_connects: "connects [] 3 (\<lambda>_. Some 0) 0"
  by (simp add: connects_def)

theorem client_resends_at_eof_witness:
  "client_main False [] 3 (\<lambda>_. Some 0) 0 0 [sample_env] []
    = ([Sent (encode_TradeDataQuery [] session_query), Printed (set_text 1 sample_set)], None)"
  using client_resends_at_eof[OF sample_connects, of "[]"
      "[(sample_env, set_bytes sample_set, set_text 1 sample_set)]" 0] sample_answered
  by (simp add: sample_env_def session_query_def)

text \<open>What else the loop does: a client built with \<open>TESTMODE\<close> ends with exit code 0 after one round; a
  failed connection ends the program with exit code 1 before anything is read.\<close>

lemma client_main_testmode:
  assumes "read_query \<lparr>stream_rest = stdin, stream_good = True\<rparr> (env_query env) = (s', q)"
    and "answered env q bytes shown"
    and "connects args sock pton ret"
  shows "client_main True args sock pton junk ret (env # envs) stdin
    = ([Sent (encode_TradeDataQuery (env_pad env) q), Printed shown], Some (Inr 0))"
  using client_main_connected[OF assms(3)] client_step_answered[OF assms(1,2)] by simp

lemma client_main_refused:
  assumes "\<not> connects args sock pton ret"
  shows "client_main testmode args sock pton junk ret envs stdin = ([], Some (Inr 1))"
  using assms
  by (auto simp: connects_def client_main_def new_Client_def create_socket_def
      create_server_address_def connect_to_server_def check_error_def Let_def bindE_def
      split: prod.splits option.splits)

end
