(* ===== verification/Sender.thy ===== *)
theory Sender
  imports TS_Queue Trade_Data
begin

text \<open>
  \<open>src/server/sender.cc\<close> (its UDP copy is in \<open>Udp\<close>): the queue \<open>OffloadQueue\<close> of pending messages and the functions that hand a message to a socket, and \<open>receive_data\<close> of
  \<open>src/server/receiver.cc\<close>. What \<open>send\<close>, \<open>sendto\<close> and \<open>recv\<close> return is an argument: negative
  for an error, otherwise the number of bytes taken or delivered.
\<close>

section \<open>Handing a message to a socket\<close>

text \<open>The bytes that go out and whether the warning about a partial send is printed.\<close>

definition send_data :: "int \<Rightarrow> byte list \<Rightarrow> (byte list \<times> bool) result" where
  "send_data bytes_sent msg =
     (if bytes_sent < 0 then Inl (Runtime_error ''Failed to send data: '')
      else Inr (take (nat bytes_sent) msg, bytes_sent < int (length msg)))"

definition send_Result :: "int \<Rightarrow> Result \<Rightarrow> (byte list \<times> bool) result" where
  "send_Result bytes_sent r =
     (if bytes_sent < 0 then Inl (Runtime_error ''Failed to send data: '')
      else Inr (take (nat bytes_sent) (encode_Result r), bytes_sent < int sizeof_Result))"

definition send_TradeData :: "byte \<Rightarrow> int \<Rightarrow> TradeData \<Rightarrow> (byte list \<times> bool) result" where
  "send_TradeData pad bytes_sent t =
     (if bytes_sent < 0 then Inl (Runtime_error ''Failed to send data: '')
      else Inr (take (nat bytes_sent) (encode_TradeData pad t), bytes_sent < int sizeof_TradeData))"

text \<open>
  \<open>receive_data\<close>: \<open>got\<close> is what \<open>recv\<close> delivered (\<open>None\<close> for an error), \<open>old\<close> the bytes of the
  query variable before the call; a short read leaves the rest of them.
\<close>

definition receive_data :: "byte list option \<Rightarrow> byte list \<Rightarrow> (TradeDataQuery \<times> bool) result" where
  "receive_data got old = (case got of
      None \<Rightarrow> Inl (Runtime_error ''Failed to receive data: '')
    | Some bs \<Rightarrow> Inr (decode_TradeDataQuery (bs @ drop (length bs) old), length bs < sizeof_TradeDataQuery))"


section \<open>The queue of pending messages\<close>

text \<open>
  The class \<open>OffloadQueue\<close> of \<open>sender.h\<close>. Its private members wrap those of
  \<open>std::queue\<close> (\<open>queue_\<close>, here \<open>messages\<close>); \<open>front\<close> and \<open>pop\<close> of an empty queue are undefined behaviour, here \<open>None\<close>.
\<close>

record OffloadQueue =
  messages :: "(i32 \<times> byte list) list"

definition OffloadQueue_empty :: "OffloadQueue \<Rightarrow> bool" where
  "OffloadQueue_empty q = (messages q = [])"

definition OffloadQueue_front :: "OffloadQueue \<Rightarrow> (i32 \<times> byte list) option" where
  "OffloadQueue_front q = (case messages q of [] \<Rightarrow> None | m # _ \<Rightarrow> Some m)"

definition OffloadQueue_push :: "i32 \<times> byte list \<Rightarrow> OffloadQueue \<Rightarrow> OffloadQueue" where
  "OffloadQueue_push m q = q\<lparr>messages := messages q @ [m]\<rparr>"

definition OffloadQueue_pop :: "OffloadQueue \<Rightarrow> OffloadQueue option" where
  "OffloadQueue_pop q = (case messages q of [] \<Rightarrow> None | _ # ms \<Rightarrow> Some (q\<lparr>messages := ms\<rparr>))"

definition serialise :: "byte list \<Rightarrow> byte list" where
  "serialise final_result = final_result"

definition serialise_and_enqueue :: "OffloadQueue \<Rightarrow> i32 \<Rightarrow> byte list \<Rightarrow> OffloadQueue" where
  "serialise_and_enqueue q sockfd final_result =
     (let serialised_data = serialise final_result in q\<lparr>messages := messages q @ [(sockfd, serialised_data)]\<rparr>)"

text \<open>
  \<open>offload_one\<close>: the message is removed after it was handed over, so an exception of
  \<open>send_data\<close> leaves it in the queue. \<open>outcome\<close> is what \<open>send\<close> returns for the front message.
\<close>

definition offload_one :: "(i32 \<Rightarrow> byte list \<Rightarrow> int) \<Rightarrow> OffloadQueue \<Rightarrow>
    (i32 \<times> byte list) option result \<times> OffloadQueue" where
  "offload_one outcome q = (case messages q of
      [] \<Rightarrow> (Inr None, q)
    | (sockfd, data) # rest \<Rightarrow>
        (case send_data (outcome sockfd data) data of
           Inl err \<Rightarrow> (Inl err, q)
         | Inr (bs, warned) \<Rightarrow> (Inr (Some (sockfd, bs)), q\<lparr>messages := rest\<rparr>)))"

definition offload_pop :: "OffloadQueue \<Rightarrow> ((i32 \<times> byte list) \<times> OffloadQueue) option" where
  "offload_pop q = (case offload_one (\<lambda>fd msg. int (length msg)) q of
      (Inr (Some m), rest) \<Rightarrow> Some (m, rest)
    | _ \<Rightarrow> None)"

interpretation offload: fifo "\<lambda>q (fd, msg). serialise_and_enqueue q fd msg" offload_pop messages
  by unfold_locales
    (auto simp: serialise_and_enqueue_def serialise_def offload_pop_def offload_one_def send_data_def
      split: list.splits prod.splits)

text \<open>The private members are a queue as well.\<close>

interpretation offload_private: fifo "\<lambda>q m. OffloadQueue_push m q"
    "\<lambda>q. Option.bind (OffloadQueue_front q) (\<lambda>m. map_option (Pair m) (OffloadQueue_pop q))" messages
  by unfold_locales
    (auto simp: OffloadQueue_push_def OffloadQueue_front_def OffloadQueue_pop_def split: list.splits)

text \<open>The public operations do what the private members would, and never reach their undefined cases.\<close>

lemma offload_by_members:
  "serialise_and_enqueue q fd msg = OffloadQueue_push (fd, serialise msg) q"
  "offload_one outcome q =
    (if OffloadQueue_empty q then (Inr None, q)
     else let (sockfd, data) = the (OffloadQueue_front q)
          in case send_data (outcome sockfd data) data of
               Inl err \<Rightarrow> (Inl err, q)
             | Inr (bs, warned) \<Rightarrow> (Inr (Some (sockfd, bs)), the (OffloadQueue_pop q)))"
  "\<not> OffloadQueue_empty q \<Longrightarrow> OffloadQueue_front q \<noteq> None \<and> OffloadQueue_pop q \<noteq> None"
  by (auto simp: serialise_and_enqueue_def offload_one_def OffloadQueue_push_def OffloadQueue_empty_def
      OffloadQueue_front_def OffloadQueue_pop_def split: list.splits sum.splits)

text \<open>A failed send loses nothing: \<open>offload_one\<close> throws and leaves the queue as it was; a
  successful one removes exactly the front message, whatever part of it the socket took.\<close>

lemma offload_one_step:
  "messages q = (fd, msg) # rest \<Longrightarrow> offload_one outcome q =
    (if outcome fd msg < 0 then (Inl (Runtime_error ''Failed to send data: ''), q)
     else (Inr (Some (fd, take (nat (outcome fd msg)) msg)), q\<lparr>messages := rest\<rparr>))"
  by (simp add: offload_one_def send_data_def)

end
