(* ===== verification/Udp.thy ===== *)
theory Udp
  imports Client_Session Server Sender
begin

text \<open>
  The UDP variant: \<open>src/server_udp/server_udp.cc\<close> and \<open>sender_udp.cc\<close>, \<open>src/client_udp/client_udp.cc\<close>,
  \<open>src/client_main_udp.cc\<close> and \<open>src/utils/net_udp/net_udp.h\<close>. The server computes its answer with the
  member function \<open>lowest_and_highest_prices\<close>, which \<open>query_engine.h\<close> declares and no file of the
  repository defines: it is the parameter \<open>lh\<close> of the definitions here. One datagram is one byte
  string, and a \<open>recv\<close> that asks for fewer bytes than the datagram holds loses the rest of it.
\<close>

section \<open>Sockets and senders\<close>

text \<open>\<open>net_udp.h\<close> and \<open>sender_udp.cc\<close> repeat the TCP files with \<open>sendto\<close> and the client's address.\<close>

definition create_socket_udp :: "int \<Rightarrow> int result" where
  "create_socket_udp sock = bindE (check_error (sock < 0) ''Socket creation error'') (\<lambda>_. Inr sock)"

definition create_address_udp :: "u32 \<Rightarrow> u16 \<Rightarrow> sockaddr_in" where
  "create_address_udp junk port = \<lparr>sin_family = AF_INET, sin_port = htons port, sin_addr = junk\<rparr>"

definition send_data_udp :: "int \<Rightarrow> byte list \<Rightarrow> (byte list \<times> bool) result" where
  "send_data_udp bytes_sent msg =
     (if bytes_sent < 0 then Inl (Runtime_error ''Failed to send data: '')
      else Inr (take (nat bytes_sent) msg, bytes_sent < int (length msg)))"

text \<open>The class \<open>OffloadQueue\<close> of \<open>sender_udp.h\<close>, whose private members are used as in \<open>sender.h\<close>.\<close>

record OffloadQueue_udp =
  udp_messages :: "(i32 \<times> byte list) list"

definition OffloadQueue_udp_empty :: "OffloadQueue_udp \<Rightarrow> bool" where
  "OffloadQueue_udp_empty q = (udp_messages q = [])"

definition OffloadQueue_udp_front :: "OffloadQueue_udp \<Rightarrow> (i32 \<times> byte list) option" where
  "OffloadQueue_udp_front q = (case udp_messages q of [] \<Rightarrow> None | m # _ \<Rightarrow> Some m)"

definition OffloadQueue_udp_push :: "i32 \<times> byte list \<Rightarrow> OffloadQueue_udp \<Rightarrow> OffloadQueue_udp" where
  "OffloadQueue_udp_push m q = q\<lparr>udp_messages := udp_messages q @ [m]\<rparr>"

definition OffloadQueue_udp_pop :: "OffloadQueue_udp \<Rightarrow> OffloadQueue_udp option" where
  "OffloadQueue_udp_pop q = (case udp_messages q of [] \<Rightarrow> None | _ # ms \<Rightarrow> Some (q\<lparr>udp_messages := ms\<rparr>))"

definition serialise_udp :: "byte list \<Rightarrow> byte list" where
  "serialise_udp final_result = final_result"

definition serialise_and_enqueue_udp :: "OffloadQueue_udp \<Rightarrow> i32 \<Rightarrow> byte list \<Rightarrow> OffloadQueue_udp" where
  "serialise_and_enqueue_udp q sockfd final_result =
     (let serialised_data = serialise_udp final_result
      in q\<lparr>udp_messages := udp_messages q @ [(sockfd, serialised_data)]\<rparr>)"

definition offload_one_udp :: "(i32 \<Rightarrow> byte list \<Rightarrow> int) \<Rightarrow> OffloadQueue_udp \<Rightarrow>
    (i32 \<times> byte list) option result \<times> OffloadQueue_udp" where
  "offload_one_udp outcome q =
     (if udp_messages q = [] then (Inr None, q)
      else let (sockfd, msg) = hd (udp_messages q)
           in case send_data_udp (outcome sockfd msg) msg of
                Inl err \<Rightarrow> (Inl err, q)
              | Inr (bs, _) \<Rightarrow> (Inr (Some (sockfd, bs)), q\<lparr>udp_messages := tl (udp_messages q)\<rparr>))"

definition send_Result_udp :: "int \<Rightarrow> Result \<Rightarrow> (byte list \<times> bool) result" where
  "send_Result_udp bytes_sent r =
     (if bytes_sent < 0 then Inl (Runtime_error ''Failed to send data: '')
      else Inr (take (nat bytes_sent) (encode_Result r), bytes_sent < int sizeof_Result))"

definition send_TradeData_udp :: "byte \<Rightarrow> int \<Rightarrow> TradeData \<Rightarrow> (byte list \<times> bool) result" where
  "send_TradeData_udp pad bytes_sent t =
     (if bytes_sent < 0 then Inl (Runtime_error ''Failed to send data: '')
      else Inr (take (nat bytes_sent) (encode_TradeData pad t), bytes_sent < int sizeof_TradeData))"

text \<open>The copies agree with the TCP versions, so the lemmas about those apply.\<close>

lemma udp_copies:
  "create_socket_udp = create_socket" "create_address_udp = create_address"
  "send_data_udp = send_data" "serialise_udp = serialise"
  "send_Result_udp = send_Result" "send_TradeData_udp = send_TradeData"
  by (simp_all add: fun_eq_iff create_socket_udp_def create_socket_def create_address_udp_def create_address_def
    send_data_udp_def send_data_def serialise_udp_def serialise_def send_Result_udp_def send_Result_def
    send_TradeData_udp_def send_TradeData_def)

definition tcp_queue :: "OffloadQueue_udp \<Rightarrow> OffloadQueue" where
  "tcp_queue q = \<lparr>messages = udp_messages q\<rparr>"

lemma udp_queue_copies:
  "OffloadQueue_udp_empty q = OffloadQueue_empty (tcp_queue q)"
  "OffloadQueue_udp_front q = OffloadQueue_front (tcp_queue q)"
  "tcp_queue (OffloadQueue_udp_push m q) = OffloadQueue_push m (tcp_queue q)"
  "map_option tcp_queue (OffloadQueue_udp_pop q) = OffloadQueue_pop (tcp_queue q)"
  "tcp_queue (serialise_and_enqueue_udp q fd msg) = serialise_and_enqueue (tcp_queue q) fd msg"
  "apsnd tcp_queue (offload_one_udp outcome q) = offload_one outcome (tcp_queue q)"
  by (auto simp: tcp_queue_def OffloadQueue_udp_empty_def OffloadQueue_empty_def OffloadQueue_udp_front_def
    OffloadQueue_front_def OffloadQueue_udp_push_def OffloadQueue_push_def OffloadQueue_udp_pop_def
    OffloadQueue_pop_def serialise_and_enqueue_udp_def serialise_and_enqueue_def udp_copies Let_def
    offload_one_udp_def offload_one_def split: list.split sum.split)

section \<open>Server\<close>

definition execute_task :: "TradeDataQuery \<Rightarrow> TradeData list" where
  "execute_task query = []"

text \<open>
  The loop that sends the results, one datagram each; \<open>outs\<close> are the return values of the
  \<open>sendto\<close> calls. The result are the datagrams.
\<close>

fun send_results :: "Result list \<Rightarrow> int list \<Rightarrow> byte list list run" where
  "send_results [] outs = Some (Inr [])"
| "send_results (r # rs) [] = None"
| "send_results (r # rs) (n # outs) =
     bindR (Some (send_Result_udp n r)) (\<lambda>(bs, warned).
     bindR (send_results rs outs) (\<lambda>rest. Some (Inr (bs # rest))))"

text \<open>
  \<open>t_not_r\<close> is always false, so the branch that would send \<open>TradeData\<close> is never taken. The returned
  pair is the return value of the function and the datagrams.
\<close>

definition handle_trade_data_query ::
  "(Query_engine \<Rightarrow> TradeDataQuery \<Rightarrow> Result list) \<Rightarrow> Query_engine \<Rightarrow> int list \<Rightarrow> TradeDataQuery \<Rightarrow>
    (int \<times> byte list list) run" where
  "handle_trade_data_query lh exec outs query =
     (let result = lh exec query;
          result_size = (of_nat (length result) :: i32)
      in case outs of
           [] \<Rightarrow> None
         | bytes_sent # outs' \<Rightarrow>
             if bytes_sent < 0 then Some (Inl (Runtime_error ''Failed to send result size: ''))
             else bindR (send_results result outs') (\<lambda>datagrams.
               Some (Inr (0, take (nat bytes_sent) (le32 result_size) # datagrams))))"

text \<open>
  One event of \<open>run\<close>: events of other descriptors are ignored, a failed \<open>recvfrom\<close> (\<open>None\<close>) is
  logged, otherwise the query is handled, also when the datagram was shorter than a query.
\<close>

definition udp_event ::
  "(Query_engine \<Rightarrow> TradeDataQuery \<Rightarrow> Result list) \<Rightarrow> Query_engine \<Rightarrow> i32 \<Rightarrow> byte list \<Rightarrow>
    i32 \<Rightarrow> byte list option \<Rightarrow> int list \<Rightarrow> byte list list run" where
  "udp_event lh exec listen_fd stack fd datagram outs =
     (if fd \<noteq> listen_fd then Some (Inr [])
      else case datagram of
          None \<Rightarrow> Some (Inr [])
        | Some bs \<Rightarrow>
            bindR (handle_trade_data_query lh exec outs (decode_TradeDataQuery (bs @ drop (length bs) stack)))
              (\<lambda>(ret, datagrams).
                 bindR (Some (check_error (ret < 0) ''Failed to handle the query'')) (\<lambda>_.
                 Some (Inr datagrams))))"

text \<open>
  The constructor on the return values of its system calls (\<open>ret_listen\<close> plays no role), with the
  value of \<open>epoll_create1\<close> unchecked. \<open>run\<close> handles the events one \<open>epoll_wait\<close> reports in order.
\<close>

definition make_non_blocking_udp :: "int \<Rightarrow> int \<Rightarrow> unit result" where
  "make_non_blocking_udp getfl setfl =
     bindE (check_error (getfl = - 1) ''Failed to get socket flags'') (\<lambda>_.
     check_error (setfl = - 1) ''Failed to set socket to non-blocking'')"

definition bind_server_udp :: "int \<Rightarrow> unit result" where
  "bind_server_udp ret = check_error (ret < 0) ''Failed to bind server socket''"

record EpollServer_udp =
  udp_listen_fd :: i32
  udp_address :: sockaddr_in
  udp_interest :: "i32 \<Rightarrow> u32 option"

definition add_to_epoll_udp :: "i32 \<Rightarrow> int \<Rightarrow> EpollServer_udp \<Rightarrow> EpollServer_udp result" where
  "add_to_epoll_udp sock ret s =
     bindE (check_error (ret = - 1) ''Failed to add socket to epoll'') (\<lambda>_.
     Inr (s\<lparr>udp_interest := (udp_interest s)(sock \<mapsto> EPOLLIN OR EPOLLET)\<rparr>))"

definition new_EpollServer_udp :: "u32 \<Rightarrow> u16 \<Rightarrow> startup_calls \<Rightarrow> EpollServer_udp result" where
  "new_EpollServer_udp junk port c =
     bindE (create_socket_udp (ret_socket c)) (\<lambda>fd.
     bindE (check_error (ret_reuseaddr c < 0) ''Failed to set SO_REUSEADDR'') (\<lambda>_.
     bindE (check_error (ret_reuseport c < 0) ''Failed to set SO_REUSEPORT'') (\<lambda>_.
     bindE (make_non_blocking_udp (ret_getfl c) (ret_setfl c)) (\<lambda>_.
     bindE (bind_server_udp (ret_bind c)) (\<lambda>_.
     add_to_epoll_udp (word_of_int fd) (ret_ctl c)
       \<lparr>udp_listen_fd = word_of_int fd, udp_address = create_address_udp junk port, udp_interest = Map.empty\<rparr>)))))"

definition delete_EpollServer_udp :: "i32 \<Rightarrow> EpollServer_udp \<Rightarrow> i32 set \<Rightarrow> i32 set" where
  "delete_EpollServer_udp epoll_fd s fds = fds - {udp_listen_fd s} - {epoll_fd}"

record udp_input =
  in_fd :: i32
  in_datagram :: "byte list option"
  in_stack :: "byte list"
  in_outs :: "int list"

fun udp_events ::
  "(Query_engine \<Rightarrow> TradeDataQuery \<Rightarrow> Result list) \<Rightarrow> Query_engine \<Rightarrow> i32 \<Rightarrow> udp_input list \<Rightarrow> byte list list run" where
  "udp_events lh exec listen_fd [] = Some (Inr [])"
| "udp_events lh exec listen_fd (i # is) =
     bindR (udp_event lh exec listen_fd (in_stack i) (in_fd i) (in_datagram i) (in_outs i)) (\<lambda>ds.
     bindR (udp_events lh exec listen_fd is) (\<lambda>rest. Some (Inr (ds @ rest))))"

definition udp_wait ::
  "(Query_engine \<Rightarrow> TradeDataQuery \<Rightarrow> Result list) \<Rightarrow> Query_engine \<Rightarrow> i32 \<Rightarrow> int \<Rightarrow> udp_input list \<Rightarrow> byte list list run" where
  "udp_wait lh exec listen_fd n inputs =
     bindR (Some (check_error (n = - 1) ''epoll_wait failed'')) (\<lambda>_.
     udp_events lh exec listen_fd (take (nat n) inputs))"

section \<open>Client\<close>

definition create_server_address_udp :: "u32 option \<Rightarrow> u32 \<Rightarrow> u16 \<Rightarrow> sockaddr_in result" where
  "create_server_address_udp pton junk port =
     (let address = create_address_udp junk port in case pton of
        None \<Rightarrow> Inl (Check_error ''Invalid address/ Address not supported'')
      | Some a \<Rightarrow> Inr (address\<lparr>sin_addr := a\<rparr>))"

record Client_udp =
  client_socket_udp :: int
  server_address_udp :: sockaddr_in

definition new_Client_udp :: "int \<Rightarrow> u32 option \<Rightarrow> u32 \<Rightarrow> u16 \<Rightarrow> Client_udp result" where
  "new_Client_udp sock pton junk port =
     bindE (create_socket_udp sock) (\<lambda>fd.
     bindE (create_server_address_udp pton junk port) (\<lambda>address.
     Inr \<lparr>client_socket_udp = fd, server_address_udp = address\<rparr>))"

definition get_socket_fd_udp :: "Client_udp \<Rightarrow> int" where
  "get_socket_fd_udp c = client_socket_udp c"

definition delete_Client_udp :: "Client_udp \<Rightarrow> int set \<Rightarrow> int set" where
  "delete_Client_udp c fds = fds - {client_socket_udp c}"

lemma Client_udp_lifetime:
  assumes "new_Client_udp sock pton junk port = Inr c" and "sock \<notin> fds"
  shows "delete_Client_udp c (new_Client_fds sock fds) = fds" and "get_socket_fd_udp c = sock"
  using assms by (auto simp: new_Client_udp_def create_socket_udp_def delete_Client_udp_def
      new_Client_fds_def get_socket_fd_udp_def bindE_eq_Inr check_error_eq_Inr)

definition send_message_udp :: "byte list \<Rightarrow> int \<Rightarrow> TradeDataQuery \<Rightarrow> byte list result" where
  "send_message_udp pad bytes_sent message =
     bindE (check_error (bytes_sent < 0) ''Send failed on client socket.'') (\<lambda>_.
     Inr (take (nat bytes_sent) (encode_TradeDataQuery pad message)))"

text \<open>
  \<open>read_struct\<close> on what successive calls of \<open>recv\<close> find: a datagram, or \<open>None\<close> for an error. The
  count is taken from the first datagram, one element from each of the following; what a datagram
  holds beyond the size asked for is lost, what it lacks stays zero in the element (and
  uninitialised, \<open>junk\<close>, in the count). The datagrams not read stay in the socket.
\<close>

fun read_elements_udp :: "nat \<Rightarrow> (byte list \<Rightarrow> 'a) \<Rightarrow> nat \<Rightarrow> byte list option list \<Rightarrow>
    ('a list \<times> byte list option list) run" where
  "read_elements_udp sz dec 0 rx = Some (Inr ([], rx))"
| "read_elements_udp sz dec (Suc k) [] = None"
| "read_elements_udp sz dec (Suc k) (None # rx) = Some (Inl (Check_error ''Failed reading a Result struct.''))"
| "read_elements_udp sz dec (Suc k) (Some d # rx) =
     bindR (read_elements_udp sz dec k rx) (\<lambda>(xs, left).
       Some (Inr (dec (take sz d @ replicate (sz - length d) 0) # xs, left)))"

definition read_struct_udp :: "nat \<Rightarrow> (byte list \<Rightarrow> 'a) \<Rightarrow> byte list \<Rightarrow> byte list option list \<Rightarrow>
    ('a list \<times> byte list option list) run" where
  "read_struct_udp sz dec junk rx = (case rx of
      [] \<Rightarrow> None
    | None # _ \<Rightarrow> Some (Inl (Check_error ''Failed reading the size.''))
    | Some d # rest \<Rightarrow>
        let count = (get32 (take 4 d @ drop (length d) junk) :: i32)
        in if sint count < 0 then Some (Inl Length_error)
           else read_elements_udp sz dec (nat (sint count)) rest)"

text \<open>
  Exponents and the taker side of a raw record are streamed as characters (they are
  \<open>int8_t\<close> and \<open>uint8_t\<close>); the exponents of a \<open>Result\<close> are converted to \<open>int\<close> first.
\<close>

definition show_byte :: "byte \<Rightarrow> string" where
  "show_byte b = [char_of (unat b)]"

definition show_TradeData :: "TradeData \<Rightarrow> string" where
  "show_TradeData d =
     show_nat (unat (symbol_id d)) @ '' '' @ show_nat (unat (created_at d)) @ '' '' @
     show_nat (unat (trade_id d)) @ '' '' @ show_nat (unat (price (trade_price d))) @ ''e'' @
     show_byte (price_exponent (trade_price d)) @ '' '' @ show_nat (unat (quantity (trade_quantity d))) @
     ''e'' @ show_byte (quantity_exponent (trade_quantity d)) @ '' '' @ show_byte (taker_side d) @ newline"

definition show_Result :: "Result \<Rightarrow> string" where
  "show_Result d = ''Timestamp: '' @ show_nat (unat (start_time d)) @ ''; Min Price: '' @
     show_Price (lowest_price d) @ ''; Max Price: '' @ show_Price (highest_price d) @ newline"

text \<open>
  One round of the client's loop after the query has been sent: the text printed and what is left
  in the socket.
\<close>

definition udp_client_round :: "byte list \<Rightarrow> byte list option list \<Rightarrow> TradeDataQuery \<Rightarrow>
    (string \<times> byte list option list) run" where
  "udp_client_round junk rx query =
     (if resolution query = 0 then
        bindR (read_struct_udp sizeof_TradeData decode_TradeData junk rx)
          (\<lambda>(ds, left). Some (Inr (concat (map show_TradeData ds), left)))
      else if metrics query AND push_bit 0 1 \<noteq> 0 then
        bindR (read_struct_udp sizeof_Result decode_Result junk rx)
          (\<lambda>(rs, left). Some (Inr (concat (map show_Result rs), left)))
      else Some (Inr ([], rx)))"

text \<open>
  The whole round and the loop, in the manner of the TCP client: \<open>env_recvs\<close> are the datagrams that
  arrive in this round, \<open>rx\<close> those left over from earlier rounds.
\<close>

definition udp_client_step :: "round_env \<Rightarrow> istream \<Rightarrow> byte list option list \<Rightarrow>
    client_event list \<times> (istream \<times> byte list option list) run" where
  "udp_client_step env s rx =
     (let (s', query) = read_query s (env_query env)
      in case send_message_udp (env_pad env) (env_sent env) query of
           Inl err \<Rightarrow> ([], Some (Inl err))
         | Inr sent \<Rightarrow>
             (case udp_client_round (env_junk env) (rx @ env_recvs env) query of
                None \<Rightarrow> ([Sent sent], None)
              | Some (Inl err) \<Rightarrow> ([Sent sent], Some (Inl err))
              | Some (Inr (shown, rx')) \<Rightarrow> ([Sent sent, Printed shown], Some (Inr (s', rx')))))"

fun udp_client_loop :: "round_env list \<Rightarrow> istream \<Rightarrow> byte list option list \<Rightarrow> client_event list \<times> int run" where
  "udp_client_loop [] s rx = ([], None)"
| "udp_client_loop (env # envs) s rx =
     (case udp_client_step env s rx of
        (evs, None) \<Rightarrow> (evs, None)
      | (evs, Some (Inl err)) \<Rightarrow> (evs, Some (Inl err))
      | (evs, Some (Inr (s', rx'))) \<Rightarrow>
          (case udp_client_loop envs s' rx' of (evs', r) \<Rightarrow> (evs @ evs', r)))"

definition udp_client_main ::
  "string list \<Rightarrow> int \<Rightarrow> (string \<Rightarrow> u32 option) \<Rightarrow> u32 \<Rightarrow> round_env list \<Rightarrow> string \<Rightarrow>
    client_event list \<times> int run" where
  "udp_client_main args sock pton junk envs stdin =
     (let (server_ip, port) = parse_args args
      in case new_Client_udp sock (pton server_ip) junk (client_port port) of
           Inl err \<Rightarrow> ([], Some (Inr 1))
         | Inr _ \<Rightarrow> udp_client_loop envs \<lparr>stream_rest = stdin, stream_good = True\<rparr> [])"

section \<open>Round trip\<close>

lemma send_results_complete:
  "send_results rs (replicate (length rs) 18) = Some (Inr (map encode_Result rs))"
  by (induction rs) (simp_all add: send_Result_udp_def)

lemma handle_query_complete:
  "handle_trade_data_query lh exec (4 # replicate (length (lh exec q)) 18) q
    = Some (Inr (0, le32 (of_nat (length (lh exec q))) # map encode_Result (lh exec q)))"
  by (simp add: handle_trade_data_query_def send_results_complete Let_def)

lemma read_elements_udp_complete:
  "read_elements_udp 18 decode_Result (length rs) (map (\<lambda>r. Some (encode_Result r)) rs @ left)
    = Some (Inr (rs, left))"
  by (induction rs) simp_all

lemma read_results_complete:
  "length rs < 2 ^ 31 \<Longrightarrow> read_struct_udp 18 decode_Result junk
      (Some (le32 (of_nat (length rs))) # map (\<lambda>r. Some (encode_Result r)) rs @ left) = Some (Inr (rs, left))"
  using sint_count[of "length rs"] by (simp add: read_struct_udp_def read_elements_udp_complete)

text \<open>The datagrams the server sends for a query when every \<open>sendto\<close> takes its message.\<close>

definition answer_datagrams :: "Result list \<Rightarrow> byte list list" where
  "answer_datagrams rs = le32 (of_nat (length rs)) # map encode_Result rs"

definition full_sends :: "Result list \<Rightarrow> int list" where
  "full_sends rs = 4 # replicate (length rs) 18"

lemma udp_event_complete:
  "udp_event lh exec fd stack fd (Some (encode_TradeDataQuery pad q)) (full_sends (lh exec q))
    = Some (Inr (answer_datagrams (lh exec q)))"
  by (simp add: udp_event_def handle_query_complete full_sends_def answer_datagrams_def)

lemma udp_round_complete:
  assumes "length rs < 2 ^ 31" and "resolution q \<noteq> 0" and "bit (metrics q) 0"
  shows "udp_client_round junk (map Some (answer_datagrams rs) @ left) q
    = Some (Inr (concat (map show_Result rs), left))"
proof -
  have "metrics q AND push_bit 0 1 \<noteq> 0" using assms(3) by (simp only: and_push_bit_1)
  then show ?thesis
    using assms(2) read_results_complete[OF assms(1), of junk left]
    by (simp add: udp_client_round_def answer_datagrams_def comp_def)
qed

end
