(* ===== verification/Entry_Points.thy ===== *)
theory Entry_Points
  imports Server_System Udp Streams
begin

text \<open>
  The programs that start the servers, \<open>src/server_main.cc\<close> and \<open>src/server_main_udp.cc\<close>, and
  \<open>process_data/check.cc\<close>, which prints the first record of the data file.
\<close>

section \<open>The servers\<close>

text \<open>
  An exception of the constructor or of \<open>listen\<close> ends the program; otherwise the TCP program is the
  system with 31 worker threads in its initial state.
\<close>

definition server_main :: "u32 \<Rightarrow> startup_calls \<Rightarrow> (sockaddr_in \<times> system) result" where
  "server_main junk c =
     (let kPort = (8080 :: i32)
      in bindE (start_run c) (\<lambda>s0. Inr (create_address junk (ucast kPort), sys_init s0 31)))"

definition server_main_udp :: "u32 \<Rightarrow> startup_calls \<Rightarrow> EpollServer_udp result" where
  "server_main_udp junk c = (let kPort = (8080 :: i32) in new_EpollServer_udp junk (ucast kPort) c)"

lemma server_main_reachable:
  assumes "server_main junk c = Inr (addr, s)"
  shows "sys_reachable e c 31 s" and "sin_port addr = htons 8080" and "length (workers s) = 31"
  using assms by (auto simp: server_main_def sys_reachable_def bindE_eq_Inr create_address_def Let_def
      sys_init_def)

lemma server_main_udp_watches:
  assumes "server_main_udp junk c = Inr s"
  shows "udp_interest s (udp_listen_fd s) = Some (EPOLLIN OR EPOLLET)" and "sin_port (udp_address s) = htons 8080"
  using assms by (auto simp: server_main_udp_def new_EpollServer_udp_def bindE_eq_Inr add_to_epoll_udp_def
      create_address_udp_def Let_def)

section \<open>The data file check\<close>

text \<open>What is printed for a record.\<close>

definition check_text :: "TradeData \<Rightarrow> string" where
  "check_text trade =
     (let endl = [CHR 0x0A]
      in ''Trade Data:'' @ endl @
         ''Symbol ID: '' @ show_nat (unat (symbol_id trade)) @ endl @
         ''Created At: '' @ show_nat (unat (created_at trade)) @ endl @
         ''Trade ID: '' @ show_nat (unat (trade_id trade)) @ endl @
         ''Price: '' @ show_nat (unat (price (trade_price trade))) @ '' * 10^'' @
           show_int (sint (price_exponent (trade_price trade))) @ endl @
         ''Quantity: '' @ show_nat (unat (quantity (trade_quantity trade))) @ '' * 10^'' @
           show_int (sint (quantity_exponent (trade_quantity trade))) @ endl @
         ''Taker Side: '' @ show_int (sint (ucast (taker_side trade) :: i32)) @ endl)"

text \<open>
  The exit code and what is printed to the standard output; \<open>junk\<close> is the memory of the
  uninitialised record, whose tail a short file leaves as it was.
\<close>

definition check_main :: "byte list \<Rightarrow> byte list option \<Rightarrow> int \<times> string" where
  "check_main junk file = (case file of
      None \<Rightarrow> (1, [])
    | Some bs \<Rightarrow>
        let got = take sizeof_TradeData bs;
            trade = decode_TradeData (got @ drop (length got) junk)
        in (0, ''Current position: 0'' @ [CHR 0x0A] @ ''0'' @ [CHR 0x0A] @ check_text trade))"

text \<open>On a file the converter wrote, the program prints the first trade.\<close>

lemma check_main_first:
  "check_main junk (Some (encode_trades pad (t # ts))) =
    (0, ''Current position: 0'' @ [CHR 0x0A] @ ''0'' @ [CHR 0x0A] @ check_text t)"
  by (simp add: check_main_def encode_trades_def Let_def)

end
