(* ===== verification/Udp_System.thy ===== *)
theory Udp_System
  imports Udp
begin

text \<open>
  The UDP programs at work: sessions of the client with the server, what happens to a client whose
  datagrams are lost or whose query the server answers without the client reading the answer, and
  the server with its edge-triggered event loop as a step relation.
\<close>

section \<open>Sessions\<close>

text \<open>A round in which exactly the answer \<open>rs\<close> of the server arrives.\<close>

definition served :: "round_env \<Rightarrow> Result list \<Rightarrow> bool" where
  "served env rs \<longleftrightarrow> env_sent env = 40 \<and> length rs < 2 ^ 31
     \<and> env_recvs env = map Some (answer_datagrams rs)"

definition wants_min_max :: "TradeDataQuery \<Rightarrow> bool" where
  "wants_min_max q \<longleftrightarrow> resolution q \<noteq> 0 \<and> bit (metrics q) 0"

lemma udp_step_read:
  assumes "read_query s (env_query env) = (s', q)" and "env_sent env = 40" and "length rs < 2 ^ 31"
    and "wants_min_max q" and "rx @ env_recvs env = map Some (answer_datagrams rs) @ left"
  shows "udp_client_step env s rx
    = ([Sent (encode_TradeDataQuery (env_pad env) q), Printed (concat (map show_Result rs))], Some (Inr (s', left)))"
  using assms udp_round_complete[of rs q "env_junk env" left]
  by (simp add: udp_client_step_def send_message_udp_def wants_min_max_def)

text \<open>A query for other metrics is sent, but its answer is left in the socket.\<close>

lemma udp_step_unread:
  assumes "read_query s (env_query env) = (s', q)" and "env_sent env = 40"
    and "resolution q \<noteq> 0" and "\<not> bit (metrics q) 0"
  shows "udp_client_step env s rx
    = ([Sent (encode_TradeDataQuery (env_pad env) q), Printed []], Some (Inr (s', rx @ env_recvs env)))"
proof -
  have "metrics q AND push_bit 0 1 = 0" using assms(4) and_push_bit_1[of "metrics q" 0] by simp
  then show ?thesis using assms by (simp add: udp_client_step_def send_message_udp_def udp_client_round_def)
qed

text \<open>The events of a round that sends \<open>q\<close> and prints \<open>rs\<close>.\<close>

definition round_events :: "round_env \<Rightarrow> TradeDataQuery \<Rightarrow> Result list \<Rightarrow> client_event list" where
  "round_events env q rs =
     [Sent (encode_TradeDataQuery (env_pad env) q), Printed (concat (map show_Result rs))]"

lemma udp_loop_late:
  assumes "length owed < 2 ^ 31" and "\<forall>(env, q, rs) \<in> set rounds. served env rs \<and> wants_min_max q"
    and "\<forall>c \<in> set ws. is_space c"
  shows "udp_client_loop (map fst rounds)
      \<lparr>stream_rest = ws @ concat (map (query_line \<circ> fst \<circ> snd) rounds), stream_good = True\<rparr>
      (map Some (answer_datagrams owed))
    = (concat (map (\<lambda>((env, q, _), rs). round_events env q rs)
        (zip rounds (owed # map (snd \<circ> snd) rounds))), None)"
  using assms
proof (induction rounds arbitrary: ws owed)
  case Nil
  then show ?case by simp
next
  case (Cons r rounds)
  obtain env q rs where r: "r = (env, q, rs)" by (cases r)
  have sv: "env_sent env = 40" "length rs < 2 ^ 31" "wants_min_max q"
    "env_recvs env = map Some (answer_datagrams rs)"
    using Cons.prems(2) by (simp_all add: r served_def)
  from udp_step_read[OF read_query_line[OF Cons.prems(3)] sv(1) Cons.prems(1) sv(3)
      arg_cong[OF sv(4), of "\<lambda>x. map Some (answer_datagrams owed) @ x"]]
    Cons.IH[OF sv(2) _ newline_space] Cons.prems(2)
  show ?case by (simp add: r round_events_def)
qed

lemma udp_loop_served:
  assumes "\<forall>(env, q, rs) \<in> set rounds. served env rs \<and> wants_min_max q" and "\<forall>c \<in> set ws. is_space c"
  shows "udp_client_loop (map fst rounds)
      \<lparr>stream_rest = ws @ concat (map (query_line \<circ> fst \<circ> snd) rounds), stream_good = True\<rparr> []
    = (concat (map (\<lambda>(env, q, rs). round_events env q rs) rounds), None)"
  using assms
proof (induction rounds arbitrary: ws)
  case Nil
  then show ?case by simp
next
  case (Cons r rounds)
  obtain env q rs where r: "r = (env, q, rs)" by (cases r)
  have sv: "env_sent env = 40" "length rs < 2 ^ 31" "wants_min_max q"
    "[] @ env_recvs env = map Some (answer_datagrams rs) @ []"
    using Cons.prems(1) by (simp_all add: r served_def)
  from udp_step_read[OF read_query_line[OF Cons.prems(2)] sv] Cons.IH[OF _ newline_space] Cons.prems(1)
  show ?case by (simp add: r round_events_def)
qed

lemma udp_client_connected:
  assumes "connects args sock pton 0"
  shows "udp_client_main args sock pton junk envs stdin
    = udp_client_loop envs \<lparr>stream_rest = stdin, stream_good = True\<rparr> []"
  using assms
  by (auto simp: connects_def udp_client_main_def new_Client_udp_def create_socket_udp_def
      create_server_address_udp_def Let_def split: prod.splits)

text \<open>C27. A session over UDP: when every datagram arrives, once and in order, a client that reads a list
  of queries with a positive resolution and the metric bit 0 from its standard input sends exactly
  these queries and prints, for each, one line per result the server's engine computed, in order.\<close>

theorem udp_session:
  assumes "connects args sock pton 0"
    and "\<forall>(env, q) \<in> set rounds. wants_min_max q \<and> length (lh e q) < 2 ^ 31 \<and> env_sent env = 40 \<and>
      (\<exists>ds. udp_event lh e fd stack fd (Some (encode_TradeDataQuery (env_pad env) q)) (full_sends (lh e q))
          = Some (Inr ds) \<and> env_recvs env = map Some ds)"
  shows "udp_client_main args sock pton junk (map fst rounds) (concat (map (query_line \<circ> snd) rounds))
    = (concat (map (\<lambda>(env, q). [Sent (encode_TradeDataQuery (env_pad env) q),
        Printed (concat (map show_Result (lh e q)))]) rounds), None)"
proof -
  have "\<forall>(env, q, rs) \<in> set (map (\<lambda>(env, q). (env, q, lh e q)) rounds). served env rs \<and> wants_min_max q"
    using assms(2) by (auto simp: served_def udp_event_complete)
  from udp_loop_served[OF this, of "[]"] show ?thesis
    by (simp add: udp_client_connected[OF assms(1)] comp_def case_prod_unfold round_events_def)
qed

text \<open>Answers nobody reads: the UDP server answers every query, but the client reads an answer only
  for the metric bit 0. After one query without that bit every later query prints the answer to
  the query before it.\<close>

theorem udp_stale_answers:
  assumes "connects args sock pton 0" and "served env0 rs0" and "resolution q0 \<noteq> 0"
    and "\<not> bit (metrics q0) 0"
    and "\<forall>(env, q, rs) \<in> set rounds. served env rs \<and> wants_min_max q"
  shows "udp_client_main args sock pton junk (env0 # map fst rounds)
      (query_line q0 @ concat (map (query_line \<circ> fst \<circ> snd) rounds))
    = (Sent (encode_TradeDataQuery (env_pad env0) q0) # Printed [] #
       concat (map (\<lambda>((env, q, _), rs). round_events env q rs)
         (zip rounds (rs0 # map (snd \<circ> snd) rounds))), None)"
proof -
  let ?rest = "concat (map (query_line \<circ> fst \<circ> snd) rounds)"
  have sv: "env_sent env0 = 40" "length rs0 < 2 ^ 31" "env_recvs env0 = map Some (answer_datagrams rs0)"
    using assms(2) by (simp_all add: served_def)
  note rq = read_query_line[of "[]" q0 ?rest "env_query env0"]
  have "udp_client_step env0 \<lparr>stream_rest = query_line q0 @ ?rest, stream_good = True\<rparr> []
      = ([Sent (encode_TradeDataQuery (env_pad env0) q0), Printed []],
         Some (Inr (\<lparr>stream_rest = newline @ ?rest, stream_good = True\<rparr>, map Some (answer_datagrams rs0))))"
    using udp_step_unread[of _ env0, OF _ sv(1) assms(3,4)] rq sv(3) by simp
  then show ?thesis
    using udp_loop_late[OF sv(2) assms(5) newline_space] by (simp add: udp_client_connected[OF assms(1)])
qed

text \<open>When the datagram with the count is lost, the client takes the low half of the first result's
  \<open>start_time\<close> for the count: it waits for ever or throws.\<close>

lemma udp_lost_count:
  assumes "rx = map (\<lambda>r. Some (encode_Result r)) (r # rs)"
  shows "sint (ucast (start_time r) :: i32) < 0 \<Longrightarrow>
      read_struct_udp 18 decode_Result junk rx = Some (Inl Length_error)"
    and "int (length rs) < sint (ucast (start_time r) :: i32) \<Longrightarrow>
      read_struct_udp 18 decode_Result junk rx = None"
proof -
  have c: "get32 (take 4 (encode_Result r) @ ys) = (ucast (start_time r) :: u32)" for ys
  proof -
    have "le_val (take 4 (le64 (start_time r))) = unat (start_time r) mod 2 ^ 32"
      by (simp add: le64_def take_le_bytes le_val_le_bytes)
    then show ?thesis using low_half[of "start_time r"] by (simp add: get32_def encode_Result_def)
  qed
  have short: "read_elements_udp 18 decode_Result k (map (\<lambda>r. Some (encode_Result r)) rs) = None"
    if "length rs < k" for k rs
    using that
  proof (induction rs arbitrary: k)
    case Nil
    then show ?case by (cases k) simp_all
  next
    case (Cons r rs)
    then show ?case by (cases k) simp_all
  qed
  show "sint (ucast (start_time r) :: i32) < 0 \<Longrightarrow>
      read_struct_udp 18 decode_Result junk rx = Some (Inl Length_error)"
    by (simp add: assms read_struct_udp_def c)
  show "int (length rs) < sint (ucast (start_time r) :: i32) \<Longrightarrow>
      read_struct_udp 18 decode_Result junk rx = None"
    by (simp add: assms read_struct_udp_def c) (rule short, linarith)
qed

text \<open>One result per query, as an engine function could compute it.\<close>

definition sample_lh :: "Query_engine \<Rightarrow> TradeDataQuery \<Rightarrow> Result list" where
  "sample_lh e q = [\<lparr>start_time = start_time_point q, lowest_price = zero_Price, highest_price = zero_Price\<rparr>]"

abbreviation udp_sample_engine :: Query_engine where
  "udp_sample_engine \<equiv> open_file 0 sample_trades"

lemma length_sample_lh [simp]: "length (sample_lh e q) = 1"
  by (simp add: sample_lh_def)

text \<open>Sample rounds: the first query asks for the mean price only.\<close>

definition udp_query :: "u64 \<Rightarrow> u64 \<Rightarrow> TradeDataQuery" where
  "udp_query t m = \<lparr>query_symbol_id = 1, start_time_point = t, end_time_point = t + 10, resolution = 10,
     metrics = m\<rparr>"

definition udp_env :: "Result list \<Rightarrow> round_env" where
  "udp_env rs = \<lparr>env_pad = [], env_query = udp_query 0 0, env_sent = 40, env_junk = [],
     env_recvs = map Some (answer_datagrams rs)\<rparr>"

lemma udp_sample_facts: "wants_min_max (udp_query t 1)" "length rs < 2 ^ 31 \<Longrightarrow> served (udp_env rs) rs"
  "env_sent (udp_env rs) = 40" "env_pad (udp_env rs) = []" "env_recvs (udp_env rs) = map Some (answer_datagrams rs)"
  "\<not> bit (metrics (udp_query t 0x4000000)) 0" "resolution (udp_query t m) \<noteq> 0"
  by (simp_all add: wants_min_max_def udp_query_def served_def udp_env_def bit_simps)

theorem udp_session_witness:
  "udp_client_main [] 3 (\<lambda>_. Some 0) 0 [udp_env (sample_lh udp_sample_engine (udp_query 10 1))] (query_line (udp_query 10 1))
    = ([Sent (encode_TradeDataQuery [] (udp_query 10 1)),
        Printed (concat (map show_Result (sample_lh udp_sample_engine (udp_query 10 1))))], None)"
  using udp_session[OF sample_connects, of "[(udp_env (sample_lh udp_sample_engine (udp_query 10 1)), udp_query 10 1)]"
      sample_lh udp_sample_engine 4 "[]" 0]
  by (simp add: udp_sample_facts udp_event_complete)

theorem udp_stale_answers_witness:
  "let rs = (\<lambda>t. [\<lparr>start_time = t, lowest_price = zero_Price, highest_price = zero_Price\<rparr>])
   in udp_client_main [] 3 (\<lambda>_. Some 0) 0 [udp_env (rs 10), udp_env (rs 20)]
        (query_line (udp_query 10 0x4000000) @ query_line (udp_query 20 1))
      = ([Sent (encode_TradeDataQuery [] (udp_query 10 0x4000000)), Printed [],
          Sent (encode_TradeDataQuery [] (udp_query 20 1)), Printed (concat (map show_Result (rs 10)))], None)"
proof -
  define rs where "rs t = [\<lparr>start_time = t, lowest_price = zero_Price, highest_price = zero_Price\<rparr>]" for t :: u64
  have "served (udp_env (rs 10)) (rs 10)" "served (udp_env (rs 20)) (rs 20)"
    by (simp_all add: udp_sample_facts rs_def)
  with udp_stale_answers[OF sample_connects, of "udp_env (rs 10)" "rs 10" "udp_query 10 0x4000000"
      "[(udp_env (rs 20), udp_query 20 1, rs 20)]" 0]
  show ?thesis by (simp add: udp_sample_facts round_events_def flip: rs_def)
qed

section \<open>The server's event loop\<close>

text \<open>
  The listening socket holds the datagrams that have arrived; epoll has an event to report
  (\<open>ready\<close>) since the last arrival, because the socket is watched edge-triggered. One event makes
  the server call \<open>recvfrom\<close> once. An exception ends the process (\<open>failed\<close>), the kernel keeps
  queueing.
\<close>

record udp_sys =
  sock_rx :: "(nat \<times> byte list) list"
  ready :: bool
  failed :: "cpp_error option"
  arrived :: "(nat \<times> byte list) list"
  taken :: "(nat \<times> byte list) list"
  replies :: "(nat \<times> byte list) list"

definition udp_init :: udp_sys where
  "udp_init = \<lparr>sock_rx = [], ready = False, failed = None, arrived = [], taken = [], replies = []\<rparr>"

inductive udp_step ::
  "(Query_engine \<Rightarrow> TradeDataQuery \<Rightarrow> Result list) \<Rightarrow> Query_engine \<Rightarrow> i32 \<Rightarrow> udp_sys \<Rightarrow> udp_sys \<Rightarrow> bool"
  for lh exec fd where
  udp_arrive: "udp_step lh exec fd s
    (s\<lparr>sock_rx := sock_rx s @ [(c, bs)], ready := True, arrived := arrived s @ [(c, bs)]\<rparr>)"
| udp_serve: "ready s \<Longrightarrow> failed s = None \<Longrightarrow> sock_rx s = (c, bs) # rest \<Longrightarrow>
    udp_event lh exec fd stack fd (Some bs) outs = Some (Inr ds) \<Longrightarrow>
    udp_step lh exec fd s
      (s\<lparr>sock_rx := rest, ready := False, taken := taken s @ [(c, bs)], replies := replies s @ map (Pair c) ds\<rparr>)"
| udp_throw: "ready s \<Longrightarrow> failed s = None \<Longrightarrow> sock_rx s = (c, bs) # rest \<Longrightarrow>
    udp_event lh exec fd stack fd (Some bs) outs = Some (Inl err) \<Longrightarrow>
    udp_step lh exec fd s
      (s\<lparr>sock_rx := rest, ready := False, taken := taken s @ [(c, bs)], failed := Some err\<rparr>)"
| udp_recv_error: "ready s \<Longrightarrow> failed s = None \<Longrightarrow> udp_step lh exec fd s (s\<lparr>ready := False\<rparr>)"

inductive_cases udp_stepE: "udp_step lh exec fd s t"

text \<open>The datagrams waiting without an event that would make the server read them.\<close>

definition stranded :: "udp_sys \<Rightarrow> nat" where
  "stranded s = length (sock_rx s) - of_bool (ready s)"

definition udp_inv :: "udp_sys \<Rightarrow> bool" where
  "udp_inv s \<longleftrightarrow> arrived s = taken s @ sock_rx s \<and> (ready s \<longrightarrow> sock_rx s \<noteq> [])"

lemma udp_inv_step: "udp_step lh exec fd s t \<Longrightarrow> udp_inv s \<Longrightarrow> udp_inv t"
  by (erule udp_stepE) (auto simp: udp_inv_def)

lemma udp_inv_init: "udp_inv udp_init"
  by (simp add: udp_inv_def udp_init_def)

interpretation udps: step_invariant "udp_step lh exec fd" "\<lambda>s. s = udp_init" udp_inv for lh exec fd
  by unfold_locales (auto intro: udp_inv_init udp_inv_step)

lemma udp_inv_reachable: "(udp_step lh exec fd)\<^sup>*\<^sup>* udp_init s \<Longrightarrow> udp_inv s"
  by (rule udps.reachable_inv) simp_all

lemma stranded_step: "udp_step lh exec fd s t \<Longrightarrow> udp_inv s \<Longrightarrow> stranded s \<le> stranded t"
  by (erule udp_stepE) (auto simp: stranded_def udp_inv_def)

interpretation backlog: step_preorder "udp_step lh exec fd"
  "\<lambda>s t. udp_inv s \<longrightarrow> udp_inv t \<and> stranded s \<le> stranded t" for lh exec fd
  by unfold_locales (auto intro: udp_inv_step stranded_step order.trans)

text \<open>C28. The server falls behind for ever: datagrams are read once each in the order of their arrival, but
  a datagram that arrives while another waits gets no event of its own (the socket is watched
  edge-triggered and each event reads one datagram). The number of queries left waiting without an
  event never decreases, whatever happens afterwards, and when no event is pending only a new
  arrival makes the server move.\<close>

theorem udp_server_falls_behind:
  assumes "(udp_step lh exec fd)\<^sup>*\<^sup>* udp_init s" and "(udp_step lh exec fd)\<^sup>*\<^sup>* s t"
  shows "arrived t = taken t @ sock_rx t \<and> stranded s \<le> stranded t
    \<and> (\<not> ready t \<longrightarrow> length (sock_rx t) = stranded t
        \<and> (\<forall>u. udp_step lh exec fd t u \<longrightarrow> length (sock_rx u) = length (sock_rx t) + 1 \<and> taken u = taken t))"
proof -
  have inv: "udp_inv t \<and> stranded s \<le> stranded t"
    using backlog.steps_rel[OF assms(2)] udp_inv_reachable[OF assms(1)] by blast
  have "length (sock_rx u) = length (sock_rx t) + 1 \<and> taken u = taken t"
    if "\<not> ready t" and "udp_step lh exec fd t u" for u
    using that(2,1) by (cases rule: udp_step.cases) auto
  with inv show ?thesis by (auto simp: udp_inv_def stranded_def)
qed

text \<open>Two queries arrive before the server waits; it answers the first and stops.\<close>

definition udp_two_arrived :: udp_sys where
  "udp_two_arrived = (let q = (\<lambda>t. encode_TradeDataQuery [] (udp_query t 1))
     in udp_init\<lparr>sock_rx := [(0, q 10), (1, q 20)], ready := True, arrived := [(0, q 10), (1, q 20)]\<rparr>)"

definition udp_one_served :: udp_sys where
  "udp_one_served = (let q = (\<lambda>t. encode_TradeDataQuery [] (udp_query t 1))
     in udp_two_arrived\<lparr>sock_rx := [(1, q 20)], ready := False, taken := [(0, q 10)],
          replies := map (Pair 0) (answer_datagrams (sample_lh udp_sample_engine (udp_query 10 1)))\<rparr>)"

lemma udp_sample_reachable: "(udp_step sample_lh udp_sample_engine 4)\<^sup>*\<^sup>* udp_init udp_two_arrived"
proof -
  let ?q = "\<lambda>t. encode_TradeDataQuery [] (udp_query t 1)"
  have "udp_step sample_lh udp_sample_engine 4 udp_init
      (udp_init\<lparr>sock_rx := [(0, ?q 10)], ready := True, arrived := [(0, ?q 10)]\<rparr>)"
    using udp_arrive[of sample_lh udp_sample_engine 4 udp_init 0 "?q 10"] by (simp add: udp_init_def)
  moreover have "udp_step sample_lh udp_sample_engine 4
      (udp_init\<lparr>sock_rx := [(0, ?q 10)], ready := True, arrived := [(0, ?q 10)]\<rparr>) udp_two_arrived"
    using udp_arrive[of sample_lh udp_sample_engine 4
        "udp_init\<lparr>sock_rx := [(0, ?q 10)], ready := True, arrived := [(0, ?q 10)]\<rparr>" 1 "?q 20"]
    by (simp add: udp_two_arrived_def udp_init_def)
  ultimately show ?thesis by simp
qed

lemma udp_sample_serve: "udp_step sample_lh udp_sample_engine 4 udp_two_arrived udp_one_served"
  using udp_serve[OF _ _ _ udp_event_complete, of udp_two_arrived 0 "[]" "udp_query 10 1"
      "[(1, encode_TradeDataQuery [] (udp_query 20 1))]" sample_lh udp_sample_engine 4]
  by (simp add: udp_two_arrived_def udp_one_served_def udp_init_def)

theorem udp_server_falls_behind_witness:
  "stranded udp_two_arrived = 1 \<and> stranded udp_one_served = 1 \<and> length (sock_rx udp_one_served) = 1
    \<and> \<not> (\<exists>u. udp_step sample_lh udp_sample_engine 4 udp_one_served u \<and> length (sock_rx u) \<noteq> 2)"
  using udp_server_falls_behind[OF udp_sample_reachable r_into_rtranclp[where r = "udp_step sample_lh udp_sample_engine 4", OF udp_sample_serve]]
  by (simp add: stranded_def udp_two_arrived_def udp_one_served_def udp_init_def)

end
