(* ===== verification/Multi_Client.thy ===== *)
theory Multi_Client
  imports Client_Session Udp Delivery
begin

text \<open>
  The load generator \<open>src/test/performance/multi_client\<close>: a client with several non-blocking sockets
  and one epoll instance (\<open>multi_client.cc\<close>), and the program around it (\<open>multi_client_main.cc\<close>).
\<close>

section \<open>The object\<close>

record MultiClient =
  sockets :: "int list"
  client_epoll :: int

definition get_socket_fds :: "MultiClient \<Rightarrow> int list" where
  "get_socket_fds c = sockets c"

text \<open>
  One round of the constructor's loop on what \<open>socket\<close>, \<open>inet_pton\<close> and \<open>connect\<close> return;
  \<open>set_non_blocking\<close> and \<open>epoll_ctl\<close> are not checked.
\<close>

definition connect_one :: "int \<times> u32 option \<times> int \<Rightarrow> u32 \<Rightarrow> u16 \<Rightarrow> int result" where
  "connect_one = (\<lambda>(sock, pton, ret) junk port.
     bindE (create_socket sock) (\<lambda>fd.
     bindE (create_server_address pton junk port) (\<lambda>address.
     bindE (connect_to_server ret) (\<lambda>_. Inr fd))))"

fun connect_all :: "(int \<times> u32 option \<times> int) list \<Rightarrow> u32 \<Rightarrow> u16 \<Rightarrow> MultiClient \<Rightarrow> MultiClient result" where
  "connect_all [] junk port c = Inr c"
| "connect_all (call # calls) junk port c =
     bindE (connect_one call junk port) (\<lambda>fd. connect_all calls junk port (c\<lparr>sockets := sockets c @ [fd]\<rparr>))"

text \<open>\<open>client_count\<close> is the number of elements of \<open>calls\<close>; a negative count makes no client.\<close>

definition new_MultiClient :: "int \<Rightarrow> (int \<times> u32 option \<times> int) list \<Rightarrow> u32 \<Rightarrow> u16 \<Rightarrow> MultiClient result" where
  "new_MultiClient epoll_fd calls junk port =
     bindE (check_error (epoll_fd < 0) ''Failed to create epoll instance'') (\<lambda>_.
     connect_all calls junk port \<lparr>sockets = [], client_epoll = epoll_fd\<rparr>)"

definition delete_MultiClient :: "MultiClient \<Rightarrow> int set \<Rightarrow> int set" where
  "delete_MultiClient c fds = fds - set (sockets c) - {client_epoll c}"

section \<open>Sending\<close>

text \<open>The same query on every socket, until a \<open>send\<close> fails; the bytes that went out before stay sent.\<close>

fun multi_send :: "byte list \<Rightarrow> int list \<Rightarrow> int list \<Rightarrow> (int \<times> byte list) list \<times> unit result" where
  "multi_send msg [] ns = ([], Inr ())"
| "multi_send msg (fd # fds) [] = ([], Inl (Check_error ''Send failed on client socket.''))"
| "multi_send msg (fd # fds) (n # ns) =
     (if n < 0 then ([], Inl (Check_error ''Send failed on client socket.''))
      else case multi_send msg fds ns of (out, r) \<Rightarrow> ((fd, take (nat n) msg) # out, r))"

definition multi_send_message :: "byte list \<Rightarrow> int list \<Rightarrow> TradeDataQuery \<Rightarrow> MultiClient \<Rightarrow>
    (int \<times> byte list) list \<times> unit result" where
  "multi_send_message pad ns message c = multi_send (encode_TradeDataQuery pad message) (sockets c) ns"

section \<open>Reading\<close>

text \<open>
  The calls of \<open>recv\<close> on one socket: what they deliver, \<open>None\<close> or no bytes being the results 0 and -1.
  The sockets are non-blocking, so when the outcomes are used up a call fails with \<open>EAGAIN\<close>.
\<close>

fun read_results :: "nat \<Rightarrow> byte list option list \<Rightarrow> Result list result" where
  "read_results 0 outs = Inr []"
| "read_results (Suc k) (Some (b # bs) # outs) =
     bindE (read_results k outs) (\<lambda>rs.
       Inr (decode_Result ((b # bs) @ replicate (sizeof_Result - length (b # bs)) 0) # rs))"
| "read_results (Suc k) outs = Inl (Check_error ''Failed to read result'')"

definition read_socket :: "byte list \<Rightarrow> byte list option list \<Rightarrow> Result list result" where
  "read_socket junk outs = (case outs of
      Some (b # bs) # rest \<Rightarrow>
        let count = (get32 ((b # bs) @ drop (length (b # bs)) junk) :: i32)
        in if sint count < 0 then Inl Length_error else read_results (nat (sint count)) rest
    | _ \<Rightarrow> Inl (Check_error ''Failed to read count from socket''))"

text \<open>The position of the first element equal to \<open>fd\<close>, if there is one.\<close>

fun find_index :: "int \<Rightarrow> int list \<Rightarrow> nat option" where
  "find_index fd [] = None"
| "find_index fd (x # xs) = (if x = fd then Some 0 else map_option Suc (find_index fd xs))"

fun read_events :: "(int \<times> byte list \<times> byte list option list) list \<Rightarrow> int list \<Rightarrow> Result list list \<Rightarrow>
    Result list list result" where
  "read_events [] fds result = Inr result"
| "read_events ((fd, junk, outs) # evs) fds result =
     bindE (read_socket junk outs) (\<lambda>output.
       read_events evs fds (case find_index fd fds of None \<Rightarrow> result | Some i \<Rightarrow> result[i := output]))"

text \<open>\<open>nfds\<close> is what \<open>epoll_wait\<close> returns, at most 10; one call only, so sockets not reported yet are empty.\<close>

definition read_min_max :: "int \<Rightarrow> (int \<times> byte list \<times> byte list option list) list \<Rightarrow> MultiClient \<Rightarrow>
    Result list list result" where
  "read_min_max nfds evs c =
     bindE (check_error (nfds < 0) ''epoll_wait failed'') (\<lambda>_.
     read_events (take (nat nfds) evs) (sockets c) (replicate (length (sockets c)) []))"

section \<open>The program\<close>

definition show_multi_Result :: "Result \<Rightarrow> string" where
  "show_multi_Result d =
     ''  Timestamp: '' @ show_nat (unat (start_time d))
     @ ''; Min: '' @ show_decimal (price (lowest_price d)) (price_exponent (lowest_price d))
     @ ''; Max: '' @ show_decimal (price (highest_price d)) (price_exponent (highest_price d)) @ newline"

definition show_outputs :: "Result list list \<Rightarrow> string" where
  "show_outputs output = concat (map (\<lambda>(i, rs).
     ''Socket '' @ show_nat i @ '' output:'' @ newline @ concat (map show_multi_Result rs)) (enumerate 0 output))"

text \<open>
  One round of the loop: a query from the standard input, the calls of \<open>send\<close>, and what
  \<open>epoll_wait\<close> and \<open>recv\<close> deliver. An exception leaves \<open>main\<close> and ends the program.
\<close>

record multi_env =
  me_pad :: "byte list"
  me_query :: TradeDataQuery
  me_sent :: "int list"
  me_nfds :: int
  me_events :: "(int \<times> byte list \<times> byte list option list) list"

definition multi_round :: "multi_env \<Rightarrow> MultiClient \<Rightarrow> istream \<Rightarrow>
    (int \<times> byte list) list \<times> (istream \<times> string) result" where
  "multi_round env c s =
     (let (s', query) = read_query s (me_query env);
          (out, sent) = multi_send_message (me_pad env) (me_sent env) query c
      in (out, bindE sent (\<lambda>_.
                bindE (read_min_max (me_nfds env) (me_events env) c) (\<lambda>output.
                Inr (s', show_outputs output)))))"

text \<open>The loop never ends by itself (\<open>None\<close>: still running after the rounds given).\<close>

fun multi_loop :: "multi_env list \<Rightarrow> MultiClient \<Rightarrow> istream \<Rightarrow> string \<times> int run" where
  "multi_loop [] c s = ([], None)"
| "multi_loop (env # envs) c s =
     (case multi_round env c s of
        (_, Inl err) \<Rightarrow> ([], Some (Inl err))
      | (_, Inr (s', txt)) \<Rightarrow> (case multi_loop envs c s' of (txt', r) \<Rightarrow> (txt @ txt', r)))"

text \<open>The arguments are those of the client; every exception of the constructor ends it with code 1.\<close>

definition multi_main :: "string list \<Rightarrow> int \<Rightarrow> (string \<Rightarrow> u32 option) \<Rightarrow> (int \<times> int) list \<Rightarrow> u32 \<Rightarrow>
    multi_env list \<Rightarrow> string \<Rightarrow> string \<times> int run" where
  "multi_main args epoll_fd pton calls junk envs stdin =
     (let (server_ip, port) = parse_args args;
          client_count = 5;
          calls' = map (\<lambda>(sock, ret). (sock, pton server_ip, ret)) (take client_count calls)
      in case new_MultiClient epoll_fd calls' junk (client_port port) of
           Inl err \<Rightarrow> ([], Some (Inr 1))
         | Inr c \<Rightarrow> multi_loop envs c \<lparr>stream_rest = stdin, stream_good = True\<rparr>)"

section \<open>Connections\<close>

lemma connect_all_sockets:
  "connect_all calls junk port c = Inr c' \<Longrightarrow> sockets c' = sockets c @ map fst calls \<and> client_epoll c' = client_epoll c"
  by (induction calls arbitrary: c)
    (auto simp: bindE_eq_Inr connect_one_def create_socket_def case_prod_unfold)

text \<open>A client that was made owns one socket per call, and its destructor closes exactly those and the epoll instance.\<close>

lemma MultiClient_lifetime:
  assumes "new_MultiClient epoll_fd calls junk port = Inr c"
  shows "get_socket_fds c = map fst calls"
    and "delete_MultiClient c (fds \<union> fst ` set calls \<union> {epoll_fd}) = fds - fst ` set calls - {epoll_fd}"
  using assms connect_all_sockets[of calls junk port "\<lparr>sockets = [], client_epoll = epoll_fd\<rparr>" c]
  by (auto simp: new_MultiClient_def bindE_eq_Inr get_socket_fds_def delete_MultiClient_def)

section \<open>What it reads\<close>

text \<open>A server that counts \<open>Result\<close> records, as the UDP server does, is understood.\<close>

lemma read_counted_results:
  "read_results (length rs) (map (\<lambda>r. Some (encode_Result r)) rs @ outs) = Inr rs"
proof (induction rs)
  case (Cons r rs)
  obtain b bs where b: "encode_Result r = b # bs" using length_encode_Result[of r]
    by (cases "encode_Result r") (auto simp: sizeof_Result_def)
  then have "length (b # bs) = sizeof_Result" using length_encode_Result[of r] by simp
  then show ?case using Cons decode_encode_Result[of r] by (simp add: b)
qed simp

lemma read_socket_count:
  "read_socket junk (Some (le32 n) # rest) =
    (if sint (n :: i32) < 0 then Inl Length_error else read_results (nat (sint n)) rest)"
proof -
  obtain b bs where b: "le32 n = b # bs" using length_le32[of n] by (cases "le32 n") auto
  have "get32 ((b # bs) @ drop (length (b # bs)) junk) = n"
    using get32_le32[of n "drop (length (b # bs)) junk"] by (simp add: b)
  then show ?thesis by (simp add: read_socket_def b Let_def)
qed

lemma read_socket_results:
  assumes "length rs < 2 ^ 31"
  shows "read_socket junk (Some (le32 (of_nat (length rs))) # map (\<lambda>r. Some (encode_Result r)) rs) = Inr rs"
  using sint_count[OF assms] read_counted_results[of rs "[]"] by (simp add: read_socket_count)

text \<open>The TCP server counts bytes.\<close>

lemma read_results_short:
  "length bss < k \<Longrightarrow> [] \<notin> set bss \<Longrightarrow>
    read_results k (map Some bss) = Inl (Check_error ''Failed to read result'')"
proof (induction bss arbitrary: k)
  case Nil
  then show ?case by (cases k) simp_all
next
  case (Cons bs bss)
  then show ?case by (cases k; cases bs) simp_all
qed

text \<open>The load generator cannot read the TCP server: the server announces the number of bytes of a
  response, which \<open>read_min_max\<close> takes for a number of \<open>Result\<close> records of 18 bytes. However the kernel
  cuts the response into reads, unless every read delivers a single byte, \<open>read_min_max\<close> runs out of
  data and throws as soon as one socket has got its response, and the program ends.\<close>

theorem multi_client_rejects_responses:
  assumes "worker_process e w = Some (Inr r)" and "length (result_bytes r) < 2 ^ 31"
    and "concat bss = result_bytes r" and "[] \<notin> set bss" and "length bss < length (result_bytes r)"
    and "0 < nfds"
    and "outs = Some (le32 (of_nat (length (result_bytes r)))) # map Some bss"
  shows "read_min_max nfds ((fd, junk, outs) # evs) c = Inl (Check_error ''Failed to read result'')"
proof -
  have "read_socket junk outs = Inl (Check_error ''Failed to read result'')"
    using read_results_short[OF assms(5,4)] sint_count[OF assms(2)] by (simp add: assms(7) read_socket_count)
  moreover obtain k where "nat nfds = Suc k" using assms(6) by (cases "nat nfds") simp_all
  ultimately show ?thesis using assms(6) by (simp add: read_min_max_def)
qed

theorem multi_client_rejects_responses_witness:
  "read_min_max 1 [(5, [], [Some (le32 10), Some (response_spec sample_trades sample_query)])]
     \<lparr>sockets = [5], client_epoll = 4\<rparr> = Inl (Check_error ''Failed to read result'')"
proof -
  have r: "result_bytes sample_response = response_spec sample_trades sample_query"
    by (simp add: sample_response_def)
  show ?thesis
    using multi_client_rejects_responses[OF sample_work, of "[response_spec sample_trades sample_query]" 1
        "[Some (le32 10), Some (response_spec sample_trades sample_query)]" 5 "[]" "[]"]
      sample_response_length by (force simp: r)
qed

end
