(* ===== verification/Test_Harness.thy ===== *)
theory Test_Harness
  imports Client_Session "HOL-Library.Multiset"
begin

text \<open>
  The correctness tests, \<open>src/test/correctness/test-client.cpp\<close>: each test is a line for a client
  program and the line expected back. The shell that runs a command (\<open>popen\<close>: the output of the
  command, \<open>None\<close> when it cannot be started) and the JSON library (\<open>json\<close>: the fields of the tests of
  a file, or an exception) are parameters. The stand-ins for a client, \<open>dummy-client.cpp\<close> and
  \<open>performance/dummy_client.cpp\<close>, are modelled as well.
\<close>

section \<open>Text\<close>

text \<open>\<open>std::string::find_last_not_of\<close> and \<open>trim\<close>.\<close>

fun find_last_not_of :: "char set \<Rightarrow> string \<Rightarrow> nat option" where
  "find_last_not_of ws [] = None"
| "find_last_not_of ws (c # cs) = (case find_last_not_of ws cs of
      Some i \<Rightarrow> Some (Suc i)
    | None \<Rightarrow> if c \<in> ws then None else Some 0)"

definition trim_chars :: "char set" where
  "trim_chars = {CHR '' '', CHR 0x0A, CHR 0x0D, CHR 0x09}"

definition trim :: "string \<Rightarrow> string" where
  "trim s = (case find_last_not_of trim_chars s of None \<Rightarrow> [] | Some i \<Rightarrow> take (i + 1) s)"

text \<open>
  \<open>fgets\<close> with a buffer of \<open>n\<close> characters on a stream that holds \<open>s\<close>: the characters up to a newline,
  at most \<open>n - 1\<close>, and what is left; \<open>None\<close> at the end. The buffer is then read as a C string.
\<close>

definition fgets :: "nat \<Rightarrow> string \<Rightarrow> (string \<times> string) option" where
  "fgets n s =
     (if s = [] then None
      else let limit = take (n - 1) s;
               k = (if CHR 0x0A \<in> set limit then Suc (length (takeWhile (\<lambda>c. c \<noteq> CHR 0x0A) limit)) else length limit)
           in Some (take k s, drop k s))"

definition c_str :: "string \<Rightarrow> string" where
  "c_str s = takeWhile (\<lambda>c. c \<noteq> CHR 0x00) s"

section \<open>Tests\<close>

record TestCase =
  test_id :: string
  test_input :: string
  expected_output :: string
  error_msg :: string

definition make_test :: "string \<times> string \<times> string \<times> string \<Rightarrow> TestCase" where
  "make_test = (\<lambda>(i, inp, exp, err). \<lparr>test_id = i, test_input = inp, expected_output = exp, error_msg = err\<rparr>)"

definition load_tests :: "(string \<Rightarrow> (string \<times> string \<times> string \<times> string) list result) \<Rightarrow>
    (string \<Rightarrow> string option) \<Rightarrow> string \<Rightarrow> TestCase list result" where
  "load_tests json fs filename = (case fs filename of
      None \<Rightarrow> Inl (Runtime_error ''Failed to open test file'')
    | Some content \<Rightarrow> bindE (json content) (\<lambda>ts. Inr (map make_test ts)))"

definition test_command :: "TestCase \<Rightarrow> string \<Rightarrow> string" where
  "test_command t client_exec = ''echo '' @ [CHR 0x22] @ test_input t @ [CHR 0x22] @ '' | '' @ client_exec @ '' 2>&1''"

text \<open>How a test ends, and what it prints to which stream; the marks are the UTF-8 bytes of the source.\<close>

datatype verdict = No_client | No_response | Right_response | Wrong_response string

definition run_test :: "(string \<Rightarrow> string option) \<Rightarrow> TestCase \<Rightarrow> string \<Rightarrow> verdict" where
  "run_test popen t client_exec = (case popen (test_command t client_exec) of
      None \<Rightarrow> No_client
    | Some out \<Rightarrow>
        (case fgets 1024 out of
           None \<Rightarrow> No_response
         | Some (buffer, _) \<Rightarrow>
             let response = trim (c_str buffer)
             in if response = expected_output t then Right_response else Wrong_response response))"

datatype stream_text = Cout string | Cerr string

definition mark_ok :: string where "mark_ok = ''['' @ [CHR 0xE2, CHR 0x9C, CHR 0x93] @ ''] ''"
definition mark_bad :: string where "mark_bad = ''['' @ [CHR 0xE2, CHR 0x9C, CHR 0x97] @ ''] ''"

text \<open>\<open>errno\<close> and its description are left out of the message of \<open>No_client\<close>.\<close>

fun report_test :: "TestCase \<Rightarrow> verdict \<Rightarrow> stream_text list" where
  "report_test t No_client = [Cerr (mark_bad @ test_id t @ '': Could not start client (popen failed)'' @ newline)]"
| "report_test t No_response = [Cerr (mark_bad @ test_id t @ '': No response from client'' @ newline)]"
| "report_test t Right_response = [Cout (mark_ok @ test_id t @ newline)]"
| "report_test t (Wrong_response response) =
     [Cout (mark_bad @ test_id t @ '': '' @ error_msg t @ newline
        @ ''    Expected: '' @ expected_output t @ newline @ ''    Got     : '' @ response @ newline)]"

definition debug_test :: "TestCase \<Rightarrow> string \<Rightarrow> stream_text list" where
  "debug_test t client_exec = [Cerr (''[DEBUG] Running test: '' @ test_id t @ newline
     @ ''[DEBUG] Command: '' @ test_command t client_exec @ newline)]"

text \<open>
  Every test runs in a thread of its own; a lock is held for each report and for the counter.
  \<open>order\<close> is the order in which the threads report. The debug output of all threads may come in
  between; it is listed first.
\<close>

fun run_threads :: "(string \<Rightarrow> string option) \<Rightarrow> string \<Rightarrow> TestCase list \<Rightarrow> i32 \<Rightarrow> stream_text list \<times> i32" where
  "run_threads popen client_exec [] passed_count = ([], passed_count)"
| "run_threads popen client_exec (t # ts) passed_count =
     (let v = run_test popen t client_exec;
          (out, n) = run_threads popen client_exec ts (if v = Right_response then passed_count + 1 else passed_count)
      in (report_test t v @ out, n))"

text \<open>\<open>main\<close>: the output and the exit code.\<close>

definition test_main :: "(string \<Rightarrow> (string \<times> string \<times> string \<times> string) list result) \<Rightarrow>
    (string \<Rightarrow> string option) \<Rightarrow> (string \<Rightarrow> string option) \<Rightarrow> (TestCase list \<Rightarrow> TestCase list) \<Rightarrow>
    stream_text list \<times> int" where
  "test_main json fs popen order =
     (let client_exec = ''./../../build/dummy_client''; test_file = ''./basic-tests.json''
      in case load_tests json fs test_file of
           Inl err \<Rightarrow> ([Cerr ''Error loading tests: ''], 1)
         | Inr tests \<Rightarrow>
             let (out, passed_count) = run_threads popen client_exec (order tests) 0
             in (concat (map (\<lambda>t. debug_test t client_exec) tests) @ out
                  @ [Cout (newline @ ''Summary: '' @ show_int (sint passed_count) @ ''/'' @ show_nat (length tests)
                      @ '' tests passed.'' @ newline)],
                 if passed_count = of_nat (length tests) then 0 else 1))"

section \<open>Stand-ins for the client\<close>

text \<open>The loop over the lines of the input; \<open>std::endl\<close> ends every line of the output.\<close>

function dummy_client :: "istream \<Rightarrow> string \<Rightarrow> string" where
  "dummy_client s input = (case getline (CHR 0x0A) s input of
      (True, s', input') \<Rightarrow> input' @ ''_processed'' @ newline @ dummy_client s' input'
    | (False, _, _) \<Rightarrow> [])"
  by auto
termination
  by (relation "measure (\<lambda>(s, _). length (stream_rest s) + of_bool (stream_good s))")
    (auto dest!: getline_progress[OF sym])

declare dummy_client.simps [simp del]

definition dummy_client_once :: "istream \<Rightarrow> string" where
  "dummy_client_once s = (case getline (CHR 0x0A) s [] of (_, _, input) \<Rightarrow> input @ ''_processed'' @ newline)"

lemma dummy_client_line:
  assumes "CHR 0x0A \<notin> set l"
  shows "dummy_client \<lparr>stream_rest = l @ newline, stream_good = True\<rparr> str = l @ ''_processed'' @ newline"
    and "dummy_client_once \<lparr>stream_rest = l @ newline, stream_good = True\<rparr> = l @ ''_processed'' @ newline"
  using getline_here[OF assms, of "[]"]
  by (simp_all add: dummy_client.simps[of _ str] dummy_client.simps[of "\<lparr>stream_rest = [], stream_good = True\<rparr>"]
      dummy_client_once_def newline_def) (simp add: getline_def)

section \<open>What the tests tell\<close>

lemma find_last_not_of_None: "find_last_not_of ws s = None \<longleftrightarrow> set s \<subseteq> ws"
proof (induction s)
  case (Cons c s)
  then show ?case by (cases "find_last_not_of ws s") auto
qed simp

lemma find_last_not_of_Some:
  "find_last_not_of ws s = Some i \<Longrightarrow> i < length s \<and> s ! i \<notin> ws \<and> (\<forall>c \<in> set (drop (Suc i) s). c \<in> ws)"
proof (induction s arbitrary: i)
  case (Cons c s)
  show ?case
  proof (cases "find_last_not_of ws s")
    case None
    then have "set s \<subseteq> ws" by (simp add: find_last_not_of_None)
    then show ?thesis using Cons.prems None by (auto split: if_splits)
  next
    case (Some k)
    then show ?thesis using Cons by auto
  qed
qed simp

lemma trim_eq_self: "s = [] \<or> last s \<notin> trim_chars \<Longrightarrow> trim s = s"
proof -
  assume s: "s = [] \<or> last s \<notin> trim_chars"
  show ?thesis
  proof (cases "find_last_not_of trim_chars s")
    case None
    then have "s = []" using s find_last_not_of_None[of trim_chars s] last_in_set[of s] by blast
    then show ?thesis by (simp add: trim_def)
  next
    case (Some i)
    note i = find_last_not_of_Some[OF Some]
    have "Suc i = length s"
    proof (rule ccontr)
      assume "Suc i \<noteq> length s"
      then have "Suc i < length s" using i by simp
      then have "last s \<in> set (drop (Suc i) s)" by (metis drop_eq_Nil last_drop last_in_set not_le)
      then show False using i s by auto
    qed
    then show ?thesis by (simp add: trim_def Some)
  qed
qed

lemma trim_blank_end: "set ws \<subseteq> trim_chars \<Longrightarrow> trim (s @ ws) = trim s"
proof (induction s)
  case Nil
  then show ?case using find_last_not_of_None[of trim_chars ws] by (simp add: trim_def)
next
  case (Cons c s)
  then show ?case by (auto simp: trim_def split: option.splits)
qed

lemma run_threads_count:
  "snd (run_threads popen x ts n) = n + of_nat (length (filter (\<lambda>t. run_test popen t x = Right_response) ts))"
  by (induction ts arbitrary: n) (auto simp: Let_def case_prod_unfold)

lemma length_filter_all: "length (filter P xs) = length xs \<longleftrightarrow> (\<forall>x \<in> set xs. P x)"
proof (induction xs)
  case (Cons x xs)
  have "length (filter P xs) \<noteq> Suc (length xs)" using length_filter_le[of P xs] by linarith
  then show ?case using Cons by auto
qed simp

text \<open>The exit code tells whether all tests pass, in whatever order the threads report.\<close>

lemma test_main_exit:
  assumes "load_tests json fs ''./basic-tests.json'' = Inr tests" and "mset (order tests) = mset tests"
    and "length tests < 2 ^ 32"
  shows "snd (test_main json fs popen order) = 0 \<longleftrightarrow>
    (\<forall>t \<in> set tests. run_test popen t ''./../../build/dummy_client'' = Right_response)"
proof -
  let ?P = "\<lambda>t. run_test popen t ''./../../build/dummy_client'' = Right_response"
  let ?n = "length (filter ?P tests)"
  have "length (filter ?P (order tests)) = ?n"
    using arg_cong[OF assms(2), of "\<lambda>m. size (filter_mset ?P m)"] by (simp flip: mset_filter)
  then have "snd (run_threads popen ''./../../build/dummy_client'' (order tests) 0) = of_nat ?n"
    by (simp add: run_threads_count)
  moreover have le: "?n \<le> length tests" by simp
  then have "(of_nat ?n :: i32) = of_nat (length tests) \<longleftrightarrow> ?n = length tests"
    using assms(3) le_less_trans[OF le assms(3)] by (simp add: word_of_nat_eq_iff take_bit_nat_eq_self del: length_filter_le)
  moreover have "?n = length tests \<longleftrightarrow> (\<forall>t \<in> set tests. ?P t)"
    by (rule length_filter_all)
  ultimately show ?thesis by (simp add: test_main_def assms(1) Let_def case_prod_unfold)
qed

text \<open>A line of output that fits the buffer and holds no NUL is compared without its end.\<close>

lemma run_test_line:
  assumes "popen (test_command t x) = Some (l @ newline @ rest)" and "CHR 0x0A \<notin> set l" and "CHR 0x00 \<notin> set l"
    and "length l < 1023"
  shows "run_test popen t x = (if trim l = expected_output t then Right_response else Wrong_response (trim l))"
proof -
  have "fgets 1024 (l @ newline @ rest) = Some (l @ newline, rest)"
  proof -
    obtain k where "1023 - length l = Suc k" using assms(4) by (cases "1023 - length l") auto
    then have "take 1023 (l @ newline @ rest) = l @ CHR 0x0A # take k rest" by (simp add: newline_def)
    then show ?thesis using assms(2) by (simp add: fgets_def newline_def)
  qed
  moreover have "c_str (l @ newline) = l @ newline"
    using assms(3) by (auto simp: c_str_def newline_def takeWhile_eq_all_conv)
  moreover have "trim (l @ newline) = trim l"
    by (rule trim_blank_end) (simp add: newline_def trim_chars_def)
  ultimately show ?thesis using assms(1) by (simp add: run_test_def)
qed

text \<open>The client's text begins with an empty line.\<close>

lemma format_response_newline:
  assumes "format_response m output = Inr txt"
  shows "\<exists>rest. txt = newline @ rest"
proof (cases "output = []")
  case False
  then obtain n where "(length output + 20 - 1) div 20 = Suc n"
    by (cases "(length output + 20 - 1) div 20") (auto simp: Suc_le_eq div_eq_0_iff)
  then have "print_sets output (client_metric_list m) [0..<Suc n] = Inr txt"
    using assms False by (simp add: format_response_def Let_def)
  then show ?thesis by (auto simp: upt_rec[of 0] bindE_eq_Inr print_set_def simp del: upt_Suc)
qed (use assms in \<open>simp add: format_response_def\<close>)

text \<open>The correctness tests do not see the client's answer: they compare the first line of the output,
  and whatever the server answers, the first line the client prints is empty. Run on the client
  instead of the stand-in a test passes exactly if it expects nothing, also when the server sends prices.\<close>

theorem first_line_is_empty:
  assumes "format_response m output = Inr txt" and "popen (test_command t client_exec) = Some txt"
  shows "run_test popen t client_exec = (if expected_output t = [] then Right_response else Wrong_response [])"
proof -
  obtain rest where "txt = [] @ newline @ rest" using format_response_newline[OF assms(1)] by auto
  from run_test_line[of popen t client_exec, OF assms(2)[unfolded this]] show ?thesis
    by (auto simp: trim_def)
qed

theorem first_line_is_empty_witness:
  "run_test (\<lambda>_. Some (set_text 1 sample_set))
     \<lparr>test_id = ''t'', test_input = ''1 0 9 9 8657043457'', expected_output = ''Set 1:'', error_msg = []\<rparr> ''client''
   = Wrong_response []"
proof -
  have "format_response all_metrics (set_bytes sample_set) = Inr (set_text 1 sample_set)"
    using all_metrics_text[OF all_metrics_bits, of "[sample_set]"] by simp
  from first_line_is_empty[OF this, of "\<lambda>_. Some (set_text 1 sample_set)"] show ?thesis by simp
qed

end
