(* ===== verification/Perf_Test.thy ===== *)
theory Perf_Test
  imports Test_Harness "HOL-Library.List_Lexorder" "HOL-Library.Char_ord"
begin

text \<open>
  The performance tests, \<open>src/test/performance/perf_test.cpp\<close>: clients run all tests at once, and the
  answers and response times of all of them are collected and evaluated. Times are doubles; the clock
  is an argument (the microseconds a test took). As in \<open>Test_Harness\<close> the shell and the JSON library
  are parameters. The layout of the printed report is left out, its numbers are not.
\<close>

section \<open>Running the tests\<close>

record TestResult =
  res_test_id :: string
  res_client_id :: string
  res_passed :: bool
  response_time_ms :: rat
  actual_output :: string
  error_message :: string

definition perf_load_tests :: "(string \<Rightarrow> (string \<times> string \<times> string \<times> string) list result) \<Rightarrow>
    (string \<Rightarrow> string option) \<Rightarrow> string \<Rightarrow> TestCase list option" where
  "perf_load_tests json fs filename = (case fs filename of
      None \<Rightarrow> None
    | Some content \<Rightarrow> (case json content of Inl _ \<Rightarrow> None | Inr ts \<Rightarrow> Some (map make_test ts)))"

definition perf_command :: "TestCase \<Rightarrow> string \<Rightarrow> string" where
  "perf_command t client_exec = ''sh -c '' @ [CHR 0x27] @ ''printf '' @ [CHR 0x22] @ test_input t @ [CHR 0x5C, CHR ''n'', CHR 0x22]
     @ '' | '' @ client_exec @ [CHR 0x27] @ '' 2>&1''"

text \<open>The loop over \<open>fgets\<close>.\<close>

lemma fgets_shorter: "fgets 1024 s = Some (b, rest) \<Longrightarrow> length rest < length s"
  by (auto simp: fgets_def Let_def split: if_splits)

function fgets_all :: "string \<Rightarrow> string" where
  "fgets_all s = (case fgets 1024 s of None \<Rightarrow> [] | Some (buffer, rest) \<Rightarrow> c_str buffer @ fgets_all rest)"
  by auto
termination
  by (relation "measure length") (auto dest: fgets_shorter)

declare fgets_all.simps [simp del]

text \<open>\<open>std::chrono\<close>: a count of microseconds over 1000.0.\<close>

definition elapsed_ms :: "nat \<Rightarrow> rat" where
  "elapsed_ms us = fdiv (rnd (of_nat us)) 1000"

text \<open>
  When \<open>popen\<close> fails the function goes on to read from a null pointer, which is undefined behaviour
  (\<open>Out_of_bounds\<close>).
\<close>

definition run_single_test :: "(string \<Rightarrow> string option) \<Rightarrow> nat \<Rightarrow> TestCase \<Rightarrow> string \<Rightarrow> string \<Rightarrow> TestResult result" where
  "run_single_test popen us t client_id client_exec = (case popen (perf_command t client_exec) of
      None \<Rightarrow> Inl Out_of_bounds
    | Some out \<Rightarrow>
        let full_output = fgets_all out;
            response = trim full_output;
            expected = trim (expected_output t);
            passed = (response = [] \<and> expected = [] \<or> response = expected)
        in Inr \<lparr>res_test_id = test_id t, res_client_id = client_id, res_passed = passed,
             response_time_ms = elapsed_ms us, actual_output = response,
             error_message = (if passed then [] else error_msg t)\<rparr>)"

text \<open>All tests of one client, in order; \<open>us\<close> gives the time each takes.\<close>

fun run_client_tests :: "(string \<Rightarrow> string option) \<Rightarrow> (TestCase \<Rightarrow> nat) \<Rightarrow> TestCase list \<Rightarrow> string \<Rightarrow> string \<Rightarrow>
    TestResult list result" where
  "run_client_tests popen us [] client_id client_exec = Inr []"
| "run_client_tests popen us (t # ts) client_id client_exec =
     bindE (run_single_test popen (us t) t client_id client_exec) (\<lambda>r.
     bindE (run_client_tests popen us ts client_id client_exec) (\<lambda>rs. Inr (r # rs)))"

section \<open>Evaluation\<close>

definition calculate_percentile :: "rat list \<Rightarrow> rat \<Rightarrow> rat" where
  "calculate_percentile durations percentile =
     (if durations = [] then 0
      else let sorted = sort durations;
               index = nat \<lfloor>fmul (fdiv percentile 100) (rnd (of_nat (length durations - 1)))\<rfloor>
           in sorted ! index)"

record ClientMetrics =
  cm_client_id :: string
  total_tests :: nat
  passed_tests :: nat
  failed_tests :: nat
  total_time_ms :: rat
  avg_time_ms :: rat
  min_time_ms :: rat
  max_time_ms :: rat
  p95_time_ms :: rat
  p99_time_ms :: rat
  accuracy_percent :: rat
  response_times :: "rat list"

text \<open>\<open>std::numeric_limits<double>::max()\<close>.\<close>

definition double_max :: rat where
  "double_max = (2 - 1 / 2 ^ 52) * 2 ^ 1023"

definition add_result :: "TestResult \<Rightarrow> ClientMetrics \<Rightarrow> ClientMetrics" where
  "add_result r m =
     m\<lparr>total_tests := total_tests m + 1,
       total_time_ms := fadd (total_time_ms m) (response_time_ms r),
       response_times := response_times m @ [response_time_ms r],
       passed_tests := passed_tests m + of_bool (res_passed r),
       failed_tests := failed_tests m + of_bool (\<not> res_passed r),
       min_time_ms := min (min_time_ms m) (response_time_ms r),
       max_time_ms := max (max_time_ms m) (response_time_ms r)\<rparr>"

text \<open>\<open>junk\<close> holds the fields that are not initialised; they are set only when the client has results.\<close>

definition calculate_client_metrics :: "ClientMetrics \<Rightarrow> string \<Rightarrow> TestResult list \<Rightarrow> ClientMetrics" where
  "calculate_client_metrics junk client_id all_results =
     (let m0 = junk\<lparr>cm_client_id := client_id, total_tests := 0, passed_tests := 0, failed_tests := 0,
            total_time_ms := 0, min_time_ms := double_max, max_time_ms := 0, response_times := []\<rparr>;
          m = fold (\<lambda>r m. if res_client_id r = client_id then add_result r m else m) all_results m0
      in if total_tests m > 0 then
           m\<lparr>avg_time_ms := fdiv (total_time_ms m) (of_nat (total_tests m)),
             accuracy_percent := fmul (fdiv (of_nat (passed_tests m)) (of_nat (total_tests m))) 100,
             p95_time_ms := calculate_percentile (response_times m) 95,
             p99_time_ms := calculate_percentile (response_times m) 99\<rparr>
         else m)"

text \<open>
  The numbers of the report over all clients. Without results \<open>min_element\<close> of an empty vector is
  dereferenced, which is undefined behaviour.
\<close>

record Overall =
  overall_total :: nat
  overall_passed :: nat
  overall_failed :: nat
  overall_accuracy :: rat
  avg_response_time :: rat
  min_response_time :: rat
  max_response_time :: rat
  overall_p95 :: rat
  overall_p99 :: rat

definition overall_report :: "TestResult list \<Rightarrow> Overall result" where
  "overall_report all_results =
     (let total = length all_results;
          passed = length (filter res_passed all_results);
          durations = map response_time_ms all_results
      in if durations = [] then Inl Out_of_bounds
         else Inr \<lparr>overall_total = total, overall_passed = passed, overall_failed = total - passed,
           overall_accuracy = fmul (fdiv (of_nat passed) (of_nat total)) 100,
           avg_response_time = fdiv (fold (\<lambda>t acc. fadd acc t) durations 0) (of_nat total),
           min_response_time = Min (set durations), max_response_time = Max (set durations),
           overall_p95 = calculate_percentile durations 95, overall_p99 = calculate_percentile durations 99\<rparr>)"

text \<open>The numbers for one test: runs, passed, success rate, average and 95th percentile; a \<open>std::map\<close> is sorted.\<close>

definition test_report :: "TestResult list \<Rightarrow> string \<Rightarrow> nat \<times> nat \<times> rat \<times> rat \<times> rat" where
  "test_report all_results t =
     (let results = filter (\<lambda>r. res_test_id r = t) all_results;
          runs = length results;
          passed = length (filter res_passed results);
          durations = map response_time_ms results
      in (runs, passed, fmul (fdiv (of_nat passed) (of_nat runs)) 100,
          fdiv (fold (\<lambda>x acc. fadd acc x) durations 0) (of_nat (length durations)), calculate_percentile durations 95))"

definition test_groups :: "TestResult list \<Rightarrow> (string \<times> nat \<times> nat \<times> rat \<times> rat \<times> rat) list" where
  "test_groups all_results =
     map (\<lambda>t. (t, test_report all_results t)) (sort (remdups (map res_test_id all_results)))"

section \<open>Output\<close>

text \<open>\<open>std::fixed\<close> with \<open>n\<close> digits after the point.\<close>

definition show_fixed :: "nat \<Rightarrow> rat \<Rightarrow> string" where
  "show_fixed n x =
     (let k = nat (round_half_even (x * 10 ^ n)); frac = show_nat (k mod 10 ^ n)
      in show_nat (k div 10 ^ n) @ (if n = 0 then [] else ''.'' @ replicate (n - length frac) (CHR ''0'') @ frac))"

definition result_row :: "TestResult \<Rightarrow> string" where
  "result_row r = res_client_id r @ '','' @ res_test_id r @ '','' @ (if res_passed r then ''true'' else ''false'') @ '',''
     @ show_fixed 3 (response_time_ms r) @ '','' @ [CHR 0x22] @ actual_output r @ [CHR 0x22] @ '',''
     @ [CHR 0x22] @ error_message r @ [CHR 0x22] @ newline"

definition save_results_to_csv :: "TestResult list \<Rightarrow> string" where
  "save_results_to_csv all_results =
     ''client_id,test_id,passed,response_time_ms,actual_output,error_message'' @ newline
     @ concat (map result_row all_results)"

section \<open>The program\<close>

text \<open>\<open>std::atoi\<close>; outside the range of \<open>int\<close> it is undefined.\<close>

definition atoi :: "string \<Rightarrow> i32" where
  "atoi s = (let (neg, ds) = scan_number s; n = int (digits_val ds) in word_of_int (if neg then - n else n))"

datatype perf_options = Help | Options string string i32

fun perf_args :: "string list \<Rightarrow> string \<Rightarrow> string \<Rightarrow> i32 \<Rightarrow> perf_options" where
  "perf_args [] client_exec test_file num_clients = Options client_exec test_file num_clients"
| "perf_args [arg] client_exec test_file num_clients =
     (if arg = ''--help'' then Help else Options client_exec test_file num_clients)"
| "perf_args (arg # v # args) client_exec test_file num_clients =
     (if arg = ''--clients'' then perf_args args client_exec test_file (atoi v)
      else if arg = ''--exec'' then perf_args args v test_file num_clients
      else if arg = ''--tests'' then perf_args args client_exec v num_clients
      else if arg = ''--help'' then Help
      else perf_args (v # args) client_exec test_file num_clients)"

text \<open>
  The threads of the clients append to \<open>all_results\<close> in any order: \<open>merge\<close> chooses one. The outcome
  is the exit code with, after a run, the CSV file.
\<close>

fun run_clients :: "(string \<Rightarrow> string option) \<Rightarrow> (string \<Rightarrow> TestCase \<Rightarrow> nat) \<Rightarrow> TestCase list \<Rightarrow> string \<Rightarrow> nat list \<Rightarrow>
    TestResult list list result" where
  "run_clients popen us ts client_exec [] = Inr []"
| "run_clients popen us ts client_exec (i # is) =
     (let client_id = ''Client_'' @ show_nat (i + 1)
      in bindE (run_client_tests popen (us client_id) ts client_id client_exec) (\<lambda>rs.
         bindE (run_clients popen us ts client_exec is) (\<lambda>rss. Inr (rs # rss))))"

definition run_performance_tests :: "(string \<Rightarrow> string option) \<Rightarrow> (string \<Rightarrow> TestCase \<Rightarrow> nat) \<Rightarrow>
    (TestResult list list \<Rightarrow> TestResult list) \<Rightarrow> TestCase list \<Rightarrow> string \<Rightarrow> i32 \<Rightarrow> (TestResult list \<times> Overall) result" where
  "run_performance_tests popen us merge ts client_exec num_clients =
     bindE (run_clients popen us ts client_exec [0..<nat (sint num_clients)]) (\<lambda>rss.
       let all_results = merge rss in bindE (overall_report all_results) (\<lambda>report. Inr (all_results, report)))"

definition perf_main where
  "perf_main json fs popen us merge args =
     (case perf_args args ''./../../build/dummy_client'' ''./performance-tests.json'' 1 of
        Help \<Rightarrow> Inr (0, None)
      | Options client_exec test_file num_clients \<Rightarrow>
          if num_clients \<le>s 0 then Inr (1, None)
          else (case perf_load_tests json fs test_file of
                  None \<Rightarrow> Inr (1, None)
                | Some ts \<Rightarrow>
                    bindE (run_performance_tests popen us merge ts client_exec num_clients) (\<lambda>(rs, report).
                      Inr (0 :: int, Some (save_results_to_csv rs)))))"

section \<open>What the tests tell\<close>

text \<open>The pieces \<open>fgets\<close> reads make up the output, when it holds no NUL.\<close>

lemma fgets_pieces: "fgets 1024 s = Some (b, rest) \<Longrightarrow> s = b @ rest"
  by (auto simp: fgets_def Let_def split: if_splits)

lemma c_str_id: "CHR 0x00 \<notin> set s \<Longrightarrow> c_str s = s"
  by (auto simp: c_str_def takeWhile_eq_all_conv)

lemma fgets_all_id: "CHR 0x00 \<notin> set s \<Longrightarrow> fgets_all s = s"
proof (induction s rule: fgets_all.induct)
  case (1 s)
  show ?case
  proof (cases "fgets 1024 s")
    case None
    then show ?thesis by (simp add: fgets_all.simps[of s] fgets_def Let_def split: if_splits)
  next
    case (Some p)
    then obtain b rest where b: "fgets 1024 s = Some (b, rest)" by (cases p) simp
    then have "s = b @ rest" by (rule fgets_pieces)
    then have "CHR 0x00 \<notin> set b" "CHR 0x00 \<notin> set rest" using 1(2) by auto
    then have "c_str b @ fgets_all rest = s" using 1(1)[OF b refl] c_str_id \<open>s = b @ rest\<close> by simp
    then show ?thesis using b by (simp add: fgets_all.simps[of s])
  qed
qed

lemma fgets_all_newline: "\<exists>more. fgets_all (newline @ rest) = newline @ more"
  by (subst fgets_all.simps) (simp add: fgets_def newline_def c_str_def)

lemma trim_cases: "trim (c # s) = [] \<or> (\<exists>r. trim (c # s) = c # r)"
  by (auto simp: trim_def split: option.splits)

text \<open>The performance tests cannot pass on the client: whatever the server answers, the text the client
  prints begins with an empty line, so a test whose expected output begins with anything but white
  space fails, as all tests of \<open>performance_tests.json\<close> do that expect prices.\<close>

theorem perf_rejects_client:
  assumes "format_response m output = Inr txt" and "popen (perf_command t client_exec) = Some txt"
    and "expected_output t = c # cs" and "c \<notin> trim_chars"
  shows "\<exists>r. run_single_test popen us t client_id client_exec = Inr r \<and> \<not> res_passed r
    \<and> error_message r = error_msg t"
proof -
  obtain rest where begins: "txt = newline @ rest" using format_response_newline[OF assms(1)] by blast
  obtain more where full: "fgets_all txt = newline @ more" using fgets_all_newline begins by blast
  have "trim (c # cs) \<noteq> []"
    using assms(4) find_last_not_of_None[of trim_chars "c # cs"] by (auto simp: trim_def split: option.splits)
  then obtain r where r: "trim (c # cs) = c # r" using trim_cases[of c cs] by blast
  have "c \<noteq> CHR 0x0A" using assms(4) by (auto simp: trim_chars_def)
  then have "trim (fgets_all txt) \<noteq> trim (c # cs)"
    using trim_cases[of "CHR 0x0A" more] by (auto simp: full newline_def r)
  then show ?thesis using assms(2,3) r by (simp add: run_single_test_def Let_def)
qed

theorem perf_rejects_client_witness:
  "\<exists>r. run_single_test (\<lambda>_. Some (set_text 1 sample_set)) 1000
      \<lparr>test_id = ''test2'', test_input = ''1 0 9 9 8657043457'',
        expected_output = ''Timestamp: 0; Min Price: 100e-2; Max Price: 250e-2'', error_msg = ''test 2 failed''\<rparr>
      ''Client_1'' ''client'' = Inr r \<and> \<not> res_passed r"
proof -
  have printed: "format_response all_metrics (set_bytes sample_set) = Inr (set_text 1 sample_set)"
    using all_metrics_text[OF all_metrics_bits, of "[sample_set]"] by simp
  have "(CHR ''T'') \<notin> trim_chars" by (simp add: trim_chars_def)
  from perf_rejects_client[OF printed _ _ this, of "\<lambda>_. Some (set_text 1 sample_set)" "\<lparr>test_id = ''test2'',
      test_input = ''1 0 9 9 8657043457'', expected_output = ''Timestamp: 0; Min Price: 100e-2; Max Price: 250e-2'',
      error_msg = ''test 2 failed''\<rparr>" "''client''" "''imestamp: 0; Min Price: 100e-2; Max Price: 250e-2''"
      1000 "''Client_1''"]
  show ?thesis by auto
qed

section \<open>Percentiles\<close>

lemma percentile_index:
  assumes "xs \<noteq> []" and "length xs < 2 ^ 53" and "0 \<le> p" and "p \<le> 100"
  shows "nat \<lfloor>fmul (fdiv p 100) (rnd (of_nat (length xs - 1)))\<rfloor> \<le> length xs - 1"
proof -
  have n: "rnd (of_nat (length xs - 1)) = of_nat (length xs - 1)" using assms(2) by (intro rnd_of_nat) simp
  have "fdiv p 100 \<le> fdiv 100 100" using assms(3,4) by (intro fdiv_mono) simp_all
  also have "fdiv 100 100 = 1" using rnd_of_nat[of 1] by (simp add: fdiv_def)
  finally have "fmul (fdiv p 100) (rnd (of_nat (length xs - 1))) \<le> fmul 1 (rnd (of_nat (length xs - 1)))"
    by (intro fmul_mono) simp_all
  also have "\<dots> = of_nat (length xs - 1)" using n by (simp add: fmul_def)
  finally show ?thesis by (simp add: nat_le_iff floor_le_iff)
qed

text \<open>
  A percentile is one of the times, is monotone in the percentage, and at least as many times as its
  rank are not above it; the last one is the maximum.
\<close>

lemma calculate_percentile_correct:
  assumes "xs \<noteq> []" and "length xs < 2 ^ 53" and "0 \<le> p" and "p \<le> q" and "q \<le> 100"
  shows "calculate_percentile xs p \<in> set xs" and "calculate_percentile xs p \<le> calculate_percentile xs q"
    and "calculate_percentile xs 100 = Max (set xs)"
proof -
  let ?i = "\<lambda>p. nat \<lfloor>fmul (fdiv p 100) (rnd (of_nat (length xs - 1)))\<rfloor>"
  have len: "length xs - 1 < length (sort xs)" using assms(1) by (cases xs) simp_all
  have v: "calculate_percentile xs p = sort xs ! ?i p" for p
    using assms(1) by (simp add: calculate_percentile_def Let_def)
  have i: "?i p \<le> length xs - 1" "?i q \<le> length xs - 1"
    using percentile_index[OF assms(1,2)] assms(3-5) by simp_all
  have "sort xs ! ?i p \<in> set (sort xs)" using i(1) len by (intro nth_mem) linarith
  then show "calculate_percentile xs p \<in> set xs" by (simp add: v)
  have "fdiv p 100 \<le> fdiv q 100" using assms(4) by (intro fdiv_mono) simp_all
  then have "fmul (fdiv p 100) (rnd (of_nat (length xs - 1))) \<le> fmul (fdiv q 100) (rnd (of_nat (length xs - 1)))"
    by (intro fmul_mono) simp_all
  then have "?i p \<le> ?i q" by (intro nat_mono floor_mono)
  then show "calculate_percentile xs p \<le> calculate_percentile xs q"
    using i(2) len sorted_nth_mono[OF sorted_sort[of xs], of "?i p" "?i q"] by (simp add: v)
  have one: "fdiv 100 100 = 1" using rnd_of_nat[of 1] by (simp add: fdiv_def)
  have "rnd (of_nat (length xs - 1)) = of_nat (length xs - 1)" using assms(2) by (intro rnd_of_nat) simp
  then have "?i 100 = length xs - 1" by (simp add: one fmul_def)
  then have "calculate_percentile xs 100 = sort xs ! (length xs - 1)" by (simp add: v)
  moreover have "Max (set xs) = sort xs ! (length xs - 1)"
  proof (rule Max_eqI)
    fix y assume "y \<in> set xs"
    then obtain k where "y = sort xs ! k" "k < length xs" by (metis in_set_conv_nth length_sort set_sort)
    then show "y \<le> sort xs ! (length xs - 1)"
      using sorted_nth_mono[OF sorted_sort[of xs], of k "length xs - 1"] len by simp
  qed (use nth_mem[OF len] in simp_all)
  ultimately show "calculate_percentile xs 100 = Max (set xs)" by simp
qed

section \<open>Counting\<close>

text \<open>The numbers of a client do not depend on how the results of the clients are merged.\<close>

lemma fold_add_result:
  "let m' = fold (\<lambda>r m. if res_client_id r = c then add_result r m else m) rs m;
       own = filter (\<lambda>r. res_client_id r = c) rs
   in total_tests m' = total_tests m + length own
      \<and> passed_tests m' = passed_tests m + length (filter res_passed own)
      \<and> failed_tests m' = failed_tests m + length (filter (\<lambda>r. \<not> res_passed r) own)
      \<and> response_times m' = response_times m @ map response_time_ms own"
  by (induction rs arbitrary: m) (simp_all add: add_result_def Let_def)

lemma client_metrics_count:
  fixes all_results and c
  defines "own \<equiv> filter (\<lambda>r. res_client_id r = c) all_results"
  shows "total_tests (calculate_client_metrics junk c all_results) = length own"
    and "passed_tests (calculate_client_metrics junk c all_results) = length (filter res_passed own)"
    and "passed_tests (calculate_client_metrics junk c all_results)
      + failed_tests (calculate_client_metrics junk c all_results) = length own"
  using sum_length_filter_compl[of res_passed own]
    fold_add_result[where c = c and rs = all_results and m = "junk\<lparr>cm_client_id := c, total_tests := 0,
      passed_tests := 0, failed_tests := 0, total_time_ms := 0, min_time_ms := double_max, max_time_ms := 0,
      response_times := []\<rparr>"]
  by (simp_all add: calculate_client_metrics_def Let_def own_def)

text \<open>A test file without tests makes the report read behind the end of an empty vector.\<close>

lemma run_clients_no_tests: "run_clients popen us [] client_exec is = Inr (map (\<lambda>_. []) is)"
  by (induction "is") (simp_all add: Let_def)

lemma perf_no_tests:
  assumes "mset (merge (map (\<lambda>_. []) [0..<nat (sint n)])) = {#}"
  shows "run_performance_tests popen us merge [] client_exec n = Inl Out_of_bounds"
  using assms by (simp add: run_performance_tests_def run_clients_no_tests overall_report_def Let_def)

end
