(* ===== verification/Page_Test.thy ===== *)
theory Page_Test
  imports Perf_Test
begin

text \<open>
  \<open>src/test/performance/db-tests/test-executor.cc\<close>: reads one record per page of the data file and
  records after each read how much memory of the process is resident. The time stamp counter and the
  files \<open>/proc/<pid>/maps\<close> and \<open>/proc/<pid>/pagemap\<close> as they are at each measurement are arguments.
\<close>

section \<open>The time stamp counter\<close>

text \<open>On x86: the instruction delivers two halves.\<close>

definition rdtsc :: "u32 \<Rightarrow> u32 \<Rightarrow> u64" where
  "rdtsc lo hi = push_bit 32 (ucast hi) OR ucast lo"

lemma unat_rdtsc: "unat (rdtsc lo hi) = unat hi * 2 ^ 32 + unat lo"
proof -
  have h: "unat (push_bit 32 (ucast hi :: u64)) = unat hi * 2 ^ 32"
    using unat_lt2p[of hi] by (simp add: push_bit_eq_mult unat_word_ariths unsigned_ucast_eq take_bit_nat_eq_self)
  have l: "unat (ucast lo :: u64) = unat lo"
    using unat_lt2p[of lo] by (simp add: unsigned_ucast_eq take_bit_nat_eq_self)
  have "push_bit 32 (ucast hi :: u64) AND ucast lo = 0"
    by (rule bit_eqI) (auto simp: bit_simps dest: bit_imp_le_length)
  then have "rdtsc lo hi = push_bit 32 (ucast hi) + ucast lo"
    unfolding rdtsc_def by (simp only: disjunctive_add_eq_or)
  then show ?thesis using h l unat_lt2p[of hi] unat_lt2p[of lo] by (simp add: unat_word_ariths)
qed

section \<open>The memory of the process\<close>

record Region =
  region_start :: u64
  region_end :: u64

text \<open>
  \<open>substr(0, dash)\<close> and \<open>substr(dash + 1)\<close> for the first dash; without one both are the whole string,
  because \<open>npos + 1\<close> is 0.
\<close>

definition before_dash :: "string \<Rightarrow> string" where
  "before_dash s = takeWhile (\<lambda>c. c \<noteq> CHR ''-'') s"

definition after_dash :: "string \<Rightarrow> string" where
  "after_dash s = (if CHR ''-'' \<in> set s then tl (dropWhile (\<lambda>c. c \<noteq> CHR ''-'') s) else s)"

definition parse_region :: "string \<Rightarrow> Region result" where
  "parse_region addr_range =
     bindE (stoull_16 (before_dash addr_range)) (\<lambda>a.
     bindE (stoull_16 (after_dash addr_range)) (\<lambda>b.
     Inr \<lparr>region_start = a, region_end = b\<rparr>))"

function region_lines :: "istream \<Rightarrow> string \<Rightarrow> Region list \<Rightarrow> Region list result" where
  "region_lines maps line regions =
     (case getline (CHR 0x0A) maps line of (ok, maps', line') \<Rightarrow>
        if \<not> ok then Inr regions
        else (case first_word line' of
            None \<Rightarrow> region_lines maps' line' regions
          | Some addr_range \<Rightarrow> (case parse_region addr_range of
                Inl err \<Rightarrow> Inl err
              | Inr region \<Rightarrow> region_lines maps' line' (regions @ [region]))))"
  by pat_completeness auto
termination
proof (relation "measure (\<lambda>(src, line, out). length (stream_rest src) + of_bool (stream_good src))", goal_cases)
  case 1
  show ?case by simp
next
  case (2 src line out ok p src' line')
  then have "getline (CHR 0x0A) src line = (True, src', line')" by (cases ok) simp_all
  from getline_progress[OF this] show ?case by simp
next
  case (3 src line out ok p src' line')
  then have "getline (CHR 0x0A) src line = (True, src', line')" by (cases ok) simp_all
  from getline_progress[OF this] show ?case by simp
qed

declare region_lines.simps [simp del]

text \<open>A file that cannot be opened has no lines.\<close>

definition get_memory_regions :: "string option \<Rightarrow> Region list result" where
  "get_memory_regions maps = (case maps of
      None \<Rightarrow> Inr []
    | Some txt \<Rightarrow> region_lines \<lparr>stream_rest = txt, stream_good = True\<rparr> [] [])"

text \<open>The lines the kernel writes are read back, whatever follows the addresses on a line.\<close>

definition region_line :: "Region \<Rightarrow> string \<Rightarrow> string" where
  "region_line r left = show_hex (unat (region_start r)) @ ''-'' @ show_hex (unat (region_end r)) @ '' '' @ left @ newline"

lemma parse_region_shown:
  "parse_region (show_hex (unat (region_start r)) @ ''-'' @ show_hex (unat (region_end r))) = Inr r"
proof -
  have "CHR ''-'' \<notin> set (show_hex (unat (region_start r)))" using show_hex_digits xdigit_facts(2) by blast
  then show ?thesis
    using unat_lt2p[of "region_start r"] unat_lt2p[of "region_end r"]
    by (simp add: parse_region_def before_dash_def after_dash_def stoull_16_show_hex)
qed

lemma first_word_shown:
  assumes "x \<noteq> []" and "\<forall>c \<in> set x. \<not> is_space c"
  shows "first_word (x @ '' '' @ left) = Some x"
proof -
  have "dropWhile is_space (x @ '' '' @ left) = x @ '' '' @ left" using assms by (cases x) auto
  moreover have "takeWhile (\<lambda>c. \<not> is_space c) (x @ '' '' @ left) = x"
    using assms(2) by (simp add: takeWhile_append is_space_def)
  ultimately show ?thesis using assms(1) by (simp add: first_word_def Let_def)
qed

lemma get_memory_regions_shown:
  assumes "\<forall>(r, left) \<in> set rs. CHR 0x0A \<notin> set left"
  shows "get_memory_regions (Some (concat (map (\<lambda>(r, left). region_line r left) rs))) = Inr (map fst rs)"
proof -
  have "region_lines \<lparr>stream_rest = concat (map (\<lambda>(r, left). region_line r left) rs), stream_good = True\<rparr> line out
      = Inr (out @ map fst rs)" for line out
    using assms
  proof (induction rs arbitrary: line out)
    case Nil
    then show ?case by (subst region_lines.simps) (simp add: getline_def)
  next
    case (Cons x rs)
    obtain r left where x: "x = (r, left)" by (cases x)
    define w where "w = show_hex (unat (region_start r)) @ ''-'' @ show_hex (unat (region_end r))"
    define l where "l = w @ '' '' @ left"
    have nl: "CHR 0x0A \<notin> set l"
      using Cons.prems show_hex_digits xdigit_facts(6) by (auto simp: x l_def w_def)
    have sp: "\<forall>c \<in> set w. \<not> is_space c"
      using show_hex_digits xdigit_facts(1) by (auto simp: w_def is_space_def)
    have word: "first_word l = Some w" unfolding l_def by (rule first_word_shown[OF _ sp]) (simp add: w_def)
    have region: "parse_region w = Inr r" unfolding w_def by (rule parse_region_shown)
    have "region_line r left = l @ newline" by (simp add: region_line_def l_def w_def)
    then have line: "getline (CHR 0x0A) \<lparr>stream_rest = region_line r left @ rest, stream_good = True\<rparr> str
        = (True, \<lparr>stream_rest = rest, stream_good = True\<rparr>, l)" for rest str
      using getline_here[OF nl, of rest str] by (simp add: newline_def)
    show ?case
      using Cons.IH Cons.prems by (subst region_lines.simps) (simp add: x line word region)
  qed
  from this[of "[]" "[]"] show ?thesis by (simp add: get_memory_regions_def)
qed

section \<open>Resident memory\<close>

definition PAGE_SIZE :: u64 where "PAGE_SIZE = 4096"

text \<open>The entry of a page in \<open>/proc/<pid>/pagemap\<close> (\<open>None\<close> when it cannot be read); bit 63 says that it is present.\<close>

definition is_page_present :: "(u64 \<Rightarrow> u64 option) \<Rightarrow> u64 \<Rightarrow> bool" where
  "is_page_present pagemap vaddr = (case pagemap ((vaddr div PAGE_SIZE) * 8) of
      None \<Rightarrow> False
    | Some entry \<Rightarrow> entry AND push_bit 63 1 \<noteq> 0)"

text \<open>The loop over the pages of a region; an address that wraps around would loop for ever (\<open>None\<close>).\<close>

partial_function (option) count_pages :: "(u64 \<Rightarrow> u64 option) \<Rightarrow> u64 \<Rightarrow> u64 \<Rightarrow> u64 \<Rightarrow> u64 option" where
  "count_pages pagemap addr stop found =
     (if addr < stop then
        count_pages pagemap (addr + PAGE_SIZE) stop (if is_page_present pagemap addr then found + 1 else found)
      else Some found)"

lemma count_pages_returns:
  assumes "unat stop + 4096 \<le> 2 ^ 64"
  shows "\<exists>n. count_pages pagemap addr stop found = Some n"
proof (induction "unat stop - unat addr" arbitrary: addr found rule: less_induct)
  case less
  show ?case
  proof (cases "addr < stop")
    case True
    then have "unat (addr + PAGE_SIZE) = unat addr + 4096"
      using assms by (simp add: PAGE_SIZE_def unat_word_ariths word_less_nat_alt)
    then have "unat stop - unat (addr + PAGE_SIZE) < unat stop - unat addr"
      using True by (simp add: word_less_nat_alt)
    from less[OF this] show ?thesis using True by (subst count_pages.simps) simp
  qed (subst count_pages.simps, simp)
qed

fun count_regions :: "(u64 \<Rightarrow> u64 option) \<Rightarrow> Region list \<Rightarrow> u64 \<Rightarrow> u64 option" where
  "count_regions pagemap [] found = Some found"
| "count_regions pagemap (r # rs) found = (case count_pages pagemap (region_start r) (region_end r) found of
      None \<Rightarrow> None
    | Some found' \<Rightarrow> count_regions pagemap rs found')"

text \<open>
  What a call does: it returns, throws, ends the process with \<open>exit\<close>, or loops for ever.
\<close>

datatype 'a outcome = Returned 'a | Thrown cpp_error | Exited int | Endless

definition bindO :: "'a outcome \<Rightarrow> ('a \<Rightarrow> 'b outcome) \<Rightarrow> 'b outcome" where
  "bindO m f = (case m of
      Returned x \<Rightarrow> f x
    | Thrown err \<Rightarrow> Thrown err
    | Exited n \<Rightarrow> Exited n
    | Endless \<Rightarrow> Endless)"

lemma bindO_eq_Returned [simp]: "bindO m f = Returned y \<longleftrightarrow> (\<exists>x. m = Returned x \<and> f x = Returned y)"
  by (cases m) (simp_all add: bindO_def)

text \<open>The two files of \<open>/proc\<close>; \<open>None\<close> when one cannot be opened.\<close>

record proc_files =
  maps_text :: "string option"
  pagemap :: "(u64 \<Rightarrow> u64 option) option"

definition get_resident_memory :: "proc_files \<Rightarrow> u64 outcome" where
  "get_resident_memory p = (case get_memory_regions (maps_text p) of
      Inl err \<Rightarrow> Thrown err
    | Inr regions \<Rightarrow> (case pagemap p of
          None \<Rightarrow> Exited 1
        | Some entry \<Rightarrow> (case count_regions entry regions 0 of
              None \<Rightarrow> Endless
            | Some total_present \<Rightarrow> Returned (total_present * PAGE_SIZE))))"

text \<open>
  The measurement returns when both files can be read, the first as the kernel writes it, and no
  region reaches into the last page of the address space.
\<close>

lemma count_regions_returns:
  "\<forall>r \<in> set rs. unat (region_end r) + 4096 \<le> 2 ^ 64 \<Longrightarrow> \<exists>n. count_regions entry rs found = Some n"
proof (induction rs arbitrary: found)
  case (Cons r rs)
  obtain n where "count_pages entry (region_start r) (region_end r) found = Some n"
    using count_pages_returns[of "region_end r" entry "region_start r" found] Cons.prems by auto
  then show ?case using Cons by simp
qed simp

lemma resident_memory_returns:
  assumes "\<forall>(r, left) \<in> set rs. CHR 0x0A \<notin> set left \<and> unat (region_end r) + 4096 \<le> 2 ^ 64"
    and "maps_text p = Some (concat (map (\<lambda>(r, left). region_line r left) rs))" and "pagemap p = Some entry"
  shows "\<exists>m. get_resident_memory p = Returned m"
proof -
  have "get_memory_regions (maps_text p) = Inr (map fst rs)"
    unfolding assms(2) using assms(1) by (intro get_memory_regions_shown) auto
  moreover obtain n where "count_regions entry (map fst rs) 0 = Some n"
    using count_regions_returns[of "map fst rs" entry 0] assms(1) by (auto simp: case_prod_unfold)
  ultimately show ?thesis using assms(3) by (simp add: get_resident_memory_def)
qed

section \<open>Reading the pages\<close>

lemma word_Suc: "index < (stop :: u64) \<Longrightarrow> unat (index + 1) = Suc (unat index)"
  using unat_lt2p[of stop] by (simp add: unat_word_ariths word_less_nat_alt)

text \<open>
  The loop: \<open>num\<close> is an \<open>int\<close> that is compared with the unsigned \<open>index\<close>, so a negative one is very
  large. \<open>procs k\<close> are the files of \<open>/proc\<close> at the measurement after \<open>k\<close> reads, \<open>clock k\<close> the two
  values of the counter around read \<open>k\<close>. The result is \<open>index\<close> and the vectors \<open>differences\<close> and \<open>times\<close>.
\<close>

function page_loop :: "Query_engine \<Rightarrow> (u64 \<Rightarrow> proc_files) \<Rightarrow> (u64 \<Rightarrow> u64 \<times> u64) \<Rightarrow> i32 \<Rightarrow> u64 \<Rightarrow> u64 list \<Rightarrow>
    u64 list \<Rightarrow> (u64 \<times> u64 list \<times> u64 list) outcome" where
  "page_loop e procs clock num index differences durations =
     (if index < scast num then
        (case read_trade_data e (index * 128) of
           Inl _ \<Rightarrow> Returned (index, differences, durations)
         | Inr _ \<Rightarrow>
             bindO (get_resident_memory (procs (index + 1))) (\<lambda>m.
             page_loop e procs clock num (index + 1) (differences @ [m])
               (durations @ [snd (clock index) - fst (clock index)])))
      else Returned (index, differences, durations))"
  by auto
termination
  by (relation "measure (\<lambda>(e, procs, clock, num, index, _, _). unat (scast num :: u64) - unat index)")
    (auto simp: word_Suc word_less_nat_alt)

declare page_loop.simps [simp del]

text \<open>
  \<open>main\<close> with an argument (without one it reads a null pointer): the standard output, the files it
  writes, and how it ends. An exception is caught and gives the exit code 1; the call of \<open>exit\<close> in
  \<open>get_resident_memory\<close> ends the process as well. \<open>can_open\<close> tells which files can be opened for
  writing.
\<close>

definition numbered :: "u64 list \<Rightarrow> string" where
  "numbered xs = concat (map (\<lambda>(i, x). show_nat i @ '' '' @ show_nat (unat x) @ newline) (enumerate 0 xs))"

definition output_dir :: string where
  "output_dir = ''test/performance/db-tests/output/''"

definition executor_main :: "nat \<Rightarrow> Query_engine \<Rightarrow> (u64 \<Rightarrow> proc_files) \<Rightarrow> (u64 \<Rightarrow> u64 \<times> u64) \<Rightarrow> (string \<Rightarrow> bool) \<Rightarrow>
    string \<Rightarrow> string \<times> (string \<times> string) list \<times> int outcome" where
  "executor_main pid e procs clock can_open arg =
     (let head = show_nat pid @ newline @ ''Total trades: '' @ show_nat (unat (trades_size e)) @ newline
            @ show_nat sizeof_TradeData @ '' bytes per trade'' @ newline
      in case bindO (get_resident_memory (procs 0)) (\<lambda>before. page_loop e procs clock (atoi arg) 0 [before] []) of
           Thrown err \<Rightarrow> (head, [], Returned 1)
         | Exited n \<Rightarrow> (head, [], Exited n)
         | Endless \<Rightarrow> (head, [], Endless)
         | Returned (index, differences, durations) \<Rightarrow>
             let d = output_dir @ ''differences.txt''; t = output_dir @ ''times.txt''
             in (head @ ''Successfully processed '' @ show_nat (length differences) @ '' trades'' @ newline
                 @ (if can_open d then ''Results written to differences.txt'' @ newline else [])
                 @ (if can_open t then ''Times written to times.txt'' @ newline else [])
                 @ ''Total trades processed: '' @ show_nat (unat index) @ newline,
                 (if can_open d then [(d, numbered (map (\<lambda>m. (m - hd differences) div 1024) differences))] else [])
                 @ (if can_open t then [(t, numbered durations)] else []),
                 Returned 0))"

section \<open>What the loop does\<close>

text \<open>
  Every read before \<open>index\<close> succeeds, and the loop stops at the first that fails or at \<open>num\<close>, which is
  never reached when it is negative. There is one measurement of the memory more than there are reads,
  and it is their number that is printed as that of the trades processed.
\<close>

lemma page_loop_result:
  assumes "page_loop e procs clock num index ds ts = Returned (i, ds', ts')" and "index \<le> scast num"
  shows "index \<le> i \<and> i \<le> scast num
    \<and> (\<forall>k. index \<le> k \<and> k < i \<longrightarrow> (\<exists>t. read_trade_data e (k * 128) = Inr t))
    \<and> (i < scast num \<longrightarrow> (\<exists>err. read_trade_data e (i * 128) = Inl err))
    \<and> length ds' = length ds + (unat i - unat index) \<and> length ts' = length ts + (unat i - unat index)"
  using assms
proof (induction e procs clock num index ds ts rule: page_loop.induct)
  case (1 e procs clock num index ds ts)
  show ?case
  proof (cases "index < scast num \<and> (\<exists>t. read_trade_data e (index * 128) = Inr t)")
    case False
    then have "i = index" "ds' = ds" "ts' = ts"
      using 1(2) by (auto simp: page_loop.simps[of e procs clock num index] split: if_splits sum.splits)
    then show ?thesis using False 1(3) by (cases "read_trade_data e (index * 128)") auto
  next
    case True
    then obtain t where t: "read_trade_data e (index * 128) = Inr t" by blast
    note n = word_Suc[of index "scast num"]
    have le: "index + 1 \<le> scast num" using True n by (simp add: word_le_nat_alt word_less_nat_alt)
    obtain m where "page_loop e procs clock num (index + 1) (ds @ [m]) (ts @ [snd (clock index) - fst (clock index)])
        = Returned (i, ds', ts')"
      using 1(2) True t by (auto simp: page_loop.simps[of e procs clock num index])
    note IH = 1(1)[OF _ t this le]
    have "k = index \<or> index + 1 \<le> k" if "index \<le> k" for k
    proof (cases "k \<le> index")
      case False
      then show ?thesis using n True by (simp add: word_le_nat_alt not_le Suc_le_eq)
    qed (use that in simp)
    moreover have "Suc (unat index) \<le> unat i" using IH True n by (simp add: word_le_nat_alt)
    ultimately show ?thesis using IH True t n by (fastforce simp: word_le_nat_alt)
  qed
qed

text \<open>It returns when every measurement does.\<close>

lemma page_loop_returns:
  assumes "\<forall>k. \<exists>m. get_resident_memory (procs k) = Returned m"
  shows "\<exists>x. page_loop e procs clock num index ds ts = Returned x"
  using assms
proof (induction e procs clock num index ds ts rule: page_loop.induct)
  case (1 e procs clock num index ds ts)
  then show ?case
    by (subst page_loop.simps) (fastforce split: sum.split)
qed

lemma executor_off_by_one:
  assumes "page_loop e procs clock (atoi arg) 0 [before] [] = Returned (i, differences, durations)"
  shows "length differences = unat i + 1 \<and> length durations = unat i"
  using page_loop_result[OF assms] by simp

end
