(* ===== verification/Spec2Isabelle.thy ===== *)
theory Spec2Isabelle
  imports Accuracy Atomic_Queue Fair_Loop Hang_Up Edge_Trigger Entry_Points Udp_System
    Multi_Client Page_Test
begin

text \<open>
  Verification of the trade data query system.

  The program. A converter turns a CSV file of trades into a binary file of 32-byte records. A
  TCP server reads queries (symbol, time range, resolution, mask of metrics) from its clients,
  hands each to a pool of worker threads through a queue, and sends every answer back to the
  descriptor the query came from. A worker cuts the time range into sub-intervals of the length
  of the resolution and lets the query engine compute, for each, the minimum and maximum price,
  the mean price and the total quantity of the trades in the data file. The client sends one
  query at a time and prints the answer. A UDP server and client are a smaller variant.

  How the theories follow the code (paths below src/src, the converter below src/process_data):
    \<^item> \<open>Trade_Data\<close>: the packed structs of \<open>utils/query.h\<close> as records, with the bytes they occupy
      on a little-endian machine with the packing of the pragmas (a \<open>TradeData\<close> is 31 bytes of
      members in 32 bytes); the round trips of encoding and decoding.
    \<^item> \<open>Streams\<close>: what the programs use of \<open>std::istream\<close>: \<open>getline\<close>, \<open>operator>>\<close> for unsigned
      numbers, the \<open>std::sto*\<close> functions with their exceptions, and printing numbers.
    \<^item> \<open>Csv\<close>: \<open>process_data_main.cc\<close>; the file system is a map from paths to contents.
    \<^item> \<open>Query_Engine\<close>: \<open>query_engine/query_engine.cc\<close>, the constructor, \<open>read_trade_data\<close>, the two
      binary searches that open every metric, \<open>send_raw_data\<close>. \<open>Float64\<close>: the \<open>double\<close> operations
      of the metrics. \<open>Metrics\<close>: \<open>min_max_price_in_range\<close>, \<open>total_quantity_in_range\<close>,
      \<open>mean_price_in_range\<close>. \<open>Aggregator\<close>: \<open>aggregator\<close>.
    \<^item> \<open>Window\<close>, \<open>Metrics_Correct\<close>, \<open>Range_Ends\<close>, \<open>Totals\<close>, \<open>Averages\<close>, \<open>Accuracy\<close>: what the engine
      computes: the records the searches select; the metrics over those; the cases at the ends of
      the file; the conversion of a double to mantissa and exponent; exact results on integral
      data; error bounds for all other data.
    \<^item> \<open>Worker\<close>: \<open>worker_thread_loop\<close> of \<open>server/server.cc\<close> for one query.
    \<^item> \<open>TS_Queue\<close>, \<open>Mt_Queue\<close>: \<open>server/TS-queue.h\<close> and \<open>utils/mt_queue.h\<close>, each twice: the
      atomic operations, and the operations cut at every lock, wait, notify and release and at every
      access to the unsynchronised \<open>std::queue\<close> (which is read in one step and written in a later
      one; \<open>front\<close> and \<open>pop\<close> of an empty one lead to a program point of their own), for any
      number of threads in any order. \<open>Atomic_Queue\<close>: the second refines the first, as long as
      the locks keep the threads apart, which is part of the invariants.
    \<^item> \<open>Sender\<close>: \<open>server/sender.cc\<close>, \<open>receiver.cc\<close>. \<open>Net\<close>: the helpers of
      \<open>utils/net\<close> and \<open>utils/helper\<close>.
    \<^item> \<open>Server\<close>: every handler of \<open>EpollServer\<close> (\<open>server/server.cc\<close>). \<open>Server_System\<close>: the main
      thread, the workers and the two queues as a step relation \<open>sys_act\<close>, one step per call
      of a handler, per hand-over of a query, per answer of a worker and per reset of a connection,
      labelled with who takes it; \<open>sys_step\<close> is a step of anybody, \<open>own_step\<close> one of the server's
      own threads that no event causes. \<open>Service\<close>: the
      well-formed states of that relation, progress, and what clients may observe of it.
    \<^item> \<open>Client\<close>, \<open>Client_Main\<close>, \<open>Client_Session\<close>: \<open>client/client.cc\<close>; the command line and the
      text of a response in \<open>client_main.cc\<close>; its loop over the standard input.
    \<^item> \<open>Delivery\<close>, \<open>Pipelined\<close>, \<open>Closed_Loop\<close>, \<open>Loop_Progress\<close>, \<open>Fair_Loop\<close>, \<open>Hang_Up\<close>: the server with the
      connections of all its clients. \<open>deliver_step\<close> logs which results were handed to which connection;
      \<open>pipe_step\<close> adds clients that send any number of queries at any time, \<open>loop_step\<close> clients that
      behave like \<open>client_main.cc\<close> (one query at a time). Each simulates the one before it. The locale
      \<open>arrival\<close> proves once, for an order the workers keep, that the answers arrive in that order; it is
      interpreted on any number of workers (no order) and on one (the order of the queries).
      \<open>Fair_Loop\<close>: infinite runs of the closed loop in which no thread and no writable socket is
      neglected for ever; the locale \<open>fair_response\<close> is interpreted with the distance of a query from
      its answer.
      \<open>Hang_Up\<close>: clients that reset their connection. \<open>Edge_Trigger\<close>: the events of one connection, with
      the edge-triggered reports of epoll, which are made in one step and handled in a later one.
    \<^item> \<open>Udp\<close>, \<open>Udp_System\<close>: \<open>server_udp\<close>, \<open>client_udp\<close> and \<open>client_main_udp.cc\<close>; whole sessions of a
      UDP client, and the edge-triggered socket of the UDP server.
    \<^item> \<open>Entry_Points\<close>: \<open>server_main.cc\<close>, \<open>server_main_udp.cc\<close> and \<open>process_data/check.cc\<close>.
    \<^item> \<open>Multi_Client\<close>, \<open>Test_Harness\<close>, \<open>Perf_Test\<close>, \<open>Page_Test\<close>: the programs below src/test, that is the load
      generator with several sockets, the correctness tests, the performance tests and the page
      access benchmark. The shell, the JSON library, the clocks and the contents of /proc are parameters.
    \<^item> \<open>Prelude\<close>: the integer types, the result types, bytes, and the lemmas that several
      theories use. \<open>Transition\<close>: invariants, preorders, simulation, progress and fairness of step relations, as locales
      interpreted on the queues, the TCP server, the closed loop and the UDP server.
  This theory joins them: from the CSV file to the response, from the query to the printed text, and
  the client program with the server.

  Conventions.
    \<^item> Integers keep the width of the code (words of 8, 16, 32, 64 bits); signed fields are signed
      readings of words. Offsets into the data file are naturals, as a file is below \<open>2^63\<close> bytes.
    \<^item> A computation that may loop forever has type \<open>'a run\<close>: \<open>None\<close> is not returning, \<open>Inl e\<close> an
      exception, \<open>Inr v\<close> a result. Such loops are \<open>partial_function (option)\<close>; that they return
      is a theorem of its own (\<open>metrics_terminate\<close>, \<open>aggregator_terminates\<close>), and where they do
      not, so is that (\<open>worker_wrap_diverges\<close>). No fuel is used anywhere.
    \<^item> What the environment decides (the return value of a system call, a descriptor handed out by
      the kernel, a connection's bytes, the order of threads) is an argument or a choice of a
      step, so theorems hold for every outcome.
    \<^item> A \<open>double\<close> is a nonnegative rational, as no value the metrics compute is negative. Each
      operation is the exact one followed by rounding to 53 bits, ties to even, with subnormals
      below \<open>2^-1022\<close> and no upper limit on the exponent, which the values computed stay far
      below (\<open>accumulators_bounded\<close>). \<open>std::pow\<close> with the base 10 is taken to be correctly rounded.
    \<^item> \<open>lowest_and_highest_prices\<close> is declared in the engine's header, called by the UDP server and
      defined nowhere: it is a parameter of \<open>Udp\<close>.

  Abstract specifications. \<open>in_window\<close> in \<open>Window\<close> are the trades of an interval, \<open>window_read\<close> those
  the code reads for it: the same, except that an interval that ends not after the first trade of the
  file reads that trade and one that begins after the last reads the last (\<open>window_read_cases\<close>); \<open>response_spec\<close> in \<open>Worker\<close> is the whole answer to a query as a function of the list of
  trades; a queue is a list (locale \<open>fifo\<close>, interpreted on \<open>TSQueue\<close>, \<open>Mt_Queue\<close> and
  \<open>OffloadQueue\<close>); the data file is a store of records (locale \<open>trade_store\<close>, interpreted on the
  engine).

  The hypotheses that recur. \<open>time_sorted ts\<close>: the records of the file are in time order, which
  the binary searches need. \<open>covers t e\<close>: no search for a time up to \<open>t\<close> reads beyond the end of
  the file; the constructor divides the size of the file by 31 where a record has 32 bytes, so
  this holds for all \<open>t\<close> only when a file has fewer than 31 records (\<open>sized_covers\<close>,
  \<open>trades_size_overcounts\<close>), and for larger ones when \<open>t\<close> is before the last \<open>n div 31\<close> records
  (\<open>covers_open_file\<close>). \<open>no_wrap q\<close>: the 64-bit time of the loop over the sub-intervals does not
  pass \<open>2^64\<close>.

  What the theorems show.
    \<^item> Refinement: every response any client is sent is \<open>response_spec\<close> of its query
      (\<open>worker_refines_spec\<close>, \<open>server_refines_spec\<close>), and what the client prints is what
      the specification says (\<open>query_to_text\<close>); from the CSV file on (\<open>csv_to_response\<close>).
    \<^item> The metrics: minimum and maximum are those of the window, exactly where the prices share an
      exponent; quantities and means are exact on integral data and within proved relative
      errors otherwise.
    \<^item> Clients: in a closed loop with any number of clients that ask one query at a time, every
      client gets, and reads, the abstract responses to its own queries in the order it asked,
      whatever the others ask (\<open>clients_get_their_answers\<close>, \<open>clients_read_their_answers\<close>); clients that
      do not wait get each answer once, in the order of their queries if there is one worker
      (\<open>pipelined_answers\<close>, \<open>one_worker_in_order\<close>); in any orderly run, what is on a connection is a sequence of framed
      responses (\<open>server_delivers_responses\<close>); the program of the client sends the queries it is
      given, then the uninitialised one, and prints every response (\<open>client_resends_at_eof\<close>). Together:
      if the connection carries what was sent, the server receives from a client program next to it the
      queries on its standard input, in order, and the client prints what the specification says about
      each (\<open>client_and_server\<close>).
    \<^item> Concurrency: no query is lost or answered twice (\<open>server_conserves_queries\<close>), one worker
      keeps the order, several need not (\<open>workers_reorder\<close>), both queues are linearizable
      (\<open>queues_linearizable\<close>, which is why \<open>sys_step\<close> may use the atomic operations) and first in
      first out under every interleaving, wake-ups are not lost, \<open>front\<close> is never called on an empty queue.
    \<^item> Progress: from every reachable state the server can go on to answer all it has received
      (\<open>server_can_answer\<close>), and every client that waits can be served by steps of the workers and of
      the main thread alone (\<open>waiting_client_is_served\<close>); in every fair run it is served, whatever the others do
      (\<open>fair_clients_are_answered\<close>). Not so for queries whose loop does not end (\<open>pool_exhausted\<close>) or reads
      beyond the file (\<open>query_kills_server\<close>) and for clients that hang up (\<open>hang_up_kills_server\<close>).
    \<^item> Failures: the inputs on which the program does not do what it means to, each as a theorem
      about the definitions: ends of the file, resolution 0, wrap-around, a full socket, two
      responses for one descriptor, a reused descriptor, a query that arrives in two pieces, a
      repeated header line, a short row, a query for fewer metrics, the end of the client's
      input, unread answers of the UDP client, datagrams left in the UDP server's socket, a query that
      arrives with a write event (\<open>input_hides_output\<close>), and tests that cannot pass
      (\<open>multi_client_rejects_responses\<close>, \<open>perf_rejects_client\<close>, \<open>first_line_is_empty\<close>).

  Runs. The closed loop makes no assumption on the scheduler and on how much of a response the kernel
  takes at a time; it does assume that a query arrives in one piece, that the 4 bytes of a length
  are sent whole or not at all, that the kernel hands out descriptors that are not open, and that
  a client does not hang up while it waits. Fairness, assumed by \<open>fair_clients_are_answered\<close> only,
  is a hypothesis on the run: it includes that a socket with pending bytes is reported writable
  again, which \<open>input_hides_output\<close> shows to need clients that send nothing while they wait.
  \<open>pipe_step\<close> and \<open>deliver_step\<close> moreover assume that no result is sent while an earlier one is
  pending for its descriptor, which the code does not ensure (\<open>send_result_overtakes_pending\<close>). What happens without the first and the last is shown by
  \<open>short_read_splits_query\<close>, \<open>response_to_wrong_client\<close> and \<open>hang_up_kills_server\<close>.

  Not modelled: logging and diagnostics on the error stream, the layout of the report of the performance
  tests, and the variants of \<open>rdtsc\<close> for other processors than x86. A failed \<open>send\<close> is a return value
  or, on a connection the peer has reset, the end of the process (rules \<open>act_hang_up\<close>,
  \<open>act_pipe_result\<close> and \<open>act_pipe_write\<close> of \<open>sys_act\<close>). The counter of a semaphore is a natural number, without
  the implementation's maximum. Memory that is not initialised is a parameter (of the fields
  \<open>Received\<close> of a read and \<open>env_query\<close> of a round of the client).
\<close>

section \<open>From the CSV file to the response\<close>

lemma new_Query_engine_open_file: "new_Query_engine (Some (encode_trades pad ts)) junk = open_file pad ts"
  by (simp add: open_file_def new_Query_engine_def)

text \<open>C13. From the CSV file to the response: if the converter is run on a CSV file with the rows of a
  time-ordered, nonempty list of trades, a worker whose engine opens the converter's output answers
  every query that does not wrap and ends before the last \<open>n div 31\<close> trades (of \<open>n\<close>) with exactly
  the abstract response over those trades.\<close>

theorem csv_to_response:
  assumes "CHR ''/'' \<notin> set name" and "CHR 0x0A \<notin> set header"
    and "creatable (parent @ ''/processed/'' @ name @ ''.bin'')"
    and "fs (parent @ ''/raw/'' @ name @ ''.csv'') = Some (of_string (csv_file header ts))"
    and "process_main pad creatable [parent @ ''/raw/'' @ name @ ''.csv''] fs = (res, fs')"
    and "time_sorted ts" and "ts \<noteq> []" and "length ts < 2 ^ 57" and "no_wrap (work_query w)"
    and "lower_bound (end_time_point (work_query w)) ts + length ts div 31 < length ts"
  shows "res = Inr 0 \<and>
    worker_process (new_Query_engine (fs' (parent @ ''/processed/'' @ name @ ''.bin'')) junk) w =
      Some (Inr \<lparr>result_fd = work_fd w, result_bytes = response_spec ts (work_query w)\<rparr>)"
proof -
  have "res = Inr 0" "fs' = fs(parent @ ''/processed/'' @ name @ ''.bin'' \<mapsto> encode_trades pad ts)"
    using process_main_csv[of name header creatable parent fs ts pad, OF assms(1-4)] assms(5) by auto
  moreover have "worker_process (open_file pad ts) w =
      Some (Inr \<lparr>result_fd = work_fd w, result_bytes = response_spec ts (work_query w)\<rparr>)"
    using worker_spec[OF covers_open_file[OF assms(8,10)] _ _ assms(9), of pad] assms(6,7) by simp
  ultimately show ?thesis by (simp add: new_Query_engine_open_file)
qed

definition sample_item_25 :: WorkItem where
  "sample_item_25 = \<lparr>work_fd = 7, work_query = \<lparr>query_symbol_id = 1, start_time_point = 10,
     end_time_point = 25, resolution = 5, metrics = all_metrics\<rparr>\<rparr>"

theorem csv_to_response_witness:
  "worker_process (new_Query_engine (snd (process_main 0 (\<lambda>_. True) [''data/raw/t.csv'']
       [''data/raw/t.csv'' \<mapsto> of_string (csv_file header_text sample_trades)]) ''data/processed/t.bin'') 0)
     sample_item_25
   = Some (Inr \<lparr>result_fd = 7, result_bytes = response_spec sample_trades (work_query sample_item_25)\<rparr>)"
proof -
  obtain res fs' where p: "process_main 0 (\<lambda>_. True) [''data/raw/t.csv'']
      [''data/raw/t.csv'' \<mapsto> of_string (csv_file header_text sample_trades)] = (res, fs')"
    by (cases "process_main 0 (\<lambda>_. True) [''data/raw/t.csv'']
      [''data/raw/t.csv'' \<mapsto> of_string (csv_file header_text sample_trades)]")
  have "no_wrap (work_query sample_item_25)" "CHR 0x0A \<notin> set header_text" "sample_trades \<noteq> []"
    "length sample_trades = 3" "lower_bound (end_time_point (work_query sample_item_25)) sample_trades = 2"
    by (simp_all add: no_wrap_def sample_item_25_def header_text_def sample_trades_def lower_bound_def)
  with csv_to_response[of "''t''" header_text "\<lambda>_. True" "''data''"
      "[''data/raw/t.csv'' \<mapsto> of_string (csv_file header_text sample_trades)]" sample_trades 0 res fs'
      sample_item_25 0] p sample_sorted
  show ?thesis by (simp add: sample_item_25_def)
qed

section \<open>From the query to the printed text\<close>

text \<open>The values of one interval and of a whole query, as one set per interval.\<close>

definition interval_set :: "TradeData list \<Rightarrow> metric_set" where
  "interval_set w =
     (let m = fold minmax_body w minmax_init;
          (mean, mean_k) = to_mantissa (mean_of (fold mean_body w (0, 0)));
          (total, total_k) = to_mantissa (fold total_body w 0)
      in \<lparr>set_min = min_p m, set_max = max_p m,
          set_mean = \<lparr>price = mean, price_exponent = mean_k\<rparr>,
          set_total = \<lparr>quantity = total, quantity_exponent = total_k\<rparr>\<rparr>)"

definition response_sets :: "TradeData list \<Rightarrow> TradeDataQuery \<Rightarrow> metric_set list" where
  "response_sets ts q = map (\<lambda>(s, t). interval_set (window_read (of_nat s) (of_nat t) ts))
     (intervals (unat (start_time_point q)) (unat (end_time_point q)) (unat (resolution q)))"

lemma interval_spec_set_bytes:
  "bit c 0 \<Longrightarrow> bit c 1 \<Longrightarrow> bit c 2 \<Longrightarrow> interval_spec ts c s t = set_bytes (interval_set (window_read s t ts))"
  by (simp add: interval_spec_def minmax_bytes_def mean_bytes_def total_bytes_def interval_set_def
      set_bytes_def Let_def split: prod.splits)

lemma response_spec_sets:
  assumes "bit (metrics q) 0" and "bit (metrics q) 26" and "bit (metrics q) 33"
  shows "response_spec ts q = concat (map set_bytes (response_sets ts q))"
  using assms
  by (simp add: response_spec_def response_sets_def comp_def case_prod_unfold interval_spec_set_bytes
      metric_list_bits)

text \<open>C6. End to end: a client asks for all three metrics over a nonempty time range, the query does not
  wrap, a worker computes the response, of less than 2^31 bytes, over a time-ordered, nonempty file
  whose searches are safe up to the end of the query, the main thread sends it in any number of partial
  sends over the client's fresh connection, and the client reads and prints it. What is printed is, for
  every sub-interval in order, the minimum, maximum and mean price and the total quantity of the trades
  the code reads for it (\<open>window_read\<close>): the trades of the sub-interval, but the first trade of the
  file for a sub-interval that ends not after it, and the last trade for one that begins after it.\<close>

theorem query_to_text:
  assumes "covers (end_time_point (work_query w)) e" and "time_sorted (records e)" and "records e \<noteq> []"
    and "no_wrap (work_query w)" and "start_time_point (work_query w) < end_time_point (work_query w)"
    and "bit (metrics (work_query w)) 0" and "bit (metrics (work_query w)) 26"
    and "bit (metrics (work_query w)) 33"
    and "worker_process e w = Some (Inr r)" and "length (result_bytes r) < 2 ^ 31"
    and "conn srv0 (work_fd w) = Some c" and "wire srv0 c = []" and "write_buffers srv0 (work_fd w) = None"
    and "0 \<le> n2" and "\<forall>n \<in> set ns. 0 \<le> n" and "n2 + sum_list ns = int (length (result_bytes r))"
    and "srv1 = writes ns (work_fd w) (send_result 4 n2 err r srv0)"
  shows "\<exists>output. read_struct_char junk (char_recvs (wire srv1 c)) = Some (Inr output)
    \<and> format_response (metrics (work_query w)) output =
        Inr (concat (map (\<lambda>k. set_text (k + 1) (response_sets (records e) (work_query w) ! k))
          [0..<length (response_sets (records e) (work_query w))]))
    \<and> (\<forall>s t. window_read s t (records e) =
        (if t \<le> created_at (hd (records e)) then [hd (records e)]
         else if created_at (last (records e)) < s then [last (records e)]
         else in_window s t (records e)))"
proof -
  let ?q = "work_query w"
  let ?sets = "response_sets (records e) ?q"
  have r: "result_fd r = work_fd w" "result_bytes r = concat (map set_bytes ?sets)"
    using worker_spec[OF assms(1-4)] assms(9) response_spec_sets[OF assms(6-8)] by simp_all
  have "n2 + sum_list ns \<le> int (length (result_bytes r))" using assms(16) by simp
  from delivery[OF _ _ assms(14,15) this, of srv0 c err]
  have "wire srv1 c = le32 (of_nat (length (result_bytes r))) @ result_bytes r"
    using assms(11-13,16,17) r(1) by (simp add: Let_def)
  then have rd: "read_struct_char junk (char_recvs (wire srv1 c)) = Some (Inr (result_bytes r))"
    using read_char_complete[OF assms(10), of junk "[]"] by simp
  have "0 < unat (resolution ?q)" using assms(4) by (simp add: no_wrap_def word_less_nat_alt)
  then have "?sets \<noteq> []"
    using assms(5) by (simp add: response_sets_def intervals_Cons word_less_nat_alt)
  from all_metrics_text[OF assms(6-8) this] rd window_read_cases[OF assms(2,3)] show ?thesis
    unfolding r(2) by blast
qed

definition sample_item_all :: WorkItem where
  "sample_item_all = \<lparr>work_fd = 7, work_query = \<lparr>query_symbol_id = 1, start_time_point = 10,
     end_time_point = 25, resolution = 20, metrics = all_metrics\<rparr>\<rparr>"

definition sample_result :: ResultItem where
  "sample_result = \<lparr>result_fd = 7, result_bytes = response_spec sample_trades (work_query sample_item_all)\<rparr>"

lemma sample_result_sets:
  "response_sets sample_trades (work_query sample_item_all)
    = [interval_set (window_read 10 25 sample_trades)]"
  by (simp add: response_sets_def sample_item_all_def intervals.simps)

lemma sample_result_length: "length (result_bytes sample_result) = 20"
  using response_spec_sets[of "work_query sample_item_all" sample_trades] all_metrics_bits
  by (simp add: sample_result_def sample_result_sets) (simp add: sample_item_all_def)

theorem query_to_text_witness:
  "\<exists>output. read_struct_char [] (char_recvs (wire (writes [15] 7
        (send_result 4 5 EAGAIN sample_result sample_srv1)) 0)) = Some (Inr output)
    \<and> format_response all_metrics output = Inr (set_text 1 (interval_set (window_read 10 25 sample_trades)))"
proof -
  have "no_wrap (work_query sample_item_all)" by (simp add: no_wrap_def sample_item_all_def)
  note w = worker_spec[OF sample_covers _ _ this]
  have wp: "worker_process sample_engine sample_item_all = Some (Inr sample_result)"
    using w sample_sorted by (simp add: sample_result_def sample_trades_def) (simp add: sample_item_all_def)
  have srv: "conn sample_srv1 7 = Some 0" "wire sample_srv1 0 = []" "write_buffers sample_srv1 7 = None"
    by (simp_all add: sample_srv1_def empty_server_def)
  have q: "work_fd sample_item_all = 7" "metrics (work_query sample_item_all) = all_metrics"
    "start_time_point (work_query sample_item_all) < end_time_point (work_query sample_item_all)"
    "no_wrap (work_query sample_item_all)" "records sample_engine \<noteq> []"
    by (simp_all add: no_wrap_def sample_item_all_def) (simp add: sample_trades_def)
  from query_to_text[OF sample_covers _ q(5,4,3) _ _ _ wp, of sample_srv1 0 5 "[15]" _ EAGAIN "[]"]
  show ?thesis
    using srv q sample_sorted all_metrics_bits sample_result_length by (simp add: sample_result_sets) blast
qed

section \<open>A client program and the server\<close>

text \<open>What the client prints for a query for all three metrics; an empty response is one empty line.\<close>

definition answer_text :: "TradeData list \<Rightarrow> TradeDataQuery \<Rightarrow> string" where
  "answer_text ts q = (let ms = response_sets ts q in
     if ms = [] then newline else concat (map (\<lambda>k. set_text (k + 1) (ms ! k)) [0..<length ms]))"

lemma format_answer:
  assumes "bit (metrics q) 0" and "bit (metrics q) 26" and "bit (metrics q) 33"
  shows "format_response (metrics q) (response_spec ts q) = Inr (answer_text ts q)"
proof (cases "response_sets ts q = []")
  case True
  then show ?thesis
    using response_spec_sets[OF assms, of ts] by (simp add: answer_text_def format_response_def)
next
  case False
  then show ?thesis
    unfolding response_spec_sets[OF assms] all_metrics_text[OF assms False] by (simp add: answer_text_def Let_def)
qed

text \<open>
  The rounds of the client over the connection \<open>bs\<close>: it sends each query whole, and in round \<open>i\<close>
  \<open>recv\<close> delivers what follows the responses \<open>fs\<close> of the rounds before.
\<close>

definition reads_wire :: "byte list \<Rightarrow> byte list list \<Rightarrow> round_env list \<Rightarrow> bool" where
  "reads_wire bs fs envs \<longleftrightarrow> length envs = length fs \<and> (\<forall>i < length envs.
     env_sent (envs ! i) = int sizeof_TradeDataQuery
     \<and> env_recvs (envs ! i) = char_recvs (drop (length (concat (take i fs))) bs))"

lemma reads_wire_round:
  assumes "reads_wire (concat fs) fs envs" and "i < length fs"
  shows "\<exists>rest. env_recvs (envs ! i) = char_recvs (fs ! i @ rest)"
proof -
  have "concat fs = concat (take i fs) @ fs ! i @ concat (drop (Suc i) fs)"
    using id_take_nth_drop[OF assms(2)] by (metis concat.simps(2) concat_append)
  then have "drop (length (concat (take i fs))) (concat fs) = fs ! i @ concat (drop (Suc i) fs)" by simp
  then show ?thesis using assms by (auto simp: reads_wire_def)
qed

text \<open>C3. The two programs together: the server runs with any number of workers and of clients that wait
  for their answers, over a time-ordered, nonempty file. One of them is \<open>client_main\<close>, connected,
  started on the lines of any queries \<open>qs\<close>. The connection carries what was sent: the queries that the
  server received on it are those of the client's messages, and the client receives what the server
  sent. These queries ask for all three metrics, neither wrap nor reach the unsafe end of the file and
  have responses below 2^31 bytes, and the client has got all its answers. Then the queries the server
  received are the first ones of \<open>qs\<close>, in order (and, after the end of the input, the uninitialised
  variable \<open>query\<close>), and the client has sent one after the other and has printed, after each, the
  minimum, maximum and mean price and the total quantity of the trades that the code reads for every
  sub-interval of that query: the trades of the sub-interval, but the first trade of the file for a
  sub-interval that ends not after it, and the last trade for one that begins after it.\<close>

theorem client_and_server:
  assumes "start_run c0 = Inr s0" and "(loop_step e)\<^sup>*\<^sup>* (sys_init s0 n, \<lambda>_. [], \<lambda>_. []) (s, Q, L)"
    and "time_sorted (records e)" and "records e \<noteq> []" and "idle (srv s) Q L c"
    and "\<forall>q \<in> set (Q c). no_wrap q \<and> covers (end_time_point q) e \<and> length (response_spec (records e) q) < 2 ^ 31
      \<and> bit (metrics q) 0 \<and> bit (metrics q) 26 \<and> bit (metrics q) 33"
    and "connects args sock pton ret"
    and "reads_wire (wire (srv s) c) (map (frame \<circ> response_spec (records e)) (Q c)) envs"
    and "client_main False args sock pton junk ret envs (concat (map query_line qs)) = (evs, r)"
    and "sent_queries evs = Q c"
  shows "Q c = take (length envs) qs @ map env_query (drop (length qs) envs)
    \<and> evs = concat (map (\<lambda>(env, q). [Sent (encode_TradeDataQuery (env_pad env) q),
        Printed (answer_text (records e) q)]) (zip envs (Q c)))
    \<and> r = None
    \<and> (\<forall>s t. window_read s t (records e) =
        (if t \<le> created_at (hd (records e)) then [hd (records e)]
         else if created_at (last (records e)) < s then [last (records e)]
         else in_window s t (records e)))"
proof -
  let ?f = "frame \<circ> response_spec (records e)"
  have len: "length envs = length (Q c)" using assms(8) by (simp add: reads_wire_def)
  have w: "wire (srv s) c = concat (map ?f (Q c))"
    using idle_answers[OF loop_inv_reachable[OF assms(1,2)] assms(3,4) _ assms(5)] assms(6) by blast
  have "answered (envs ! i) (Q c ! i) (response_spec (records e) (Q c ! i)) (answer_text (records e) (Q c ! i))"
    if i: "i < length (Q c)" for i
  proof -
    have "Q c ! i \<in> set (Q c)" using i by simp
    then show ?thesis
      using assms(6,8) reads_wire_round[of "map ?f (Q c)" envs i] format_answer[of "Q c ! i" "records e"] i w
      by (auto simp: answered_def reads_wire_def frame_def)
  qed
  then have rounds: "\<forall>(env, q) \<in> set (zip envs (Q c)).
      answered env q (response_spec (records e) q) (answer_text (records e) q)"
    using len by (auto simp: set_zip)
  have "client_loop False envs \<lparr>stream_rest = [] @ concat (map query_line qs), stream_good = True\<rparr> = (evs, r)"
    using assms(9) client_main_connected[OF assms(7)] by simp
  from session_follows[OF len rounds this assms(10)] queries_read_lines[of "[]" envs qs]
    window_read_cases[OF assms(3,4)] show ?thesis by simp
qed

text \<open>A session over the sample file: the client connects, asks, and is answered.\<close>

lemma sample_query_session:
  assumes "worker_process sample_engine \<lparr>work_fd = 7, work_query = q\<rparr> = Some (Inr r)"
  shows "\<exists>s. (loop_step sample_engine)\<^sup>*\<^sup>* (sys_init sample_srv0 1, \<lambda>_. [], \<lambda>_. []) (s, (\<lambda>_. [])(0 := [q]), (\<lambda>_. [])(0 := [r]))
    \<and> idle (srv s) ((\<lambda>_. [])(0 := [q])) ((\<lambda>_. [])(0 := [r])) 0"
proof -
  let ?w = "\<lparr>work_fd = 7, work_query = q\<rparr>" and ?Q = "(\<lambda>_ :: nat. [] :: TradeDataQuery list)(0 := [q])"
  let ?L = "\<lambda>_ :: nat. [] :: ResultItem list"
  let ?t = "sample_srv1\<lparr>work_queue := [?w]\<rparr>"
  let ?s2 = "(sys_init sample_srv1 1)\<lparr>srv := ?t, received := [?w]\<rparr>"
  let ?s3 = "?s2\<lparr>srv := sample_srv1, workers := [Busy ?w]\<rparr>"
  let ?s4 = "?s3\<lparr>srv := sample_srv1\<lparr>results_queue := [r]\<rparr>, workers := [Free], answered := [?w], produced := [r]\<rparr>"
  let ?s5 = "?s4\<lparr>srv := send_result 4 (int (length (result_bytes r))) EAGAIN r sample_srv1, handled := [r]\<rparr>"
  note defs = sys_init_def sample_srv1_def empty_server_def worker_at_def TSQueue_pop_def TSQueue_push_def
  have r: "result_fd r = 7" using worker_process_fd[OF assms] by simp
  have 1: "loop_step sample_engine (sys_init sample_srv1 1, \<lambda>_. [], ?L) (?s2, ?Q, ?L)"
    using lp_query[of "sys_init sample_srv1 1" 7 0 "\<lambda>_. []" ?L "[]" q "[]" ?t sample_engine]
    by (simp add: defs idle_def received_query_def)
  have 2: "loop_step sample_engine (?s2, ?Q, ?L) (?s3, ?Q, ?L)"
    using fa_take[of ?s2 0 ?w "[]" sample_engine ?Q ?L, THEN fair_act_step] by (simp add: defs)
  have 3: "loop_step sample_engine (?s3, ?Q, ?L) (?s4, ?Q, ?L)"
    using fa_finish[of ?s3 0 ?w sample_engine r ?Q ?L, THEN fair_act_step] assms by (simp add: defs)
  have 4: "loop_step sample_engine (?s4, ?Q, ?L) (?s5, ?Q, ?L(0 := [r]))"
    using fa_main[of ?s4 r "[]" 0 4 "int (length (result_bytes r))" sample_engine ?Q ?L EAGAIN, THEN fair_act_step] r
    by (simp add: defs)
  have "idle (srv ?s5) ?Q (?L(0 := [r])) 0"
    using r by (simp add: idle_def send_result_unfold Let_def transmit_def frame_def sample_srv1_def empty_server_def)
  moreover have "(loop_step sample_engine)\<^sup>*\<^sup>* (sys_init sample_srv0 1, \<lambda>_. [], ?L) (?s5, ?Q, ?L(0 := [r]))"
    using sample_loop_steps(1) 1 2 3 4 by (meson converse_rtranclp_into_rtranclp rtranclp.rtrancl_refl)
  ultimately show ?thesis by blast
qed

theorem client_and_server_witness:
  "let q = work_query sample_item_all;
       (evs, r) = client_main False [] 3 (\<lambda>_. Some 0) 0 0
         [\<lparr>env_pad = [], env_query = sample_query, env_sent = 40, env_junk = [],
           env_recvs = char_recvs (frame (result_bytes sample_result))\<rparr>] (query_line q @ query_line sample_query)
   in sent_queries evs = [q] \<and> r = None
     \<and> evs = [Sent (encode_TradeDataQuery [] q),
         Printed (set_text 1 (interval_set (window_read 10 25 sample_trades)))]"
proof -
  let ?q = "work_query sample_item_all" and ?qs = "[work_query sample_item_all, sample_query]"
  let ?env = "\<lparr>env_pad = [], env_query = sample_query, env_sent = 40, env_junk = [],
      env_recvs = char_recvs (frame (result_bytes sample_result))\<rparr>"
  let ?txt = "set_text 1 (interval_set (window_read 10 25 sample_trades))"
  have q: "no_wrap ?q" "metrics ?q = all_metrics" "sample_item_all = \<lparr>work_fd = 7, work_query = ?q\<rparr>"
    by (simp_all add: no_wrap_def sample_item_all_def)
  have "worker_process sample_engine sample_item_all = Some (Inr sample_result)"
    using worker_spec[OF sample_covers _ _ q(1)] sample_records
    by (simp add: sample_result_def) (simp add: sample_item_all_def)
  then obtain s where s: "(loop_step sample_engine)\<^sup>*\<^sup>* (sys_init sample_srv0 1, \<lambda>_. [], \<lambda>_. [])
      (s, (\<lambda>_. [])(0 := [?q]), (\<lambda>_. [])(0 := [sample_result]))"
    "idle (srv s) ((\<lambda>_. [])(0 := [?q])) ((\<lambda>_. [])(0 := [sample_result])) 0"
    using sample_query_session q(3) by metis
  have w: "wire (srv s) 0 = frame (result_bytes sample_result)" using s(2) by (simp add: idle_def)
  have shown: "answer_text sample_trades ?q = ?txt"
    by (simp add: answer_text_def sample_result_sets)
  obtain evs r where main: "client_main False [] 3 (\<lambda>_. Some 0) 0 0 [?env] (concat (map query_line ?qs)) = (evs, r)"
    by fastforce
  have "answered ?env ?q (response_spec sample_trades ?q) ?txt"
    using format_answer[of ?q sample_trades] q(2) all_metrics_bits shown sample_result_length
    by (auto simp: answered_def frame_def sample_result_def intro!: exI[of _ "[]"])
  from client_step_answered[OF read_query_line[of "[]" ?q "query_line sample_query"] this]
  have "sent_queries evs = [?q]"
    using main client_main_connected[OF sample_connects] by auto
  with client_and_server[OF sample_start s(1) sample_records(2,1) s(2) _ sample_connects _ main]
  show ?thesis
    using q(1,2) sample_covers all_metrics_bits sample_result_length w shown main
    by (simp add: reads_wire_def sample_result_def Let_def)
qed

end
